(* ===== verification/Mx_Prelude.thy ===== *)
theory Mx_Prelude
  imports Main "HOL-Library.Word" "HOL-Library.Monad_Syntax"
begin

unbundle bit_operations_syntax

declare push_bit_of_1 [simp del]

text \<open>
  The prelude of the development: the machine types and status codes the kernel's sources
  share (\<^verbatim>\<open>system/ulib/magenta/include/magenta/types.h\<close>, \<^verbatim>\<open>kernel/include/sys/types.h\<close>,
  \<^verbatim>\<open>global/include/global/fuchsia-types.h\<close>), the conversions of
  \<^verbatim>\<open>kernel/lib/magenta/include/magenta/magenta.h\<close> and \<^verbatim>\<open>kernel/include/pow2.h\<close> that every
  component uses, and the generic lemmas on lists, function updates and words that carry the
  component proofs.
\<close>

named_theorems mx_consts \<open>definitions of the kernel's numeric constants\<close>
named_theorems sig_simps \<open>single-bit tests on masked words\<close>

section \<open>Types\<close>

type_synonym u8 = "8 word"
type_synonym u32 = "32 word"
type_synonym u64 = "64 word"
type_synonym lk_time = "32 word"
type_synonym mx_time = "64 word"
type_synonym mx_signals = "32 word"
type_synonym mx_rights = "32 word"
type_synonym mx_koid = "64 word"
type_synonym mx_size = "64 word"
type_synonym cpu_num = nat

text \<open>
  Thread identities: the idle threads are statically allocated per cpu
  (\<^verbatim>\<open>_idle_threads[SMP_MAX_CPUS]\<close>), every other thread structure has an address.
\<close>

datatype tid = Idle_Thread cpu_num | Thread nat

text \<open>
  The status codes. \<^verbatim>\<open>ERR_HANDLE_CLOSED\<close> and \<^verbatim>\<open>ERR_CANCELLED\<close> are the same number in the
  sources, so the model has the one constructor \<open>ERR_CANCELLED\<close> for both.
\<close>

datatype status =
    NO_ERROR
  | ERR_INTERNAL | ERR_NOT_SUPPORTED | ERR_NOT_FOUND | ERR_NO_MEMORY | ERR_NO_RESOURCES
  | ERR_INVALID_ARGS | ERR_WRONG_TYPE | ERR_BAD_SYSCALL | ERR_BAD_HANDLE | ERR_OUT_OF_RANGE
  | ERR_NOT_ENOUGH_BUFFER | ERR_ALREADY_EXISTS | ERR_ALREADY_BOUND
  | ERR_BAD_STATE | ERR_FLOW_CONTROL | ERR_NOT_READY | ERR_TIMED_OUT | ERR_CANCELLED
  | ERR_CHANNEL_CLOSED | ERR_NOT_AVAILABLE | ERR_ACCESS_DENIED
  | ERR_IO | ERR_I2C_NACK | ERR_CHECKSUM_FAIL
  | ERR_BAD_PATH | ERR_NOT_DIR | ERR_NOT_FILE | ERR_RECURSE_TOO_DEEP
  | ERR_NOT_VALID | ERR_TOO_BIG | ERR_FAULT | ERR_ALREADY_STARTED | ERR_NOT_BLOCKED
  | ERR_THREAD_DETACHED | ERR_NOT_MOUNTED | ERR_BUSY
  | ERR_INTERRUPTED

fun status_value :: "status \<Rightarrow> int" where
  "status_value NO_ERROR = 0"
| "status_value ERR_INTERNAL = -1"
| "status_value ERR_NOT_SUPPORTED = -2"
| "status_value ERR_NOT_FOUND = -3"
| "status_value ERR_NO_MEMORY = -4"
| "status_value ERR_NO_RESOURCES = -5"
| "status_value ERR_INVALID_ARGS = -10"
| "status_value ERR_WRONG_TYPE = -54"
| "status_value ERR_BAD_SYSCALL = -11"
| "status_value ERR_BAD_HANDLE = -12"
| "status_value ERR_OUT_OF_RANGE = -13"
| "status_value ERR_NOT_ENOUGH_BUFFER = -14"
| "status_value ERR_ALREADY_EXISTS = -15"
| "status_value ERR_ALREADY_BOUND = -16"
| "status_value ERR_BAD_STATE = -20"
| "status_value ERR_FLOW_CONTROL = -21"
| "status_value ERR_NOT_READY = -22"
| "status_value ERR_TIMED_OUT = -23"
| "status_value ERR_CANCELLED = -24"
| "status_value ERR_CHANNEL_CLOSED = -25"
| "status_value ERR_NOT_AVAILABLE = -26"
| "status_value ERR_ACCESS_DENIED = -30"
| "status_value ERR_IO = -40"
| "status_value ERR_I2C_NACK = -41"
| "status_value ERR_CHECKSUM_FAIL = -42"
| "status_value ERR_BAD_PATH = -50"
| "status_value ERR_NOT_DIR = -51"
| "status_value ERR_NOT_FILE = -52"
| "status_value ERR_RECURSE_TOO_DEEP = -53"
| "status_value ERR_NOT_VALID = -90"
| "status_value ERR_TOO_BIG = -92"
| "status_value ERR_FAULT = -93"
| "status_value ERR_ALREADY_STARTED = -95"
| "status_value ERR_NOT_BLOCKED = -96"
| "status_value ERR_THREAD_DETACHED = -97"
| "status_value ERR_NOT_MOUNTED = -98"
| "status_value ERR_BUSY = -99"
| "status_value ERR_INTERRUPTED = -502"

text \<open>
  The sources test \<^verbatim>\<open>status < 0\<close> and \<^verbatim>\<open>status != NO_ERROR\<close> interchangeably; every code but
  \<open>NO_ERROR\<close> is negative, so the model writes \<open>\<noteq> NO_ERROR\<close> for both.
\<close>

lemma status_value_neg_iff: "status_value s < 0 \<longleftrightarrow> s \<noteq> NO_ERROR"
  by (cases s) simp_all

section \<open>Constants\<close>

definition INFINITE_TIME :: lk_time where "INFINITE_TIME = -1"
definition MX_TIME_INFINITE :: mx_time where "MX_TIME_INFINITE = -1"
definition MX_SIGNAL_READABLE :: mx_signals where "MX_SIGNAL_READABLE = push_bit 0 1"
definition MX_SIGNAL_WRITABLE :: mx_signals where "MX_SIGNAL_WRITABLE = push_bit 1 1"
definition MX_SIGNAL_PEER_CLOSED :: mx_signals where "MX_SIGNAL_PEER_CLOSED = push_bit 2 1"
definition MX_SIGNAL_SIGNALED :: mx_signals where "MX_SIGNAL_SIGNALED = push_bit 3 1"
definition MX_SIGNAL_USER_ALL :: mx_signals where "MX_SIGNAL_USER_ALL = push_bit 4 15"
definition MX_RIGHT_DUPLICATE :: mx_rights where "MX_RIGHT_DUPLICATE = push_bit 0 1"
definition MX_RIGHT_TRANSFER :: mx_rights where "MX_RIGHT_TRANSFER = push_bit 1 1"
definition MX_RIGHT_READ :: mx_rights where "MX_RIGHT_READ = push_bit 2 1"
definition MX_RIGHT_WRITE :: mx_rights where "MX_RIGHT_WRITE = push_bit 3 1"
definition MX_RIGHT_SAME_RIGHTS :: mx_rights where "MX_RIGHT_SAME_RIGHTS = push_bit 31 1"

lemmas [mx_consts] =
  INFINITE_TIME_def MX_TIME_INFINITE_def
  MX_SIGNAL_READABLE_def MX_SIGNAL_WRITABLE_def MX_SIGNAL_PEER_CLOSED_def
  MX_SIGNAL_SIGNALED_def MX_SIGNAL_USER_ALL_def
  MX_RIGHT_DUPLICATE_def MX_RIGHT_TRANSFER_def MX_RIGHT_READ_def MX_RIGHT_WRITE_def
  MX_RIGHT_SAME_RIGHTS_def

section \<open>Time: wrap-around comparison and conversion\<close>

text \<open>
  \<^verbatim>\<open>TIME_LT(a, b)\<close> is \<^verbatim>\<open>(int32_t)((a) - (b)) < 0\<close>: the difference wraps and is then read as
  signed.
\<close>

definition TIME_GT :: "lk_time \<Rightarrow> lk_time \<Rightarrow> bool" where
  "TIME_GT a b \<longleftrightarrow> sint (a - b) > 0"

definition TIME_LT :: "lk_time \<Rightarrow> lk_time \<Rightarrow> bool" where
  "TIME_LT a b \<longleftrightarrow> sint (a - b) < 0"

definition mx_time_to_lk :: "mx_time \<Rightarrow> lk_time" where
  "mx_time_to_lk mxt =
     (if mxt = MX_TIME_INFINITE then INFINITE_TIME
      else let temp = mxt div 1000000 in
        if temp \<ge> 4294967295 then 4294967295 - 1
        else ucast (temp AND 4294967295))"

definition timeout_to_deadline :: "lk_time \<Rightarrow> lk_time \<Rightarrow> lk_time" where
  "timeout_to_deadline now timeout =
     (if timeout > -1 - now then INFINITE_TIME else now + timeout)"

section \<open>Rights\<close>

definition magenta_rights_check :: "mx_rights \<Rightarrow> mx_rights \<Rightarrow> bool" where
  "magenta_rights_check actual desired \<longleftrightarrow> actual AND desired = desired"

section \<open>Assertions\<close>

text \<open>\<^verbatim>\<open>DEBUG_ASSERT\<close> and \<^verbatim>\<open>panic\<close>: a failed assertion ends the run, \<open>None\<close>.\<close>

definition kassert :: "bool \<Rightarrow> unit option" where
  "kassert b = (if b then Some () else None)"

section \<open>Generic lemmas\<close>

lemma kassert_simps [simp]: "kassert True = Some ()" "kassert False = None"
  by (simp_all add: kassert_def)

lemma kassert_eq_Some [simp]: "kassert b = Some u \<longleftrightarrow> b"
  by (simp add: kassert_def)

lemma and_push_bit_one_eq_0 [sig_simps]:
  "(w :: 'a :: len word) AND push_bit n 1 = 0 \<longleftrightarrow> \<not> bit w n"
  by (simp add: push_bit_eq_mult and_exp_eq_0_iff_not_bit)

lemma bit_push_bit_one_iff [sig_simps]:
  "bit (push_bit k 1 :: 'a :: len word) n \<longleftrightarrow> n = k \<and> k < LENGTH('a)"
  by (auto simp: bit_simps)

lemma and_or_distrib_zero: "(w :: 'a :: len word) AND (a OR b) = 0 \<longleftrightarrow> w AND a = 0 \<and> w AND b = 0"
  by (auto simp: bit_eq_iff bit_simps)

lemma mem_remove1_distinct: "distinct xs \<Longrightarrow> y \<in> set (remove1 x xs) \<longleftrightarrow> y \<in> set xs \<and> y \<noteq> x"
  by (auto simp: set_remove1_eq)

end
