(* ===== verification/Kernel_Timer.thy ===== *)
theory Kernel_Timer
  imports Mx_Prelude
begin

text \<open>
  The kernel timer queues, \<^verbatim>\<open>kernel/kernel/timer.c\<close>, in the configuration with a dynamic
  platform timer (\<^verbatim>\<open>PLATFORM_HAS_DYNAMIC_TIMER\<close>, x86 and ARM generic timers). Each cpu has a
  queue of timers kept in order of expiry under the wrap-around comparison, and a hardware
  one-shot timer that \<^verbatim>\<open>platform_set_oneshot_timer\<close> programs; the model records the absolute
  expiry it was programmed with. Callbacks are a parameter \<open>fire\<close> of the tick: a callback
  acts on the whole kernel state, which extends the record of this theory.
\<close>

record 'c timer =
  scheduled_time :: lk_time
  periodic_time :: lk_time
  callback :: "'c option"

text \<open>
  Where a \<^verbatim>\<open>timer_t\<close> lives: the per-cpu preemption timers of the scheduler, the timer on the stack
  of a thread inside \<^verbatim>\<open>thread_sleep_etc\<close> or \<^verbatim>\<open>wait_queue_block\<close> (a thread is in at most one of
  them), or elsewhere.
\<close>

datatype timer_id = Preempt_Timer cpu_num | Stack_Timer tid | Timer_At nat

datatype handler_return = INT_NO_RESCHEDULE | INT_RESCHEDULE

record 'c timer_state =
  timer_tab :: "timer_id \<Rightarrow> 'c timer"
  timer_queue :: "cpu_num \<Rightarrow> timer_id list"
  hw_timer :: "cpu_num \<Rightarrow> lk_time option"

definition TIMER_INITIAL_VALUE :: "'c timer" where
  "TIMER_INITIAL_VALUE = \<lparr>scheduled_time = 0, periodic_time = 0, callback = None\<rparr>"

definition timer_initialize ::
  "timer_id \<Rightarrow> ('c, 'm) timer_state_scheme \<Rightarrow> ('c, 'm) timer_state_scheme" where
  "timer_initialize t s = s\<lparr>timer_tab := (timer_tab s)(t := TIMER_INITIAL_VALUE)\<rparr>"

text \<open>
  \<open>list_in_list(&timer->node)\<close>: the node is linked in some queue.
\<close>

definition timer_in_list :: "cpu_num list \<Rightarrow> timer_id \<Rightarrow> ('c, 'm) timer_state_scheme \<Rightarrow> bool" where
  "timer_in_list cpus t s \<longleftrightarrow> (\<exists>c\<in>set cpus. t \<in> set (timer_queue s c))"

text \<open>The walk of \<^verbatim>\<open>insert_timer_in_queue\<close>: before the first entry that expires later.\<close>

fun insert_timer :: "(timer_id \<Rightarrow> lk_time) \<Rightarrow> timer_id \<Rightarrow> timer_id list \<Rightarrow> timer_id list" where
  "insert_timer sched t [] = [t]"
| "insert_timer sched t (e # es) =
     (if TIME_GT (sched e) (sched t) then t # e # es else e # insert_timer sched t es)"

definition sched_of :: "('c, 'm) timer_state_scheme \<Rightarrow> timer_id \<Rightarrow> lk_time" where
  "sched_of s t = scheduled_time (timer_tab s t)"

definition insert_timer_in_queue ::
  "cpu_num \<Rightarrow> timer_id \<Rightarrow> ('c, 'm) timer_state_scheme \<Rightarrow> ('c, 'm) timer_state_scheme" where
  "insert_timer_in_queue cpu t s =
     s\<lparr>timer_queue := (timer_queue s)(cpu := insert_timer (sched_of s) t (timer_queue s cpu))\<rparr>"

definition platform_set_oneshot_timer ::
  "cpu_num \<Rightarrow> lk_time \<Rightarrow> lk_time \<Rightarrow> ('c, 'm) timer_state_scheme \<Rightarrow> ('c, 'm) timer_state_scheme" where
  "platform_set_oneshot_timer cpu now delay s = s\<lparr>hw_timer := (hw_timer s)(cpu := Some (now + delay))\<rparr>"

definition platform_stop_timer ::
  "cpu_num \<Rightarrow> ('c, 'm) timer_state_scheme \<Rightarrow> ('c, 'm) timer_state_scheme" where
  "platform_stop_timer cpu s = s\<lparr>hw_timer := (hw_timer s)(cpu := None)\<rparr>"

definition peek_head :: "timer_id list \<Rightarrow> timer_id option" where
  "peek_head q = (case q of [] \<Rightarrow> None | t # _ \<Rightarrow> Some t)"

text \<open>
  \<^verbatim>\<open>timer_set\<close> panics when the timer is already queued: \<open>None\<close>.
\<close>

definition timer_set ::
  "cpu_num list \<Rightarrow> cpu_num \<Rightarrow> lk_time \<Rightarrow> timer_id \<Rightarrow> lk_time \<Rightarrow> lk_time \<Rightarrow> 'c \<Rightarrow>
   ('c, 'm) timer_state_scheme \<Rightarrow> ('c, 'm) timer_state_scheme option" where
  "timer_set cpus cpu now t delay period cb s =
     (if timer_in_list cpus t s then None
      else
        let delay = delay + 1;
            s = s\<lparr>timer_tab := (timer_tab s)(t :=
                  \<lparr>scheduled_time = now + delay, periodic_time = period, callback = Some cb\<rparr>)\<rparr>;
            s = insert_timer_in_queue cpu t s;
            s = (if peek_head (timer_queue s cpu) = Some t
                 then platform_set_oneshot_timer cpu now delay s else s)
        in Some s)"

definition timer_set_oneshot ::
  "cpu_num list \<Rightarrow> cpu_num \<Rightarrow> lk_time \<Rightarrow> timer_id \<Rightarrow> lk_time \<Rightarrow> 'c \<Rightarrow>
   ('c, 'm) timer_state_scheme \<Rightarrow> ('c, 'm) timer_state_scheme option" where
  "timer_set_oneshot cpus cpu now t delay cb s =
     timer_set cpus cpu now t (if delay = 0 then 1 else delay) 0 cb s"

definition timer_set_periodic ::
  "cpu_num list \<Rightarrow> cpu_num \<Rightarrow> lk_time \<Rightarrow> timer_id \<Rightarrow> lk_time \<Rightarrow> 'c \<Rightarrow>
   ('c, 'm) timer_state_scheme \<Rightarrow> ('c, 'm) timer_state_scheme option" where
  "timer_set_periodic cpus cpu now t period cb s =
     (let period = (if period = 0 then 1 else period)
      in timer_set cpus cpu now t period period cb s)"

text \<open>
  \<^verbatim>\<open>timer_cancel\<close> unlinks the node from whatever queue holds it, then reprograms the
  hardware timer of the cpu it runs on when that cpu's head changed.
\<close>

definition rearm_delay :: "lk_time \<Rightarrow> lk_time \<Rightarrow> lk_time" where
  "rearm_delay now sched = (if TIME_LT sched now then 0 else sched - now)"

definition timer_cancel ::
  "cpu_num \<Rightarrow> lk_time \<Rightarrow> timer_id \<Rightarrow> ('c, 'm) timer_state_scheme \<Rightarrow> ('c, 'm) timer_state_scheme" where
  "timer_cancel cpu now t s =
     (let oldhead = peek_head (timer_queue s cpu);
          s = s\<lparr>timer_queue := (\<lambda>c. remove1 t (timer_queue s c))\<rparr>;
          s = s\<lparr>timer_tab := (timer_tab s)(t := (timer_tab s t)\<lparr>periodic_time := 0, callback := None\<rparr>)\<rparr>;
          newhead = peek_head (timer_queue s cpu)
      in case newhead of
           None \<Rightarrow> platform_stop_timer cpu s
         | Some h \<Rightarrow>
             if newhead \<noteq> oldhead
             then platform_set_oneshot_timer cpu now (rearm_delay now (sched_of s h)) s
             else s)"

text \<open>
  The loop of \<^verbatim>\<open>timer_tick\<close>. A callback may panic or fail an assertion, and it may queue timers that are already
  due so that the loop need not end: both are \<open>None\<close>. A null callback (a timer cancelled but still
  linked) would be a jump through a null pointer; \<open>fire\<close> receives the callback option and the
  kernel's dispatch answers \<open>None\<close> there.
\<close>

definition tick_one ::
  "(timer_id \<Rightarrow> lk_time \<Rightarrow> 'c option \<Rightarrow> ('c, 'm) timer_state_scheme \<Rightarrow>
      (handler_return \<times> ('c, 'm) timer_state_scheme) option) \<Rightarrow>
   cpu_num list \<Rightarrow> cpu_num \<Rightarrow> lk_time \<Rightarrow> timer_id \<Rightarrow> handler_return \<Rightarrow> ('c, 'm) timer_state_scheme \<Rightarrow>
   (handler_return \<times> ('c, 'm) timer_state_scheme) option" where
  "tick_one fire cpus cpu now t ret s =
     (let s = s\<lparr>timer_queue := (\<lambda>c. remove1 t (timer_queue s c))\<rparr>;
          periodic = (periodic_time (timer_tab s t) > 0)
      in do {
        (r, s) \<leftarrow> fire t now (callback (timer_tab s t)) s;
        let ret = (if r = INT_RESCHEDULE then INT_RESCHEDULE else ret);
        Some (if periodic \<and> \<not> timer_in_list cpus t s \<and> periodic_time (timer_tab s t) > 0
         then (ret, insert_timer_in_queue cpu t
                      (s\<lparr>timer_tab := (timer_tab s)(t :=
                           (timer_tab s t)\<lparr>scheduled_time := now + periodic_time (timer_tab s t)\<rparr>)\<rparr>))
         else (ret, s))
      })"

partial_function (option) tick_loop ::
  "(timer_id \<Rightarrow> lk_time \<Rightarrow> 'c option \<Rightarrow> ('c, 'm) timer_state_scheme \<Rightarrow>
      (handler_return \<times> ('c, 'm) timer_state_scheme) option) \<Rightarrow>
   cpu_num list \<Rightarrow> cpu_num \<Rightarrow> lk_time \<Rightarrow> handler_return \<Rightarrow> ('c, 'm) timer_state_scheme \<Rightarrow>
   (handler_return \<times> ('c, 'm) timer_state_scheme) option" where
  "tick_loop fire cpus cpu now ret s =
     (case timer_queue s cpu of
        [] \<Rightarrow> Some (ret, s)
      | t # _ \<Rightarrow>
          if TIME_LT now (sched_of s t) then Some (ret, s)
          else Option.bind (tick_one fire cpus cpu now t ret s)
                 (\<lambda>(ret, s). tick_loop fire cpus cpu now ret s))"

text \<open>
  \<^verbatim>\<open>timer_tick\<close> is what the hardware one-shot calls when it expires: from then on nothing is
  programmed until the tick programs the next event.
\<close>

definition oneshot_fired ::
  "cpu_num \<Rightarrow> ('c, 'm) timer_state_scheme \<Rightarrow> ('c, 'm) timer_state_scheme" where
  "oneshot_fired cpu s = s\<lparr>hw_timer := (hw_timer s)(cpu := None)\<rparr>"

definition timer_tick ::
  "(timer_id \<Rightarrow> lk_time \<Rightarrow> 'c option \<Rightarrow> ('c, 'm) timer_state_scheme \<Rightarrow>
      (handler_return \<times> ('c, 'm) timer_state_scheme) option) \<Rightarrow>
   cpu_num list \<Rightarrow> cpu_num \<Rightarrow> lk_time \<Rightarrow> ('c, 'm) timer_state_scheme \<Rightarrow>
   (handler_return \<times> ('c, 'm) timer_state_scheme) option" where
  "timer_tick fire cpus cpu now s =
     map_option (\<lambda>(ret, s).
         (ret, case peek_head (timer_queue s cpu) of
                 None \<Rightarrow> s
               | Some h \<Rightarrow> platform_set_oneshot_timer cpu now (sched_of s h - now) s))
       (tick_loop fire cpus cpu now INT_NO_RESCHEDULE (oneshot_fired cpu s))"

fun move_timers ::
  "cpu_num \<Rightarrow> cpu_num \<Rightarrow> timer_id list \<Rightarrow> ('c, 'm) timer_state_scheme \<Rightarrow> ('c, 'm) timer_state_scheme" where
  "move_timers old_cpu cpu [] s = s"
| "move_timers old_cpu cpu (e # es) s =
     move_timers old_cpu cpu es
       (insert_timer_in_queue cpu e
          (s\<lparr>timer_queue := (timer_queue s)(old_cpu := remove1 e (timer_queue s old_cpu))\<rparr>))"

text \<open>
  \<^verbatim>\<open>timer_transition_off_cpu\<close> dereferences \<^verbatim>\<open>new_head\<close> when it differs from \<^verbatim>\<open>old_head\<close>; the
  heads differ only if one of the queues was not empty, so the pointer is not null there.
\<close>

definition timer_transition_off_cpu ::
  "cpu_num \<Rightarrow> lk_time \<Rightarrow> cpu_num \<Rightarrow> ('c, 'm) timer_state_scheme \<Rightarrow> ('c, 'm) timer_state_scheme" where
  "timer_transition_off_cpu cpu now old_cpu s =
     (let old_head = peek_head (timer_queue s old_cpu);
          s = move_timers old_cpu cpu (timer_queue s old_cpu) s;
          new_head = peek_head (timer_queue s cpu)
      in if new_head \<noteq> old_head
         then (case new_head of
                 None \<Rightarrow> s
               | Some h \<Rightarrow> platform_set_oneshot_timer cpu now
                            (if TIME_LT now (sched_of s h) then sched_of s h - now else 0) s)
         else s)"

definition timer_thaw_percpu ::
  "cpu_num \<Rightarrow> lk_time \<Rightarrow> ('c, 'm) timer_state_scheme \<Rightarrow> ('c, 'm) timer_state_scheme" where
  "timer_thaw_percpu cpu now s =
     (case peek_head (timer_queue s cpu) of
        None \<Rightarrow> s
      | Some h \<Rightarrow> platform_set_oneshot_timer cpu now
                   (if TIME_LT now (sched_of s h) then sched_of s h - now else 0) s)"

definition timer_init :: "('c, 'm) timer_state_scheme \<Rightarrow> ('c, 'm) timer_state_scheme" where
  "timer_init s = s\<lparr>timer_queue := (\<lambda>_. [])\<rparr>"


section \<open>Order of expiry under wrap-around\<close>

text \<open>
  Times are compared by the sign of a 32 bit difference, which orders any set of times that lies
  within a window of half the range. The lemmas fix the start \<open>base\<close> of such a window (any
  time not later than the oldest queued one) and measure times by their distance from it.
\<close>

definition tdist :: "lk_time \<Rightarrow> lk_time \<Rightarrow> nat" where
  "tdist base x = unat (x - base)"

lemma sint_diff_small:
  fixes u v :: lk_time
  assumes "unat u < 2 ^ 31" "unat v < 2 ^ 31"
  shows "sint (u - v) = int (unat u) - int (unat v)"
proof -
  have s: "sint w = int (unat w)" if "unat w < 2 ^ 31" for w :: lk_time
  proof -
    have "int (unat w) < int (2 ^ 31)" using that by (subst of_nat_less_iff)
    moreover have "- (2 ^ 31) \<le> uint w" by (rule order_trans [of _ 0]) simp_all
    ultimately show ?thesis
      by (simp add: sint_uint signed_take_bit_int_eq_self)
  qed
  have lt: "int (unat w) < 2 ^ 31" if "unat w < 2 ^ 31" for w :: lk_time
    using that by (metis of_nat_less_iff of_nat_numeral of_nat_power)
  have "- (2 ^ 31) \<le> int (unat u) - int (unat v)"
    using lt [OF assms(2)] of_nat_0_le_iff [of "unat u", where 'a = int] by linarith
  moreover have "int (unat u) - int (unat v) < 2 ^ 31"
    using lt [OF assms(1)] of_nat_0_le_iff [of "unat v", where 'a = int] by linarith
  ultimately show ?thesis
    using s[OF assms(1)] s[OF assms(2)]
    by (simp add: sint_word_ariths signed_take_bit_int_eq_self)
qed

lemma TIME_GT_iff:
  assumes "tdist base x < 2 ^ 31" "tdist base y < 2 ^ 31"
  shows "TIME_GT x y \<longleftrightarrow> tdist base y < tdist base x"
proof -
  have "x - y = (x - base) - (y - base)" by simp
  with sint_diff_small[of "x - base" "y - base"] assms show ?thesis
    unfolding TIME_GT_def tdist_def by (simp only:) linarith
qed
lemma tdist_add:
  assumes "tdist base x + unat d < 2 ^ 32"
  shows "tdist base (x + d) = tdist base x + unat d"
proof -
  have eq: "x + d - base = (x - base) + d" by simp
  have "tdist base (x + d) = (tdist base x + unat d) mod 2 ^ 32"
    unfolding tdist_def eq by (simp add: unat_word_ariths)
  with assms show ?thesis by simp
qed
lemma TIME_LT_iff:
  assumes "tdist base x < 2 ^ 31" "tdist base y < 2 ^ 31"
  shows "TIME_LT x y \<longleftrightarrow> tdist base x < tdist base y"
proof -
  have "x - y = (x - base) - (y - base)" by simp
  with sint_diff_small[of "x - base" "y - base"] assms show ?thesis
    unfolding TIME_LT_def tdist_def by (simp only:) linarith
qed

definition timer_le :: "lk_time \<Rightarrow> (timer_id \<Rightarrow> lk_time) \<Rightarrow> timer_id \<Rightarrow> timer_id \<Rightarrow> bool" where
  "timer_le base sched a b \<longleftrightarrow> tdist base (sched a) \<le> tdist base (sched b)"

lemma set_insert_timer [simp]: "set (insert_timer sched t q) = insert t (set q)"
  by (induction q) auto

lemma distinct_insert_timer [simp]: "distinct (insert_timer sched t q) \<longleftrightarrow> t \<notin> set q \<and> distinct q"
  by (induction q) auto

lemma insert_timer_neq_Nil [simp]: "insert_timer sched t q \<noteq> []"
  by (cases q) auto

lemma sorted_insert_timer:
  assumes "\<forall>x\<in>insert t (set q). tdist base (sched x) < 2 ^ 31"
    and "sorted_wrt (timer_le base sched) q"
  shows "sorted_wrt (timer_le base sched) (insert_timer sched t q)"
  using assms
proof (induction q)
  case (Cons e es)
  have gt: "TIME_GT (sched e) (sched t) \<longleftrightarrow> tdist base (sched t) < tdist base (sched e)"
    using Cons.prems(1) by (intro TIME_GT_iff) auto
  show ?case
    using Cons by (auto simp: gt timer_le_def)
qed simp

lemma insert_timer_cong:
  assumes "\<And>x. x \<in> insert t (set q) \<Longrightarrow> sched x = sched' x"
  shows "insert_timer sched t q = insert_timer sched' t q"
  using assms by (induction q) auto

lemma insert_timer_head:
  assumes "hd (insert_timer sched t q) \<noteq> t"
  shows "q \<noteq> [] \<and> hd (insert_timer sched t q) = hd q"
  using assms by (cases q) (auto split: if_splits)

definition all_queued :: "('c, 'm) timer_state_scheme \<Rightarrow> timer_id set" where
  "all_queued s = (\<Union>c. set (timer_queue s c))"

definition timer_tab_ok :: "'c timer \<Rightarrow> bool" where
  "timer_tab_ok t \<longleftrightarrow> unat (periodic_time t) < 2 ^ 30 \<and> (periodic_time t > 0 \<longrightarrow> callback t \<noteq> None)"

definition timer_inv :: "lk_time \<Rightarrow> cpu_num list \<Rightarrow> ('c, 'm) timer_state_scheme \<Rightarrow> bool" where
  "timer_inv base cpus s \<longleftrightarrow>
     (\<forall>c. distinct (timer_queue s c)) \<and>
     (\<forall>c. sorted_wrt (timer_le base (sched_of s)) (timer_queue s c)) \<and>
     (\<forall>t\<in>all_queued s. tdist base (sched_of s t) < 2 ^ 31 \<and> callback (timer_tab s t) \<noteq> None) \<and>
     (\<forall>c. c \<notin> set cpus \<longrightarrow> timer_queue s c = []) \<and>
     (\<forall>c d. c \<noteq> d \<longrightarrow> set (timer_queue s c) \<inter> set (timer_queue s d) = {}) \<and>
     (\<forall>t. timer_tab_ok (timer_tab s t))"

definition timer_armed :: "lk_time \<Rightarrow> lk_time \<Rightarrow> cpu_num \<Rightarrow> ('c, 'm) timer_state_scheme \<Rightarrow> bool" where
  "timer_armed base now c s \<longleftrightarrow>
     (case timer_queue s c of [] \<Rightarrow> True
      | h # _ \<Rightarrow> (\<exists>e. hw_timer s c = Some e \<and>
                    tdist base e \<le> max (tdist base (sched_of s h)) (tdist base now)))"

definition due_timers :: "lk_time \<Rightarrow> cpu_num \<Rightarrow> ('c, 'm) timer_state_scheme \<Rightarrow> timer_id set" where
  "due_timers now c s = {t \<in> set (timer_queue s c). \<not> TIME_LT now (sched_of s t)}"

lemma timer_in_list_iff:
  "timer_inv base cpus s \<Longrightarrow> timer_in_list cpus t s \<longleftrightarrow> t \<in> all_queued s"
  unfolding timer_inv_def timer_in_list_def all_queued_def
  by (metis (no_types, lifting) UN_iff UNIV_I empty_iff list.set(1))

lemma timer_queue_update_frame [simp]:
  "sched_of (insert_timer_in_queue cpu t s) = sched_of s"
  "timer_tab (insert_timer_in_queue cpu t s) = timer_tab s"
  "hw_timer (insert_timer_in_queue cpu t s) = hw_timer s"
  "sched_of (s\<lparr>timer_queue := q\<rparr>) = sched_of s"
  "sched_of (s\<lparr>hw_timer := h\<rparr>) = sched_of s"
  by (simp_all add: fun_eq_iff sched_of_def insert_timer_in_queue_def)

lemma insert_timer_in_queue_queue [simp]:
  "timer_queue (insert_timer_in_queue cpu t s) =
     (timer_queue s)(cpu := insert_timer (sched_of s) t (timer_queue s cpu))"
  by (simp add: insert_timer_in_queue_def)

lemma platform_timer_frame [simp]:
  "timer_queue (platform_set_oneshot_timer cpu now d s) = timer_queue s"
  "timer_tab (platform_set_oneshot_timer cpu now d s) = timer_tab s"
  "sched_of (platform_set_oneshot_timer cpu now d s) = sched_of s"
  "hw_timer (platform_set_oneshot_timer cpu now d s) = (hw_timer s)(cpu := Some (now + d))"
  "timer_queue (platform_stop_timer cpu s) = timer_queue s"
  "timer_tab (platform_stop_timer cpu s) = timer_tab s"
  "sched_of (platform_stop_timer cpu s) = sched_of s"
  "hw_timer (platform_stop_timer cpu s) = (hw_timer s)(cpu := None)"
  by (simp_all add: fun_eq_iff sched_of_def platform_set_oneshot_timer_def platform_stop_timer_def)

lemma timer_inv_cong:
  assumes "timer_queue s' = timer_queue s" "timer_tab s' = timer_tab s"
  shows "timer_inv base cpus s' = timer_inv base cpus s"
proof -
  have "sched_of s' = sched_of s" using assms by (simp add: sched_of_def fun_eq_iff)
  then show ?thesis using assms by (simp add: timer_inv_def all_queued_def)
qed

lemma timer_inv_platform [simp]:
  "timer_inv base cpus (platform_set_oneshot_timer cpu now d s) = timer_inv base cpus s"
  "timer_inv base cpus (platform_stop_timer cpu s) = timer_inv base cpus s"
  by (rule timer_inv_cong; simp)+

lemma insert_timer_in_queue_inv:
  assumes inv: "timer_inv base cpus s" and c: "cpu \<in> set cpus" and nin: "t \<notin> all_queued s"
    and win: "tdist base (sched_of s t) < 2 ^ 31" and cb: "callback (timer_tab s t) \<noteq> None"
  shows "timer_inv base cpus (insert_timer_in_queue cpu t s)"
proof -
  have srt: "sorted_wrt (timer_le base (sched_of s)) (insert_timer (sched_of s) t (timer_queue s cpu))"
    using inv win by (intro sorted_insert_timer) (auto simp: timer_inv_def all_queued_def)
  have aq: "all_queued (insert_timer_in_queue cpu t s) = insert t (all_queued s)"
    by (auto simp: all_queued_def split: if_splits)
  have "\<And>c. t \<notin> set (timer_queue s c)" using nin by (auto simp: all_queued_def)
  then show ?thesis
    using inv c win cb srt unfolding timer_inv_def aq by auto
qed

text \<open>Unlinking a timer and rewriting the table entry of an unlinked timer keep the invariant.\<close>

definition unlink_timer :: "timer_id \<Rightarrow> ('c, 'm) timer_state_scheme \<Rightarrow> ('c, 'm) timer_state_scheme" where
  "unlink_timer t s = s\<lparr>timer_queue := (\<lambda>c. remove1 t (timer_queue s c))\<rparr>"

lemma unlink_timer_frame [simp]:
  "timer_tab (unlink_timer t s) = timer_tab s" "hw_timer (unlink_timer t s) = hw_timer s"
  "sched_of (unlink_timer t s) = sched_of s"
  "timer_queue (unlink_timer t s) = (\<lambda>c. remove1 t (timer_queue s c))"
  by (simp_all add: unlink_timer_def)

lemma sorted_wrt_remove1: "sorted_wrt R xs \<Longrightarrow> sorted_wrt R (remove1 x xs)"
  by (induction xs) (auto dest: notin_set_remove1 set_remove1_subset [THEN subsetD])

lemma unlink_timer_inv:
  assumes "timer_inv base cpus s"
  shows "timer_inv base cpus (unlink_timer t s)" "all_queued (unlink_timer t s) = all_queued s - {t}"
proof -
  have d: "distinct (timer_queue s c)" for c using assms by (simp add: timer_inv_def)
  show aq: "all_queued (unlink_timer t s) = all_queued s - {t}"
    using d by (auto simp: all_queued_def set_remove1_eq)
  show "timer_inv base cpus (unlink_timer t s)"
    using assms d unfolding timer_inv_def aq
    by (simp add: sorted_wrt_remove1 set_remove1_eq) blast
qed

lemma timer_tab_update_inv:
  assumes inv: "timer_inv base cpus s" and nin: "t \<notin> all_queued s" and "timer_tab_ok e"
  shows "timer_inv base cpus (s\<lparr>timer_tab := (timer_tab s)(t := e)\<rparr>)"
    (is "timer_inv base cpus ?s")
proof -
  have eq: "sched_of ?s x = sched_of s x" if "x \<in> set (timer_queue s c)" for x c
    using nin that by (auto simp: sched_of_def all_queued_def)
  have "sorted_wrt (timer_le base (sched_of ?s)) (timer_queue s c)" for c
    using inv sorted_wrt_mono_rel [of "timer_queue s c" "timer_le base (sched_of s)"
        "timer_le base (sched_of ?s)"] eq
    by (auto simp: timer_inv_def timer_le_def)
  with inv nin assms(3) eq show ?thesis
    unfolding timer_inv_def by (fastforce simp: all_queued_def)
qed

lemma timer_set_inv:
  assumes inv: "timer_inv base cpus s" and c: "cpu \<in> set cpus"
    and win: "tdist base now + unat delay + 1 < 2 ^ 31" "unat period < 2 ^ 30"
    and res: "timer_set cpus cpu now t delay period cb s = Some s'"
  shows "timer_inv base cpus s'" "all_queued s' = insert t (all_queued s)"
    "t \<notin> all_queued s" "tdist base (sched_of s' t) = tdist base now + unat delay + 1"
proof -
  let ?e = "\<lparr>scheduled_time = now + (delay + 1), periodic_time = period, callback = Some cb\<rparr>"
  let ?s1 = "s\<lparr>timer_tab := (timer_tab s)(t := ?e)\<rparr>"
  let ?s2 = "insert_timer_in_queue cpu t ?s1"
  show nin: "t \<notin> all_queued s"
    using res timer_in_list_iff [OF inv] by (auto simp: timer_set_def split: if_splits)
  have s': "s' = ?s2 \<or> s' = platform_set_oneshot_timer cpu now (delay + 1) ?s2"
    using res by (auto simp: timer_set_def Let_def split: if_splits)
  have "unat (delay + 1) = unat delay + 1"
    using win(1) by (simp add: unat_word_ariths)
  then have d: "tdist base (now + (delay + 1)) = tdist base now + unat delay + 1"
    using win(1) by (subst tdist_add) simp_all
  have "timer_inv base cpus ?s1"
    using inv nin win(2) by (intro timer_tab_update_inv) (auto simp: timer_tab_ok_def)
  then have i2: "timer_inv base cpus ?s2"
    using c nin d win(1) by (intro insert_timer_in_queue_inv) (auto simp: all_queued_def sched_of_def)
  then show "timer_inv base cpus s'" using s' by auto
  show "all_queued s' = insert t (all_queued s)"
    using s' by (auto simp: all_queued_def split: if_splits)
  show "tdist base (sched_of s' t) = tdist base now + unat delay + 1"
    using s' d by (auto simp: sched_of_def)
qed

lemma timer_cancel_inv:
  assumes inv: "timer_inv base cpus s"
  shows "timer_inv base cpus (timer_cancel cpu now t s)"
    "all_queued (timer_cancel cpu now t s) = all_queued s - {t}"
proof -
  let ?s1 = "unlink_timer t s"
  let ?s2 = "?s1\<lparr>timer_tab := (timer_tab ?s1)(t := (timer_tab ?s1 t)\<lparr>periodic_time := 0, callback := None\<rparr>)\<rparr>"
  note u = unlink_timer_inv [OF inv, of t]
  have i2: "timer_inv base cpus ?s2"
    using u by (intro timer_tab_update_inv) (auto simp: timer_tab_ok_def)
  have q: "timer_queue (timer_cancel cpu now t s) = timer_queue ?s2"
    and tb: "timer_tab (timer_cancel cpu now t s) = timer_tab ?s2"
    by (auto simp: timer_cancel_def Let_def unlink_timer_def split: option.split)
  show "timer_inv base cpus (timer_cancel cpu now t s)"
    using timer_inv_cong [OF q tb] i2 by simp
  show "all_queued (timer_cancel cpu now t s) = all_queued s - {t}"
    using q u(2) by (simp add: all_queued_def)
qed

lemma timer_armed_iff:
  "timer_armed base now c s \<longleftrightarrow>
     (timer_queue s c \<noteq> [] \<longrightarrow> (\<exists>e. hw_timer s c = Some e \<and>
        tdist base e \<le> max (tdist base (sched_of s (hd (timer_queue s c)))) (tdist base now)))"
  by (cases "timer_queue s c") (auto simp: timer_armed_def)

lemma peek_head_eq_Some [simp]: "peek_head q = Some t \<longleftrightarrow> q \<noteq> [] \<and> hd q = t"
  by (cases q) (auto simp: peek_head_def)

lemma peek_head_eq_None [simp]: "peek_head q = None \<longleftrightarrow> q = []"
  by (cases q) (auto simp: peek_head_def)

lemma peek_head_alt: "peek_head q = (if q = [] then None else Some (hd q))"
  by (cases q) (auto simp: peek_head_def)

lemma timer_set_armed:
  assumes inv: "timer_inv base cpus s" and armed: "\<And>c. timer_armed base now c s"
    and res: "timer_set cpus cpu now t delay period cb s = Some s'"
  shows "timer_armed base now c s'"
proof -
  let ?e = "\<lparr>scheduled_time = now + (delay + 1), periodic_time = period, callback = Some cb\<rparr>"
  let ?s1 = "s\<lparr>timer_tab := (timer_tab s)(t := ?e)\<rparr>"
  let ?s2 = "insert_timer_in_queue cpu t ?s1"
  have nin: "t \<notin> set (timer_queue s d)" for d
    using res timer_in_list_iff [OF inv] by (auto simp: timer_set_def all_queued_def split: if_splits)
  have s': "s' = (if hd (timer_queue ?s2 cpu) = t then platform_set_oneshot_timer cpu now (delay + 1) ?s2 else ?s2)"
    using res by (auto simp: timer_set_def Let_def split: if_splits)
  have sch: "sched_of ?s1 (hd (timer_queue s d)) = sched_of s (hd (timer_queue s d))"
    if "timer_queue s d \<noteq> []" for d
    using that nin [of d] hd_in_set [OF that] by (auto simp: sched_of_def)
  show ?thesis
  proof (cases "c = cpu \<and> hd (timer_queue ?s2 cpu) = t")
    case True
    then show ?thesis by (simp add: s' timer_armed_iff sched_of_def)
  next
    case False
    then have "timer_queue s' c \<noteq> [] \<Longrightarrow> timer_queue s c \<noteq> [] \<and> hd (timer_queue s' c) = hd (timer_queue s c)"
      using insert_timer_head [of "sched_of ?s1" t "timer_queue s cpu"]
      by (auto simp: s' split: if_splits)
    moreover have "hw_timer s' c = hw_timer s c" "sched_of s' = sched_of ?s1"
      using False by (auto simp: s')
    ultimately show ?thesis
      using armed [of c] sch [of c] by (auto simp: timer_armed_iff)
  qed
qed

lemma hd_remove1: "remove1 x xs \<noteq> [] \<Longrightarrow> hd (remove1 x xs) = (if hd xs = x then hd (tl xs) else hd xs)"
  by (cases xs) auto

lemma timer_cancel_armed:
  assumes inv: "timer_inv base cpus s" and armed: "\<And>c. timer_armed base now c s"
  shows "timer_armed base now c (timer_cancel cpu now t s)"
proof (cases "timer_queue (timer_cancel cpu now t s) c = []")
  case False
  let ?s = "timer_cancel cpu now t s"
  let ?q = "timer_queue s c"
  have q: "timer_queue ?s = (\<lambda>c. remove1 t (timer_queue s c))"
    and sch: "sched_of ?s = sched_of s"
    by (auto simp: timer_cancel_def Let_def sched_of_def fun_eq_iff split: option.split)
  have ne: "remove1 t ?q \<noteq> []" "?q \<noteq> []" using False by (auto simp: q)
  have hin: "hd (remove1 t ?q) \<in> set ?q" using ne hd_in_set set_remove1_subset by fastforce
  have le: "tdist base (sched_of s (hd ?q)) \<le> tdist base (sched_of s (hd (remove1 t ?q)))"
    using inv ne hin by (cases ?q) (auto simp: timer_inv_def timer_le_def dest!: spec [of _ c])
  show ?thesis
  proof (cases "c = cpu \<and> hd (remove1 t ?q) \<noteq> hd ?q")
    case True
    let ?h = "sched_of s (hd (remove1 t ?q))"
    have "hw_timer ?s c = Some (now + rearm_delay now ?h)"
      using True ne by (auto simp: timer_cancel_def Let_def sched_of_def peek_head_alt)
    then show ?thesis
      by (auto simp: timer_armed_iff q sch rearm_delay_def)
  next
    case other: False
    then have "hw_timer ?s c = hw_timer s c"
      using ne by (auto simp: timer_cancel_def Let_def peek_head_alt)
    then show ?thesis
      using armed [of c] ne le by (auto simp: timer_armed_iff q sch)
  qed
qed (simp add: timer_armed_iff)

text \<open>
  What \<^verbatim>\<open>timer_tick\<close> relies on. \<open>ok\<close> is the invariant of the rest of the kernel's state and
  \<open>cb_ok\<close> says that a callback's argument is alive; neither reads the timer fields. A callback, run on
  a state in which its timer is unlinked, returns, keeps the invariants and queues no timer on
  the ticking cpu that is already due.
\<close>

definition callbacks_ok ::
  "('c \<Rightarrow> ('c, 'm) timer_state_scheme \<Rightarrow> bool) \<Rightarrow> ('c, 'm) timer_state_scheme \<Rightarrow> bool" where
  "callbacks_ok cb_ok s \<longleftrightarrow> (\<forall>t\<in>all_queued s. \<forall>c. callback (timer_tab s t) = Some c \<longrightarrow> cb_ok c s)"

definition tick_env :: "lk_time \<Rightarrow> cpu_num list \<Rightarrow> cpu_num \<Rightarrow> lk_time \<Rightarrow> bool" where
  "tick_env base cpus cpu now \<longleftrightarrow> tdist base now < 2 ^ 30 \<and> cpu \<in> set cpus"

locale timer_callbacks =
  fixes fire :: "'e \<Rightarrow> timer_id \<Rightarrow> lk_time \<Rightarrow> 'c option \<Rightarrow> ('c, 'm) timer_state_scheme \<Rightarrow>
      (handler_return \<times> ('c, 'm) timer_state_scheme) option"
    and ok :: "'p \<Rightarrow> ('c, 'm) timer_state_scheme \<Rightarrow> bool"
    and cb_ok :: "'c \<Rightarrow> ('c, 'm) timer_state_scheme \<Rightarrow> bool"
  assumes ok_frame: "ok p (s\<lparr>timer_queue := q, timer_tab := tt, hw_timer := h\<rparr>) = ok p s"
    and cb_ok_frame: "cb_ok c (s\<lparr>timer_queue := q, timer_tab := tt, hw_timer := h\<rparr>) = cb_ok c s"
    and fire_law: "tick_env base cpus cpu now \<Longrightarrow> timer_inv base cpus s \<Longrightarrow> ok p s \<Longrightarrow> callbacks_ok cb_ok s \<Longrightarrow>
      t \<notin> all_queued s \<Longrightarrow> callback (timer_tab s t) = Some c \<Longrightarrow> cb_ok c s \<Longrightarrow>
      \<exists>r s'. fire e t now (Some c) s = Some (r, s') \<and> timer_inv base cpus s' \<and> ok p s' \<and> callbacks_ok cb_ok s'
        \<and> (\<forall>c'. callback (timer_tab s' t) = Some c' \<longrightarrow> cb_ok c' s')
        \<and> due_timers now cpu s' \<subseteq> due_timers now cpu s"
begin

lemma ok_timer_fields [simp]: "ok p (s\<lparr>timer_queue := q\<rparr>) = ok p s" "ok p (s\<lparr>timer_tab := tt\<rparr>) = ok p s"
  "ok p (s\<lparr>hw_timer := h\<rparr>) = ok p s"
  using ok_frame [of p "hw_timer s" "timer_tab s" q s] ok_frame [of p "hw_timer s" tt "timer_queue s" s]
    ok_frame [of p h "timer_tab s" "timer_queue s" s] by simp_all

lemma cb_ok_timer_fields [simp]: "cb_ok c (s\<lparr>timer_queue := q\<rparr>) = cb_ok c s"
  "cb_ok c (s\<lparr>timer_tab := tt\<rparr>) = cb_ok c s" "cb_ok c (s\<lparr>hw_timer := h\<rparr>) = cb_ok c s"
  using cb_ok_frame [of c "hw_timer s" "timer_tab s" q s] cb_ok_frame [of c "hw_timer s" tt "timer_queue s" s]
    cb_ok_frame [of c h "timer_tab s" "timer_queue s" s] by simp_all

lemma requeue_periodic:
  assumes te: "tick_env base cpus cpu now" and fi: "timer_inv base cpus f" and p: "t \<notin> all_queued f" "periodic_time (timer_tab f t) > 0"
    and co: "callbacks_ok cb_ok f" "\<And>c. callback (timer_tab f t) = Some c \<Longrightarrow> cb_ok c f"
    and g: "g = f\<lparr>timer_tab := (timer_tab f)(t :=
          (timer_tab f t)\<lparr>scheduled_time := now + periodic_time (timer_tab f t)\<rparr>)\<rparr>"
  shows "timer_inv base cpus (insert_timer_in_queue cpu t g)"
    "due_timers now cpu (insert_timer_in_queue cpu t g) \<subseteq> due_timers now cpu f"
    "callbacks_ok cb_ok (insert_timer_in_queue cpu t g)"
proof -
  have tok: "timer_tab_ok (timer_tab f t)" using fi by (simp add: timer_inv_def)
  then have w: "tdist base (now + periodic_time (timer_tab f t)) =
      tdist base now + unat (periodic_time (timer_tab f t))"
    "tdist base now + unat (periodic_time (timer_tab f t)) < 2 ^ 31"
    using te by (auto simp: timer_tab_ok_def tdist_add tick_env_def)
  have gi: "timer_inv base cpus g"
    using fi p tok unfolding g by (intro timer_tab_update_inv) (auto simp: timer_tab_ok_def)
  show "timer_inv base cpus (insert_timer_in_queue cpu t g)"
    using gi p tok w te
    by (intro insert_timer_in_queue_inv) (auto simp: tick_env_def timer_tab_ok_def all_queued_def sched_of_def g)
  have lt: "TIME_LT now (sched_of g t)"
    using te w p(2) by (subst TIME_LT_iff [where base = base]) (auto simp: tick_env_def sched_of_def word_less_nat_alt g)
  have "sched_of g x = sched_of f x" if "x \<noteq> t" for x
    using that by (simp add: sched_of_def g)
  with lt show "due_timers now cpu (insert_timer_in_queue cpu t g) \<subseteq> due_timers now cpu f"
    by (auto simp: due_timers_def g) metis+
  show "callbacks_ok cb_ok (insert_timer_in_queue cpu t g)"
    using co by (auto simp: callbacks_ok_def all_queued_def insert_timer_in_queue_def g split: if_splits)
qed

lemma tick_one_inv:
  assumes te: "tick_env base cpus cpu now"
    and inv: "timer_inv base cpus s" "ok p s" "callbacks_ok cb_ok s" and t: "t \<in> due_timers now cpu s"
  shows "\<exists>r s'. tick_one (fire e) cpus cpu now t ret s = Some (r, s') \<and> timer_inv base cpus s' \<and> ok p s'
    \<and> callbacks_ok cb_ok s' \<and> due_timers now cpu s' \<subseteq> due_timers now cpu s - {t}"
proof -
  let ?u = "unlink_timer t s"
  note u = unlink_timer_inv [OF inv(1), of t]
  have tq: "t \<in> all_queued s" using t by (auto simp: due_timers_def all_queued_def)
  then obtain c where cb: "callback (timer_tab ?u t) = Some c" and cs: "cb_ok c s"
    using inv by (auto simp: timer_inv_def callbacks_ok_def)
  have nin: "t \<notin> all_queued ?u" using u(2) by simp
  have co: "callbacks_ok cb_ok ?u"
    using inv u(2) by (auto simp: callbacks_ok_def unlink_timer_def)
  have "ok p ?u" "cb_ok c ?u" using inv(2) cs by (simp_all add: unlink_timer_def)
  from fire_law [OF te u(1) this(1) co nin cb this(2)] obtain r f where
    f: "fire e t now (Some c) ?u = Some (r, f)" and fi: "timer_inv base cpus f" and fo: "ok p f" "callbacks_ok cb_ok f"
      "\<And>c'. callback (timer_tab f t) = Some c' \<Longrightarrow> cb_ok c' f" and fd: "due_timers now cpu f \<subseteq> due_timers now cpu ?u"
    by blast
  have du: "due_timers now cpu ?u \<subseteq> due_timers now cpu s - {t}"
    using inv by (auto simp: due_timers_def timer_inv_def set_remove1_eq)
  let ?g = "f\<lparr>timer_tab := (timer_tab f)(t :=
          (timer_tab f t)\<lparr>scheduled_time := now + periodic_time (timer_tab f t)\<rparr>)\<rparr>"
  have og: "ok p (insert_timer_in_queue cpu t ?g)" using fo(1) by (simp add: insert_timer_in_queue_def)
  have f': "fire e t now (callback (timer_tab s t)) (s\<lparr>timer_queue := (\<lambda>c. remove1 t (timer_queue s c))\<rparr>) = Some (r, f)"
    using f cb by (simp add: unlink_timer_def)
  show ?thesis
  proof (cases "periodic_time (timer_tab s t) > 0 \<and> t \<notin> all_queued f \<and> periodic_time (timer_tab f t) > 0")
    case True
    then have "t \<notin> all_queued f" "periodic_time (timer_tab f t) > 0" by auto
    note rq = requeue_periodic [OF te fi this fo(2,3) refl]
    show ?thesis
      using f' True rq og fd du timer_in_list_iff [OF fi, of t] by (auto simp: tick_one_def Let_def)
  next
    case False
    with f' fi fo fd du timer_in_list_iff [OF fi, of t] show ?thesis by (auto simp: tick_one_def Let_def)
  qed
qed

lemma tick_loop_returns:
  assumes te: "tick_env base cpus cpu now" and inv: "timer_inv base cpus s" "ok p s" "callbacks_ok cb_ok s"
  shows "\<exists>ret' s'. tick_loop (fire e) cpus cpu now ret s = Some (ret', s')
    \<and> timer_inv base cpus s' \<and> ok p s' \<and> callbacks_ok cb_ok s' \<and> due_timers now cpu s' = {}"
  using inv
proof (induction "card (due_timers now cpu s)" arbitrary: s ret rule: less_induct)
  case less
  show ?case
  proof (cases "timer_queue s cpu")
    case Nil
    with less.prems show ?thesis by (subst tick_loop.simps) (simp add: due_timers_def)
  next
    case (Cons t ts)
    have win: "\<forall>x\<in>set (timer_queue s cpu). tdist base (sched_of s x) < 2 ^ 31"
      using less.prems(1) by (auto simp: timer_inv_def all_queued_def)
    have now: "tdist base now < 2 ^ 31" using te by (simp add: tick_env_def)
    show ?thesis
    proof (cases "TIME_LT now (sched_of s t)")
      case True
      have "TIME_LT now (sched_of s x)" if "x \<in> set (timer_queue s cpu)" for x
      proof -
        have "tdist base (sched_of s t) \<le> tdist base (sched_of s x)"
          using less.prems(1) that Cons
          by (auto simp: timer_inv_def timer_le_def dest!: spec [of _ cpu])
        with True win that Cons now show ?thesis
          by (auto simp: TIME_LT_iff [where base = base])
      qed
      then have "due_timers now cpu s = {}" by (auto simp: due_timers_def)
      with True Cons less.prems show ?thesis by (subst tick_loop.simps) simp
    next
      case False
      then have t: "t \<in> due_timers now cpu s" by (simp add: due_timers_def Cons)
      obtain r' s1 where one: "tick_one (fire e) cpus cpu now t ret s = Some (r', s1)"
        and step: "timer_inv base cpus s1" "ok p s1" "callbacks_ok cb_ok s1"
          "due_timers now cpu s1 \<subseteq> due_timers now cpu s - {t}"
        using tick_one_inv [OF te less.prems t, of e ret] by blast
      have "due_timers now cpu s1 \<subset> due_timers now cpu s" using step t by auto
      then have "card (due_timers now cpu s1) < card (due_timers now cpu s)"
        by (rule psubset_card_mono [rotated]) (simp add: due_timers_def)
      from less.hyps [OF this step(1-3), of r'] Cons False one show ?thesis
        by (subst tick_loop.simps) simp
    qed
  qed
qed

text \<open>
  The tick returns; nothing that is due is left on the cpu, and the hardware timer is armed for
  the next event.
\<close>

lemma timer_tick_returns:
  assumes te: "tick_env base cpus cpu now" and inv: "timer_inv base cpus s" "ok p s" "callbacks_ok cb_ok s"
  shows "\<exists>ret s'. timer_tick (fire e) cpus cpu now s = Some (ret, s')
    \<and> timer_inv base cpus s' \<and> ok p s' \<and> callbacks_ok cb_ok s'
    \<and> due_timers now cpu s' = {} \<and> timer_armed base now cpu s'"
proof -
  have "callbacks_ok cb_ok (oneshot_fired cpu s)" "timer_inv base cpus (oneshot_fired cpu s)" "ok p (oneshot_fired cpu s)"
    using inv timer_inv_cong [of "oneshot_fired cpu s" s]
    by (auto simp: oneshot_fired_def callbacks_ok_def all_queued_def)
  then obtain ret s' where l: "tick_loop (fire e) cpus cpu now INT_NO_RESCHEDULE (oneshot_fired cpu s) = Some (ret, s')"
    and i: "timer_inv base cpus s'" "ok p s'" "callbacks_ok cb_ok s'" "due_timers now cpu s' = {}"
    using tick_loop_returns [OF te, of "oneshot_fired cpu s" p e INT_NO_RESCHEDULE] by blast
  show ?thesis
  proof (cases "timer_queue s' cpu = []")
    case True
    with l i show ?thesis by (simp add: timer_tick_def timer_armed_iff peek_head_alt)
  next
    case False
    with l i show ?thesis
      by (auto simp: timer_tick_def peek_head_alt timer_armed_iff due_timers_def callbacks_ok_def all_queued_def
          platform_set_oneshot_timer_def timer_inv_cong [of "s'\<lparr>hw_timer := _\<rparr>" s'])
  qed
qed

end

text \<open>Callbacks that leave the timer fields alone, as those of the scheduler do, meet the contract.\<close>

locale timer_callbacks_frame =
  fixes fire :: "'e \<Rightarrow> timer_id \<Rightarrow> lk_time \<Rightarrow> 'c option \<Rightarrow> ('c, 'm) timer_state_scheme \<Rightarrow>
      (handler_return \<times> ('c, 'm) timer_state_scheme) option"
    and ok :: "'p \<Rightarrow> ('c, 'm) timer_state_scheme \<Rightarrow> bool"
    and cb_ok :: "'c \<Rightarrow> ('c, 'm) timer_state_scheme \<Rightarrow> bool"
  assumes frame_ok: "ok p (s\<lparr>timer_queue := q, timer_tab := tt, hw_timer := h\<rparr>) = ok p s"
    and frame_cb_ok: "cb_ok c (s\<lparr>timer_queue := q, timer_tab := tt, hw_timer := h\<rparr>) = cb_ok c s"
    and fire_frame: "ok p s \<Longrightarrow> cb_ok c s \<Longrightarrow>
      \<exists>r s'. fire e t now (Some c) s = Some (r, s') \<and> timer_queue s' = timer_queue s \<and> timer_tab s' = timer_tab s
        \<and> ok p s' \<and> (\<forall>c'. cb_ok c' s \<longrightarrow> cb_ok c' s')"

sublocale timer_callbacks_frame \<subseteq> timer_callbacks fire ok cb_ok
proof
  fix base cpus cpu now p s t c e
  assume s: "timer_inv base cpus s" "callbacks_ok cb_ok s" "callback (timer_tab s t) = Some c"
    and "ok p s" "cb_ok c s"
  from fire_frame [OF this(4,5)] obtain r s' where f: "fire e t now (Some c) s = Some (r, s')"
    and e: "timer_queue s' = timer_queue s" "timer_tab s' = timer_tab s" and o: "ok p s'" "\<forall>c'. cb_ok c' s \<longrightarrow> cb_ok c' s'"
    by blast
  show "\<exists>r s'. fire e t now (Some c) s = Some (r, s') \<and> timer_inv base cpus s' \<and> ok p s' \<and> callbacks_ok cb_ok s'
        \<and> (\<forall>c'. callback (timer_tab s' t) = Some c' \<longrightarrow> cb_ok c' s')
        \<and> due_timers now cpu s' \<subseteq> due_timers now cpu s"
    using f o s e timer_inv_cong [OF e] \<open>cb_ok c s\<close>
    by (auto simp: callbacks_ok_def all_queued_def due_timers_def sched_of_def)
qed (use frame_ok frame_cb_ok in auto)

definition timers_kept :: "('c, 'm) timer_state_scheme \<Rightarrow> ('c, 'm) timer_state_scheme \<Rightarrow> bool" where
  "timers_kept s s' \<longleftrightarrow> all_queued s' \<subseteq> all_queued s \<and>
     (\<forall>t\<in>all_queued s. periodic_time (timer_tab s t) > 0 \<longrightarrow> t \<in> all_queued s') \<and>
     (\<forall>t. periodic_time (timer_tab s' t) = periodic_time (timer_tab s t) \<and>
          callback (timer_tab s' t) = callback (timer_tab s t))"

lemma timers_kept_trans: "timers_kept s s' \<Longrightarrow> timers_kept s' s'' \<Longrightarrow> timers_kept s s''"
  unfolding timers_kept_def by (metis subset_iff)

context timer_callbacks_frame
begin

text \<open>A tick keeps every periodic timer queued and queues nothing else.\<close>

lemma tick_one_kept:
  assumes inv: "timer_inv base cpus s" "ok p s" "callbacks_ok cb_ok s" and t: "t \<in> all_queued s"
    and one: "tick_one (fire e) cpus cpu now t ret s = Some (r, s')"
  shows "timers_kept s s'"
proof -
  let ?u = "unlink_timer t s"
  note u = unlink_timer_inv [OF inv(1), of t]
  obtain c where cb: "callback (timer_tab s t) = Some c" "cb_ok c s"
    using inv t by (auto simp: timer_inv_def callbacks_ok_def)
  have "ok p ?u" "cb_ok c ?u" using inv(2) cb by (simp_all add: unlink_timer_def)
  from fire_frame [OF this, of e t now] obtain r' f where f: "fire e t now (Some c) ?u = Some (r', f)"
    and e: "timer_queue f = timer_queue ?u" "timer_tab f = timer_tab s" by auto
  have aq: "all_queued f = all_queued s - {t}" using e u(2) by (simp add: all_queued_def)
  have tl: "timer_in_list cpus t f = False"
    using timer_in_list_iff [of base cpus f t] timer_inv_cong [of f ?u base cpus] u(1) e aq by simp
  have "fire e t now (callback (timer_tab s t)) (s\<lparr>timer_queue := (\<lambda>c. remove1 t (timer_queue s c))\<rparr>) = Some (r', f)"
    using f cb by (simp add: unlink_timer_def)
  with one have s': "s' = (if periodic_time (timer_tab s t) > 0 then insert_timer_in_queue cpu t (f\<lparr>timer_tab := (timer_tab f)(t :=
          (timer_tab f t)\<lparr>scheduled_time := now + periodic_time (timer_tab f t)\<rparr>)\<rparr>) else f)"
    by (auto simp: tick_one_def Let_def e tl split: if_splits)
  have "all_queued (insert_timer_in_queue cpu t g) = insert t (all_queued g)" for g :: "('c, 'm) timer_state_scheme"
    by (auto simp: all_queued_def split: if_splits)
  moreover have "all_queued (f\<lparr>timer_tab := tt\<rparr>) = all_queued f" for tt by (simp add: all_queued_def)
  ultimately show ?thesis using t by (auto simp: timers_kept_def s' e aq)
qed

lemma tick_loop_kept:
  assumes te: "tick_env base cpus cpu now" and "timer_inv base cpus s" "ok p s" "callbacks_ok cb_ok s"
    and "tick_loop (fire e) cpus cpu now ret s = Some (ret', s')"
  shows "timers_kept s s'"
  using assms(2-)
proof (induction "card (due_timers now cpu s)" arbitrary: s ret rule: less_induct)
  case less
  show ?case
  proof (cases "timer_queue s cpu = [] \<or> TIME_LT now (sched_of s (hd (timer_queue s cpu)))")
    case True
    with less.prems(4) have "s' = s"
      by (subst (asm) tick_loop.simps) (auto split: list.splits if_splits)
    then show ?thesis by (simp add: timers_kept_def)
  next
    case False
    then obtain t ts where q: "timer_queue s cpu = t # ts" "\<not> TIME_LT now (sched_of s t)"
      by (cases "timer_queue s cpu") auto
    then have t: "t \<in> due_timers now cpu s" "t \<in> all_queued s" by (auto simp: due_timers_def all_queued_def intro: exI [of _ cpu])
    obtain r' s1 where one: "tick_one (fire e) cpus cpu now t ret s = Some (r', s1)"
      and step: "timer_inv base cpus s1" "ok p s1" "callbacks_ok cb_ok s1"
        "due_timers now cpu s1 \<subseteq> due_timers now cpu s - {t}"
      using tick_one_inv [OF te less.prems(1-3) t(1), of e ret] by blast
    have "due_timers now cpu s1 \<subset> due_timers now cpu s" using step t by auto
    then have c: "card (due_timers now cpu s1) < card (due_timers now cpu s)"
      by (rule psubset_card_mono [rotated]) (simp add: due_timers_def)
    have "tick_loop (fire e) cpus cpu now r' s1 = Some (ret', s')"
      using less.prems(4) q one by (subst (asm) tick_loop.simps) simp
    from less.hyps [OF c step(1-3) this] show ?thesis
      using tick_one_kept [OF less.prems(1-3) t(2) one] timers_kept_trans by blast
  qed
qed

lemma timer_tick_kept:
  assumes te: "tick_env base cpus cpu now" and inv: "timer_inv base cpus s" "ok p s" "callbacks_ok cb_ok s"
    and tick: "timer_tick (fire e) cpus cpu now s = Some (ret, s')"
  shows "timers_kept s s'"
proof -
  obtain s1 where l: "tick_loop (fire e) cpus cpu now INT_NO_RESCHEDULE (oneshot_fired cpu s) = Some (ret, s1)"
    and s': "timer_queue s' = timer_queue s1" "timer_tab s' = timer_tab s1"
    using tick by (auto simp: timer_tick_def split: option.splits)
  have "timer_inv base cpus (oneshot_fired cpu s)" "ok p (oneshot_fired cpu s)" "callbacks_ok cb_ok (oneshot_fired cpu s)"
    using inv timer_inv_cong [of "oneshot_fired cpu s" s]
    by (auto simp: oneshot_fired_def callbacks_ok_def all_queued_def)
  from tick_loop_kept [OF te this l] show ?thesis
    by (simp add: timers_kept_def s' all_queued_def oneshot_fired_def)
qed

end

section \<open>Correctness\<close>

lemma timer_set_returns:
  assumes "timer_inv base cpus s" "t \<notin> all_queued s"
  shows "\<exists>s'. timer_set cpus cpu now t delay period cb s = Some s'"
  using assms by (simp add: timer_set_def timer_in_list_iff Let_def)

text \<open>
  C9: setting a timer that is not queued returns (no panic), keeps every queue sorted by expiry and
  every hardware timer armed for its head, and queues the timer at its expiry \<open>now + delay + 1\<close>;
  the delay must fit the half range in which the wrap-around comparison orders times.
\<close>

theorem timer_set_correct:
  assumes "timer_inv base cpus s" "\<forall>c. timer_armed base now c s"
    and "cpu \<in> set cpus" "t \<notin> all_queued s"
    and "tdist base now + unat delay + 1 < 2 ^ 31" "unat period < 2 ^ 30"
  shows "\<exists>s'. timer_set cpus cpu now t delay period cb s = Some s'
    \<and> timer_inv base cpus s' \<and> (\<forall>c. timer_armed base now c s')
    \<and> all_queued s' = insert t (all_queued s)
    \<and> tdist base (sched_of s' t) = tdist base now + unat delay + 1"
proof -
  obtain s' where s': "timer_set cpus cpu now t delay period cb s = Some s'"
    using timer_set_returns [OF assms(1,4)] by blast
  show ?thesis
    using s' timer_set_inv [OF assms(1,3,5,6) s'] timer_set_armed [OF assms(1) _ s'] assms(2) by blast
qed

lemma timer_inv_empty:
  assumes "timer_queue s = (\<lambda>_. [])" "\<And>t. timer_tab s t = TIMER_INITIAL_VALUE"
  shows "timer_inv base cpus s" "timer_armed base now c s" "all_queued s = {}"
  using assms
  by (simp_all add: timer_inv_def all_queued_def timer_tab_ok_def TIMER_INITIAL_VALUE_def timer_armed_iff)

definition timer_state0 :: "nat timer_state" where
  "timer_state0 = \<lparr>timer_tab = (\<lambda>_. TIMER_INITIAL_VALUE), timer_queue = (\<lambda>_. []), hw_timer = (\<lambda>_. None)\<rparr>"

lemma timer_state0_inv [simp]:
  "timer_inv base cpus timer_state0" "timer_armed base now c timer_state0" "all_queued timer_state0 = {}"
  by (simp_all add: timer_state0_def timer_inv_empty)

theorem timer_set_correct_witness:
  "\<exists>s'. timer_set [0, 1] 0 4294967290 (Timer_At 7) 10 0 42 timer_state0 = Some s'
    \<and> all_queued s' = {Timer_At 7} \<and> tdist 4294967290 (sched_of s' (Timer_At 7)) = 11"
  using timer_set_correct [of 4294967290 "[0, 1]" timer_state0 4294967290 0 "Timer_At 7" 10 0 42]
  by (auto simp: tdist_def)

text \<open>
  C10: cancelling a timer, queued or not and on whatever cpu, unlinks it and nothing else, keeps the
  queues sorted and leaves every cpu's hardware timer armed for its head.
\<close>

theorem timer_cancel_correct:
  assumes "timer_inv base cpus s" "\<forall>c. timer_armed base now c s"
  shows "timer_inv base cpus (timer_cancel cpu now t s)
    \<and> (\<forall>c. timer_armed base now c (timer_cancel cpu now t s))
    \<and> all_queued (timer_cancel cpu now t s) = all_queued s - {t}"
  using timer_cancel_inv [OF assms(1)] timer_cancel_armed [OF assms(1)] assms(2) by blast

definition timer_state1 :: "nat timer_state" where
  "timer_state1 =
     \<lparr>timer_tab = (\<lambda>_. TIMER_INITIAL_VALUE)
        (Timer_At 7 := \<lparr>scheduled_time = 11, periodic_time = 0, callback = Some 42\<rparr>,
         Timer_At 8 := \<lparr>scheduled_time = 15, periodic_time = 4, callback = Some 43\<rparr>),
      timer_queue = (\<lambda>_. [])(0 := [Timer_At 7, Timer_At 8]), hw_timer = (\<lambda>_. None)(0 := Some 11)\<rparr>"

lemma timer_state1_inv: "timer_inv 0 [0, 1] timer_state1" "timer_armed 0 now c timer_state1"
  "all_queued timer_state1 = {Timer_At 7, Timer_At 8}"
  by (auto simp: timer_state1_def timer_inv_def all_queued_def timer_tab_ok_def TIMER_INITIAL_VALUE_def
      timer_armed_iff sched_of_def timer_le_def tdist_def split: if_splits)

theorem timer_cancel_correct_witness:
  "all_queued (timer_cancel 0 5 (Timer_At 7) timer_state1) = {Timer_At 8} \<and> hw_timer (timer_cancel 0 5 (Timer_At 7) timer_state1) 0 = Some 15"
proof
  show "all_queued (timer_cancel 0 5 (Timer_At 7) timer_state1) = {Timer_At 8}"
    using timer_cancel_correct [OF timer_state1_inv(1), of 5 0 "Timer_At 7"] by (simp add: timer_state1_inv)
  show "hw_timer (timer_cancel 0 5 (Timer_At 7) timer_state1) 0 = Some 15"
    by code_simp
qed

lemma move_timers_inv:
  assumes "timer_inv base cpus s" "cpu \<in> set cpus" "old_cpu \<noteq> cpu" "timer_queue s old_cpu = q"
  shows "timer_inv base cpus (move_timers old_cpu cpu q s)
    \<and> set (timer_queue (move_timers old_cpu cpu q s) cpu) = set (timer_queue s cpu) \<union> set q
    \<and> timer_queue (move_timers old_cpu cpu q s) old_cpu = []
    \<and> (\<forall>c. c \<noteq> cpu \<longrightarrow> c \<noteq> old_cpu \<longrightarrow> timer_queue (move_timers old_cpu cpu q s) c = timer_queue s c)"
  using assms
proof (induction q arbitrary: s)
  case (Cons e es)
  let ?r = "s\<lparr>timer_queue := (timer_queue s)(old_cpu := remove1 e (timer_queue s old_cpu))\<rparr>"
  have "remove1 e (timer_queue s c) = timer_queue s c" if "c \<noteq> old_cpu" for c
    using Cons.prems that by (intro remove1_idem) (auto simp: timer_inv_def dest: spec2)
  then have eq: "?r = unlink_timer e s"
    unfolding unlink_timer_def by (intro arg_cong2 [of _ _ _ _ timer_queue_update]) (auto simp: fun_eq_iff)
  have e: "e \<in> all_queued s" using Cons.prems(4) by (auto simp: all_queued_def intro: exI [of _ old_cpu])
  have "timer_inv base cpus (insert_timer_in_queue cpu e ?r)"
    unfolding eq using unlink_timer_inv [OF Cons.prems(1), of e] Cons.prems(1,2) e
    by (intro insert_timer_in_queue_inv) (auto simp: timer_inv_def)
  from Cons.IH [OF this] Cons.prems show ?case by auto
qed simp

text \<open>
  When a cpu goes offline, every timer it had is on the surviving cpu's queue, sorted into
  place, the offline cpu's queue is empty and no other queue changed.
\<close>

lemma timer_transition_off_cpu_moves:
  assumes "timer_inv base cpus s" "cpu \<in> set cpus" "old_cpu \<noteq> cpu"
  shows "timer_inv base cpus (timer_transition_off_cpu cpu now old_cpu s)
    \<and> set (timer_queue (timer_transition_off_cpu cpu now old_cpu s) cpu)
        = set (timer_queue s cpu) \<union> set (timer_queue s old_cpu)
    \<and> timer_queue (timer_transition_off_cpu cpu now old_cpu s) old_cpu = []
    \<and> (\<forall>c. c \<noteq> cpu \<longrightarrow> c \<noteq> old_cpu \<longrightarrow>
          timer_queue (timer_transition_off_cpu cpu now old_cpu s) c = timer_queue s c)"
  using move_timers_inv [OF assms refl]
  by (auto simp: timer_transition_off_cpu_def Let_def split: option.split)

lemma timer_transition_off_cpu_moves_witness:
  "set (timer_queue (timer_transition_off_cpu 1 5 0 timer_state1) 1) = {Timer_At 7, Timer_At 8}
    \<and> timer_queue (timer_transition_off_cpu 1 5 0 timer_state1) 0 = []"
  using timer_transition_off_cpu_moves [OF timer_state1_inv(1), of 1 0 5]
  by (simp del: One_nat_def) (simp add: timer_state1_def)

text \<open>
  The transition compares the surviving cpu's new head with the head of the offline cpu's
  queue, so when the moved head becomes the new head nothing is programmed: there is a reachable
  state whose hardware timers are all armed after which the surviving cpu has queued timers and a
  stopped hardware timer.
\<close>

lemma timer_transition_off_cpu_not_armed:
  "\<exists>s :: nat timer_state. timer_inv 0 [0, 1] s \<and> (\<forall>c. timer_armed 0 5 c s)
    \<and> timer_queue (timer_transition_off_cpu 1 5 0 s) 1 \<noteq> []
    \<and> hw_timer (timer_transition_off_cpu 1 5 0 s) 1 = None"
proof (intro exI [of _ timer_state1] conjI allI timer_state1_inv)
  show "timer_queue (timer_transition_off_cpu 1 5 0 timer_state1) 1 \<noteq> []" by code_simp
  show "hw_timer (timer_transition_off_cpu 1 5 0 timer_state1) 1 = None" by code_simp
qed


lemma half_range_not_before:
  fixes now d :: lk_time
  assumes "2 ^ 31 \<le> unat d"
  shows "\<not> TIME_LT now (now + (d + 1))"
proof -
  have eq: "now - (now + (d + 1)) = (- 1 - d) - 0" by simp
  have "unat (- 1 - d) = unat (- 1 :: lk_time) - unat d" by (intro unat_sub) simp
  also have "unat (- 1 :: lk_time) = 2 ^ 32 - 1" by (simp add: unsigned_minus_1_eq_mask mask_eq_exp_minus_1)
  finally have "unat (- 1 - d) < 2 ^ 31" using assms by simp
  then have "sint ((- 1 - d) - 0) = int (unat (- 1 - d)) - int (unat (0 :: lk_time))"
    by (intro sint_diff_small) simp_all
  then show ?thesis unfolding TIME_LT_def eq
    by (simp only: unat_0 of_nat_0 diff_0_right not_less of_nat_0_le_iff)
qed

text \<open>
  C11: a delay of half the clock's range or more (about 24.8 days) is not waited for: the timer that
  \<^verbatim>\<open>timer_set\<close> queues is already due, although the header of \<^verbatim>\<open>thread_sleep_etc\<close> promises to wait for
  at least the delay.
\<close>

theorem timer_set_half_range_due:
  assumes "timer_set cpus cpu now t delay period cb s = Some s'" "2 ^ 31 \<le> unat delay"
  shows "t \<in> due_timers now cpu s'"
proof -
  have "sched_of s' t = now + (delay + 1)" "t \<in> set (timer_queue s' cpu)"
    using assms(1) by (auto simp: timer_set_def Let_def sched_of_def split: if_splits)
  then show ?thesis using half_range_not_before [OF assms(2)] by (simp add: due_timers_def)
qed

theorem timer_set_half_range_due_witness:
  "\<exists>s'. timer_set [0] 0 100 (Timer_At 7) 2147483648 0 42 timer_state0 = Some s' \<and> Timer_At 7 \<in> due_timers 100 0 s'"
proof -
  obtain s' where "timer_set [0] 0 100 (Timer_At 7) 2147483648 0 42 timer_state0 = Some s'"
    using timer_set_returns [of 0 "[0]" timer_state0 "Timer_At 7" 0 100 2147483648 0 42] by auto
  with timer_set_half_range_due [OF this] show ?thesis by simp
qed

end
