(* ===== verification/Kernel_Thread.thy ===== *)
theory Kernel_Thread
  imports Kernel_Timer
begin

unbundle bit_operations_syntax

text \<open>
  Threads, the run queues and the wait queues: \<^verbatim>\<open>kernel/kernel/thread.c\<close> with the structures of
  \<^verbatim>\<open>kernel/include/kernel/thread.h\<close>, \<^verbatim>\<open>wait.h\<close> and the cpu masks of \<^verbatim>\<open>mp.h\<close>, in the SMP
  configuration with a dynamic timer. The state of the kernel extends the record of the timers, so
  that timer callbacks act on the whole of it.

  An operation that calls \<^verbatim>\<open>thread_resched\<close> in the middle is split there: \<open>f_enter\<close> is what runs
  up to the context switch and \<open>f_return\<close> what runs when the thread is next switched to.
  A failed \<^verbatim>\<open>DEBUG_ASSERT\<close> or a panic is \<open>None\<close>. Locking is implicit: each definition is one
  critical section of the thread lock.
\<close>

section \<open>Data\<close>

datatype thread_state =
  THREAD_SUSPENDED | THREAD_READY | THREAD_RUNNING | THREAD_BLOCKED | THREAD_SLEEPING | THREAD_DEATH

definition THREAD_FLAG_DETACHED :: u32 where "THREAD_FLAG_DETACHED = push_bit 0 1"
definition THREAD_FLAG_FREE_STACK :: u32 where "THREAD_FLAG_FREE_STACK = push_bit 1 1"
definition THREAD_FLAG_FREE_STRUCT :: u32 where "THREAD_FLAG_FREE_STRUCT = push_bit 2 1"
definition THREAD_FLAG_REAL_TIME :: u32 where "THREAD_FLAG_REAL_TIME = push_bit 3 1"
definition THREAD_FLAG_IDLE :: u32 where "THREAD_FLAG_IDLE = push_bit 4 1"
definition THREAD_FLAG_DEBUG_STACK_BOUNDS_CHECK :: u32 where
  "THREAD_FLAG_DEBUG_STACK_BOUNDS_CHECK = push_bit 5 1"
definition THREAD_SIGNAL_KILL :: u32 where "THREAD_SIGNAL_KILL = push_bit 0 1"

lemmas thread_flag_defs =
  THREAD_FLAG_DETACHED_def THREAD_FLAG_FREE_STACK_def THREAD_FLAG_FREE_STRUCT_def
  THREAD_FLAG_REAL_TIME_def THREAD_FLAG_IDLE_def THREAD_FLAG_DEBUG_STACK_BOUNDS_CHECK_def
  THREAD_SIGNAL_KILL_def

lemma thread_flag_bits [simp]:
  "bit THREAD_FLAG_DETACHED n \<longleftrightarrow> n = 0" "bit THREAD_FLAG_FREE_STACK n \<longleftrightarrow> n = 1"
  "bit THREAD_FLAG_FREE_STRUCT n \<longleftrightarrow> n = 2" "bit THREAD_FLAG_REAL_TIME n \<longleftrightarrow> n = 3"
  "bit THREAD_FLAG_IDLE n \<longleftrightarrow> n = 4" "bit THREAD_FLAG_DEBUG_STACK_BOUNDS_CHECK n \<longleftrightarrow> n = 5"
  "bit THREAD_SIGNAL_KILL n \<longleftrightarrow> n = 0"
  unfolding thread_flag_defs bit_push_bit_one_iff by auto

lemma thread_flag_nonzero [simp]: "THREAD_FLAG_IDLE \<noteq> 0" "THREAD_FLAG_REAL_TIME \<noteq> 0" "THREAD_FLAG_DETACHED \<noteq> 0"
  using thread_flag_bits(5) [of 4] thread_flag_bits(4) [of 3] thread_flag_bits(1) [of 0] by fastforce+

lemma thread_flag_tests [simp]:
  "w AND THREAD_FLAG_DETACHED = 0 \<longleftrightarrow> \<not> bit w 0" "w AND THREAD_FLAG_FREE_STACK = 0 \<longleftrightarrow> \<not> bit w 1"
  "w AND THREAD_FLAG_FREE_STRUCT = 0 \<longleftrightarrow> \<not> bit w 2" "w AND THREAD_FLAG_REAL_TIME = 0 \<longleftrightarrow> \<not> bit w 3"
  "w AND THREAD_FLAG_IDLE = 0 \<longleftrightarrow> \<not> bit w 4" "w AND THREAD_SIGNAL_KILL = 0 \<longleftrightarrow> \<not> bit w 0"
  "w AND (THREAD_FLAG_REAL_TIME OR THREAD_FLAG_IDLE) = 0 \<longleftrightarrow> \<not> bit w 3 \<and> \<not> bit w 4"
  unfolding and_or_distrib_zero thread_flag_defs and_push_bit_one_eq_0 by simp_all

abbreviation (input) NUM_PRIORITIES :: nat where "NUM_PRIORITIES \<equiv> 32"
abbreviation (input) HIGHEST_PRIORITY :: nat where "HIGHEST_PRIORITY \<equiv> 31"
abbreviation (input) DEFAULT_PRIORITY :: nat where "DEFAULT_PRIORITY \<equiv> 16"
abbreviation (input) IDLE_PRIORITY :: nat where "IDLE_PRIORITY \<equiv> 0"

text \<open>
  A wait queue is the one in a thread's structure (\<^verbatim>\<open>retcode_wait_queue\<close>) or one of another
  kernel object. A thread's \<^verbatim>\<open>queue_node\<close> is linked in a run queue, in a wait queue, or not at
  all; the model keeps which list it is on, which is what \<^verbatim>\<open>list_delete\<close> finds by following the
  node's pointers.
\<close>

datatype wq_ref = Retcode_Wq tid | Wq nat

datatype queue_ref = Run_Queue nat | Wait_List wq_ref

record thread =
  t_magic :: bool
  t_queue_node :: "queue_ref option"
  t_priority :: nat
  t_state :: thread_state
  t_remaining_quantum :: int
  t_flags :: u32
  t_signals :: u32
  t_curr_cpu :: int
  t_pinned_cpu :: int
  t_aspace :: "nat option"
  t_last_started_running_us :: u64
  t_runtime_us :: u64
  t_blocking_wait_queue :: "wq_ref option"
  t_blocked_status :: status
  t_interruptable :: bool
  t_stack :: bool
  t_stack_size :: mx_size
  t_entry :: nat
  t_arg :: nat
  t_retcode :: int
  t_tls :: "nat list"
  t_exit_callback :: "nat option"
  t_exit_callback_arg :: nat
  t_name :: string

record wait_queue =
  wq_magic :: bool
  wq_count :: int

datatype kcallback =
    CB_thread_sleep_handler tid
  | CB_wait_queue_timeout_handler tid
  | CB_thread_timer_tick

datatype allocation = Stack_Of tid | Struct_Of tid

record kstate = "kcallback timer_state" +
  threads :: "tid \<Rightarrow> thread"
  node_lists :: "queue_ref \<Rightarrow> tid list"
  run_queue_bitmap :: u32
  wait_queues :: "wq_ref \<Rightarrow> wait_queue"
  thread_list :: "tid list"
  current_thread :: "cpu_num \<Rightarrow> tid"
  cpu_aspace :: "cpu_num \<Rightarrow> nat option"
  online_cpus :: u32
  active_cpus :: u32
  idle_cpus :: u32
  realtime_cpus :: u32
  resched_ipis :: u32
  heap_freed :: "allocation list"

text \<open>The cpu an operation runs on and the clocks it reads.\<close>

record cpu_env =
  e_cpus :: "cpu_num list"
  e_cpu :: cpu_num
  e_now :: lk_time
  e_now_hires :: u64

text \<open>What a call does for its caller: it returns, or the thread is switched away from.\<close>

datatype 'r outcome = Returned 'r | Switched

definition upd_thread :: "tid \<Rightarrow> (thread \<Rightarrow> thread) \<Rightarrow> kstate \<Rightarrow> kstate" where
  "upd_thread t f s = s\<lparr>threads := (threads s)(t := f (threads s t))\<rparr>"

definition upd_wq :: "wq_ref \<Rightarrow> (wait_queue \<Rightarrow> wait_queue) \<Rightarrow> kstate \<Rightarrow> kstate" where
  "upd_wq w f s = s\<lparr>wait_queues := (wait_queues s)(w := f (wait_queues s w))\<rparr>"

section \<open>Intrusive lists of queue nodes\<close>

definition node_add_head :: "queue_ref \<Rightarrow> tid \<Rightarrow> kstate \<Rightarrow> kstate" where
  "node_add_head q t s =
     (upd_thread t (\<lambda>th. th\<lparr>t_queue_node := Some q\<rparr>) s)
       \<lparr>node_lists := (node_lists s)(q := t # node_lists s q)\<rparr>"

definition node_add_tail :: "queue_ref \<Rightarrow> tid \<Rightarrow> kstate \<Rightarrow> kstate" where
  "node_add_tail q t s =
     (upd_thread t (\<lambda>th. th\<lparr>t_queue_node := Some q\<rparr>) s)
       \<lparr>node_lists := (node_lists s)(q := node_lists s q @ [t])\<rparr>"

definition node_delete :: "tid \<Rightarrow> kstate \<Rightarrow> kstate" where
  "node_delete t s =
     (case t_queue_node (threads s t) of
        None \<Rightarrow> s
      | Some q \<Rightarrow>
          (upd_thread t (\<lambda>th. th\<lparr>t_queue_node := None\<rparr>) s)
            \<lparr>node_lists := (node_lists s)(q := remove1 t (node_lists s q))\<rparr>)"

section \<open>Cpu masks\<close>

definition mp_reschedule :: "cpu_num \<Rightarrow> u32 \<Rightarrow> bool \<Rightarrow> kstate \<Rightarrow> kstate" where
  "mp_reschedule cpu target realtime s =
     (let target = (if target = push_bit 31 1 then active_cpus s else target);
          target = target AND active_cpus s;
          target = (if \<not> realtime then target AND NOT (realtime_cpus s) else target);
          target = target AND NOT (push_bit cpu 1)
      in s\<lparr>resched_ipis := resched_ipis s OR target\<rparr>)"

definition MP_CPU_ALL_BUT_LOCAL :: u32 where "MP_CPU_ALL_BUT_LOCAL = -1"

definition mp_set_cpu_idle :: "cpu_num \<Rightarrow> kstate \<Rightarrow> kstate" where
  "mp_set_cpu_idle cpu s = s\<lparr>idle_cpus := idle_cpus s OR push_bit cpu 1\<rparr>"

definition mp_set_cpu_busy :: "cpu_num \<Rightarrow> kstate \<Rightarrow> kstate" where
  "mp_set_cpu_busy cpu s = s\<lparr>idle_cpus := idle_cpus s AND NOT (push_bit cpu 1)\<rparr>"

definition mp_set_cpu_realtime :: "cpu_num \<Rightarrow> kstate \<Rightarrow> kstate" where
  "mp_set_cpu_realtime cpu s = s\<lparr>realtime_cpus := realtime_cpus s OR push_bit cpu 1\<rparr>"

definition mp_set_cpu_non_realtime :: "cpu_num \<Rightarrow> kstate \<Rightarrow> kstate" where
  "mp_set_cpu_non_realtime cpu s = s\<lparr>realtime_cpus := realtime_cpus s AND NOT (push_bit cpu 1)\<rparr>"

definition mp_set_curr_cpu_online :: "cpu_num \<Rightarrow> bool \<Rightarrow> kstate \<Rightarrow> kstate" where
  "mp_set_curr_cpu_online cpu online s =
     s\<lparr>online_cpus := (if online then online_cpus s OR push_bit cpu 1
                      else online_cpus s AND NOT (push_bit cpu 1))\<rparr>"

definition mp_set_curr_cpu_active :: "cpu_num \<Rightarrow> bool \<Rightarrow> kstate \<Rightarrow> kstate" where
  "mp_set_curr_cpu_active cpu active s =
     s\<lparr>active_cpus := (if active then active_cpus s OR push_bit cpu 1
                      else active_cpus s AND NOT (push_bit cpu 1))\<rparr>"

definition mp_mbx_reschedule_irq :: "cpu_num \<Rightarrow> kstate \<Rightarrow> handler_return" where
  "mp_mbx_reschedule_irq cpu s =
     (if active_cpus s AND push_bit cpu 1 \<noteq> 0 then INT_RESCHEDULE else INT_NO_RESCHEDULE)"

section \<open>Run queues\<close>

definition insert_in_run_queue_head :: "tid \<Rightarrow> kstate \<Rightarrow> kstate option" where
  "insert_in_run_queue_head t s = do {
     kassert (t_magic (threads s t));
     kassert (t_state (threads s t) = THREAD_READY);
     kassert (t_queue_node (threads s t) = None);
     let p = t_priority (threads s t);
     Some ((node_add_head (Run_Queue p) t s)
            \<lparr>run_queue_bitmap := run_queue_bitmap s OR push_bit p 1\<rparr>)
   }"

definition insert_in_run_queue_tail :: "tid \<Rightarrow> kstate \<Rightarrow> kstate option" where
  "insert_in_run_queue_tail t s = do {
     kassert (t_magic (threads s t));
     kassert (t_state (threads s t) = THREAD_READY);
     kassert (t_queue_node (threads s t) = None);
     let p = t_priority (threads s t);
     Some ((node_add_tail (Run_Queue p) t s)
            \<lparr>run_queue_bitmap := run_queue_bitmap s OR push_bit p 1\<rparr>)
   }"

definition thread_is_realtime :: "thread \<Rightarrow> bool" where
  "thread_is_realtime th \<longleftrightarrow>
     t_flags th AND THREAD_FLAG_REAL_TIME \<noteq> 0 \<and> t_priority th > DEFAULT_PRIORITY"

definition thread_is_idle :: "thread \<Rightarrow> bool" where
  "thread_is_idle th \<longleftrightarrow> t_flags th AND THREAD_FLAG_IDLE \<noteq> 0"

definition thread_is_real_time_or_idle :: "thread \<Rightarrow> bool" where
  "thread_is_real_time_or_idle th \<longleftrightarrow>
     t_flags th AND (THREAD_FLAG_REAL_TIME OR THREAD_FLAG_IDLE) \<noteq> 0"

text \<open>\<^verbatim>\<open>__builtin_clz\<close> on 32 bits, and the walk over the queues from the highest set bit down.\<close>

definition clz32 :: "u32 \<Rightarrow> nat" where
  "clz32 w = length (takeWhile (\<lambda>i. \<not> bit w i) (rev [0..<32]))"

definition runs_on :: "cpu_num \<Rightarrow> thread \<Rightarrow> bool" where
  "runs_on cpu th \<longleftrightarrow> t_pinned_cpu th < 0 \<or> t_pinned_cpu th = int cpu"


lemma clz32_rev: "takeWhile (\<lambda>i. \<not> bit w i) (rev [0..<n]) = rev [k..<n]"
  if "k \<le> n" "\<forall>i. k \<le> i \<longrightarrow> i < n \<longrightarrow> \<not> bit w i" "k > 0 \<longrightarrow> bit w (k - 1)"
  for w :: u32
  using that
proof (induction n)
  case (Suc n)
  show ?case
  proof (cases "k = Suc n")
    case True
    then show ?thesis using Suc.prems by simp
  next
    case False
    then have "k \<le> n" using Suc.prems by simp
    moreover have "\<not> bit w n" using \<open>k \<le> n\<close> Suc.prems by simp
    ultimately show ?thesis using Suc.IH Suc.prems by (simp add: upt_conv_Cons)
  qed
qed simp

text \<open>The queue the walk visits next is that of the highest set bit.\<close>

lemma clz32_highest:
  assumes "w \<noteq> 0"
  shows "clz32 w < 32" "bit w (31 - clz32 w)" "\<And>i. 31 - clz32 w < i \<Longrightarrow> \<not> bit w i"
proof -
  let ?S = "{i. bit w i}"
  have fin: "finite ?S" and ne: "?S \<noteq> {}" and lt: "i < 32" if "bit w i" for i
    using assms bit_imp_le_length [of w] that
    by (auto simp: bit_eq_iff intro: finite_subset [of _ "{..<32}"])
  obtain i where i: "bit w i" using assms by (auto simp: bit_eq_iff)
  have fin: "finite ?S" using lt by (auto intro: finite_subset [of _ "{..<32}"])
  define m where "m = Max ?S"
  have m: "bit w m" "\<And>i. m < i \<Longrightarrow> \<not> bit w i"
    using fin i Max_in [of ?S] Max_ge [OF fin] unfolding m_def by (auto simp: not_le [symmetric])
  have "m < 32" using lt m by blast
  then have "clz32 w = 31 - m"
    unfolding clz32_def using clz32_rev [of "Suc m" 32 w] m by simp
  with m \<open>m < 32\<close> show "clz32 w < 32" "bit w (31 - clz32 w)" "\<And>i. 31 - clz32 w < i \<Longrightarrow> \<not> bit w i"
    by auto
qed

lemma clear_bit_less:
  assumes "bit (w :: u32) n"
  shows "w AND NOT (push_bit n 1) < w"
proof -
  have "n < 32" using bit_imp_le_length [OF assms] by simp
  then have "\<not> bit (w AND NOT (push_bit n 1)) n" by (simp add: bit_simps)
  then have "w AND NOT (push_bit n 1) \<noteq> w" using assms by metis
  moreover have "w AND NOT (push_bit n 1) \<le> w" by (simp add: word_and_le2)
  ultimately show ?thesis by simp
qed

function get_top_loop :: "cpu_num \<Rightarrow> u32 \<Rightarrow> kstate \<Rightarrow> tid \<times> kstate" where
  "get_top_loop cpu bm s =
     (if bm = 0 then (Idle_Thread cpu, s)
      else
        let next_queue = HIGHEST_PRIORITY - clz32 bm
        in case find (\<lambda>t. runs_on cpu (threads s t)) (node_lists s (Run_Queue next_queue)) of
             Some t \<Rightarrow>
               (let s = node_delete t s
                in (t, if node_lists s (Run_Queue next_queue) = []
                       then s\<lparr>run_queue_bitmap := run_queue_bitmap s AND NOT (push_bit next_queue 1)\<rparr>
                       else s))
           | None \<Rightarrow> get_top_loop cpu (bm AND NOT (push_bit next_queue 1)) s)"
  by pat_completeness auto
termination
  by (relation "measure (\<lambda>(cpu, bm, s). unat bm)")
    (auto simp: word_less_nat_alt [symmetric] clear_bit_less clz32_highest)

declare get_top_loop.simps [simp del]

definition get_top_thread :: "cpu_num \<Rightarrow> kstate \<Rightarrow> tid \<times> kstate" where
  "get_top_thread cpu s = get_top_loop cpu (run_queue_bitmap s) s"


section \<open>Reschedule\<close>

text \<open>
  The preemption timer at a switch: cancelled when a regular thread gives way to a real time or
  idle one, set when it is the other way round.
\<close>

definition switch_preempt_timer :: "cpu_env \<Rightarrow> thread \<Rightarrow> thread \<Rightarrow> kstate \<Rightarrow> kstate option" where
  "switch_preempt_timer e oldthread newthread s =
     (if thread_is_real_time_or_idle newthread then
        Some (if \<not> thread_is_real_time_or_idle oldthread
              then timer_cancel (e_cpu e) (e_now e) (Preempt_Timer (e_cpu e)) s else s)
      else if thread_is_real_time_or_idle oldthread then
        timer_set_periodic (e_cpus e) (e_cpu e) (e_now e) (Preempt_Timer (e_cpu e)) 10 CB_thread_timer_tick s
      else Some s)"

text \<open>The accounting, the quantum and the cpu ownership of the two threads of a switch.\<close>

definition switch_threads :: "cpu_env \<Rightarrow> tid \<Rightarrow> tid \<Rightarrow> kstate \<Rightarrow> kstate" where
  "switch_threads e oldthread newthread s =
     (let s = upd_thread oldthread (\<lambda>th. th\<lparr>t_runtime_us := t_runtime_us th
                   + (e_now_hires e - t_last_started_running_us th)\<rparr>) s;
          s = upd_thread newthread (\<lambda>th. th\<lparr>t_last_started_running_us := e_now_hires e,
                   t_remaining_quantum := (if t_remaining_quantum th \<le> 0 then 5 else t_remaining_quantum th)\<rparr>) s;
          s = upd_thread oldthread (\<lambda>th. th\<lparr>t_curr_cpu := -1\<rparr>) s
      in upd_thread newthread (\<lambda>th. th\<lparr>t_curr_cpu := int (e_cpu e)\<rparr>) s)"

definition switch_cpu_masks :: "cpu_num \<Rightarrow> thread \<Rightarrow> kstate \<Rightarrow> kstate" where
  "switch_cpu_masks cpu newthread s =
     (let s = (if thread_is_idle newthread then mp_set_cpu_idle cpu s else mp_set_cpu_busy cpu s)
      in if thread_is_realtime newthread then mp_set_cpu_realtime cpu s else mp_set_cpu_non_realtime cpu s)"

definition switch_aspace :: "cpu_num \<Rightarrow> thread \<Rightarrow> thread \<Rightarrow> kstate \<Rightarrow> kstate" where
  "switch_aspace cpu oldthread newthread s =
     (if t_aspace newthread \<noteq> t_aspace oldthread
      then s\<lparr>cpu_aspace := (cpu_aspace s)(cpu := t_aspace newthread)\<rparr> else s)"

definition thread_resched :: "cpu_env \<Rightarrow> kstate \<Rightarrow> kstate option" where
  "thread_resched e s = do {
     let cpu = e_cpu e;
     let oldthread = current_thread s cpu;
     kassert (t_state (threads s oldthread) \<noteq> THREAD_RUNNING);
     let (newthread, s) = get_top_thread cpu s;
     let s = upd_thread newthread (\<lambda>th. th\<lparr>t_state := THREAD_RUNNING\<rparr>) s;
     if newthread = oldthread then Some s
     else do {
       let s = switch_threads e oldthread newthread s;
       let s = switch_cpu_masks cpu (threads s newthread) s;
       s \<leftarrow> switch_preempt_timer e (threads s oldthread) (threads s newthread) s;
       let s = s\<lparr>current_thread := (current_thread s)(cpu := newthread)\<rparr>;
       Some (switch_aspace cpu (threads s oldthread) (threads s newthread) s)
     }
   }"

definition thread_yield :: "cpu_env \<Rightarrow> kstate \<Rightarrow> kstate option" where
  "thread_yield e s = do {
     let ct = current_thread s (e_cpu e);
     kassert (t_magic (threads s ct));
     kassert (t_state (threads s ct) = THREAD_RUNNING);
     let s = upd_thread ct (\<lambda>th. th\<lparr>t_state := THREAD_READY, t_remaining_quantum := 0\<rparr>) s;
     s \<leftarrow> (if \<not> thread_is_idle (threads s ct) then insert_in_run_queue_tail ct s else Some s);
     thread_resched e s
   }"

definition thread_preempt :: "cpu_env \<Rightarrow> kstate \<Rightarrow> kstate option" where
  "thread_preempt e s = do {
     let ct = current_thread s (e_cpu e);
     kassert (t_magic (threads s ct));
     kassert (t_state (threads s ct) = THREAD_RUNNING);
     let s = upd_thread ct (\<lambda>th. th\<lparr>t_state := THREAD_READY\<rparr>) s;
     s \<leftarrow> (if \<not> thread_is_idle (threads s ct)
           then if t_remaining_quantum (threads s ct) > 0
                then insert_in_run_queue_head ct s else insert_in_run_queue_tail ct s
           else Some s);
     thread_resched e s
   }"

definition thread_block :: "cpu_env \<Rightarrow> kstate \<Rightarrow> kstate option" where
  "thread_block e s = do {
     let ct = current_thread s (e_cpu e);
     kassert (t_magic (threads s ct));
     kassert (t_state (threads s ct) = THREAD_BLOCKED);
     kassert (\<not> thread_is_idle (threads s ct));
     thread_resched e s
   }"

definition thread_unblock :: "cpu_env \<Rightarrow> tid \<Rightarrow> bool \<Rightarrow> kstate \<Rightarrow> kstate option" where
  "thread_unblock e t resched s = do {
     kassert (t_magic (threads s t));
     kassert (t_state (threads s t) = THREAD_BLOCKED);
     kassert (\<not> thread_is_idle (threads s t));
     s \<leftarrow> insert_in_run_queue_head t (upd_thread t (\<lambda>th. th\<lparr>t_state := THREAD_READY\<rparr>) s);
     let s = mp_reschedule (e_cpu e) MP_CPU_ALL_BUT_LOCAL False s;
     if resched then thread_resched e s else Some s
   }"

definition thread_timer_tick :: "cpu_num \<Rightarrow> kstate \<Rightarrow> handler_return \<times> kstate" where
  "thread_timer_tick cpu s =
     (let ct = current_thread s cpu
      in if thread_is_real_time_or_idle (threads s ct) then (INT_NO_RESCHEDULE, s)
         else let s = upd_thread ct (\<lambda>th. th\<lparr>t_remaining_quantum := t_remaining_quantum th - 1\<rparr>) s
              in (if t_remaining_quantum (threads s ct) \<le> 0 then INT_RESCHEDULE else INT_NO_RESCHEDULE, s))"

definition thread_set_priority :: "cpu_env \<Rightarrow> int \<Rightarrow> kstate \<Rightarrow> kstate option" where
  "thread_set_priority e priority s = do {
     let ct = current_thread s (e_cpu e);
     let priority = (if priority \<le> int IDLE_PRIORITY then int IDLE_PRIORITY + 1 else priority);
     let priority = (if priority > int HIGHEST_PRIORITY then int HIGHEST_PRIORITY else priority);
     let s = upd_thread ct (\<lambda>th. th\<lparr>t_priority := nat priority, t_state := THREAD_READY\<rparr>) s;
     s \<leftarrow> insert_in_run_queue_head ct s;
     thread_resched e s
   }"

section \<open>Wait queues\<close>

definition WAIT_QUEUE_INITIAL_VALUE :: wait_queue where
  "WAIT_QUEUE_INITIAL_VALUE = \<lparr>wq_magic = True, wq_count = 0\<rparr>"

definition wait_queue_init :: "wq_ref \<Rightarrow> kstate \<Rightarrow> kstate" where
  "wait_queue_init w s =
     (upd_wq w (\<lambda>_. WAIT_QUEUE_INITIAL_VALUE) s)\<lparr>node_lists := (node_lists s)(Wait_List w := [])\<rparr>"

definition wait_queue_block_enter ::
  "cpu_env \<Rightarrow> wq_ref \<Rightarrow> lk_time \<Rightarrow> kstate \<Rightarrow> (status outcome \<times> kstate) option" where
  "wait_queue_block_enter e w timeout s = do {
     let ct = current_thread s (e_cpu e);
     kassert (wq_magic (wait_queues s w));
     kassert (t_state (threads s ct) = THREAD_RUNNING);
     if timeout = 0 then Some (Returned ERR_TIMED_OUT, s)
     else do {
       let s = node_add_tail (Wait_List w) ct s;
       let s = upd_wq w (\<lambda>q. q\<lparr>wq_count := wq_count q + 1\<rparr>) s;
       let s = upd_thread ct (\<lambda>th. th\<lparr>t_state := THREAD_BLOCKED, t_blocking_wait_queue := Some w,
                                      t_blocked_status := NO_ERROR\<rparr>) s;
       s \<leftarrow> (if timeout \<noteq> INFINITE_TIME
             then timer_set_oneshot (e_cpus e) (e_cpu e) (e_now e) (Stack_Timer ct) timeout
                    (CB_wait_queue_timeout_handler ct) (timer_initialize (Stack_Timer ct) s)
             else Some s);
       s \<leftarrow> thread_resched e s;
       Some (Switched, s)
     }
   }"

definition wait_queue_block_return ::
  "cpu_env \<Rightarrow> lk_time \<Rightarrow> kstate \<Rightarrow> status \<times> kstate" where
  "wait_queue_block_return e timeout s =
     (let ct = current_thread s (e_cpu e);
          s = (if timeout \<noteq> INFINITE_TIME
               then timer_cancel (e_cpu e) (e_now e) (Stack_Timer ct) s else s)
      in (t_blocked_status (threads s ct), s))"

text \<open>Taking the head of a wait queue's list, as both wake operations do.\<close>

definition wake_head :: "wq_ref \<Rightarrow> tid \<Rightarrow> status \<Rightarrow> kstate \<Rightarrow> kstate option" where
  "wake_head w t err s = do {
     let s = upd_wq w (\<lambda>q. q\<lparr>wq_count := wq_count q - 1\<rparr>) (node_delete t s);
     kassert (t_state (threads s t) = THREAD_BLOCKED);
     Some (upd_thread t (\<lambda>th. th\<lparr>t_state := THREAD_READY, t_blocked_status := err,
                                 t_blocking_wait_queue := None\<rparr>) s)
   }"

definition wait_queue_wake_one ::
  "cpu_env \<Rightarrow> wq_ref \<Rightarrow> bool \<Rightarrow> status \<Rightarrow> kstate \<Rightarrow> (int \<times> kstate) option" where
  "wait_queue_wake_one e w reschedule err s = do {
     let ct = current_thread s (e_cpu e);
     kassert (wq_magic (wait_queues s w));
     case node_lists s (Wait_List w) of
       [] \<Rightarrow> Some (0, s)
     | t # _ \<Rightarrow> do {
         s \<leftarrow> wake_head w t err s;
         s \<leftarrow> (if reschedule
               then insert_in_run_queue_head ct (upd_thread ct (\<lambda>th. th\<lparr>t_state := THREAD_READY\<rparr>) s)
               else Some s);
         s \<leftarrow> insert_in_run_queue_head t s;
         let s = mp_reschedule (e_cpu e) MP_CPU_ALL_BUT_LOCAL False s;
         s \<leftarrow> (if reschedule then thread_resched e s else Some s);
         Some (1, s)
       }
   }"

text \<open>
  The loop of \<^verbatim>\<open>wait_queue_wake_all\<close> removes the head until the list is empty: one round for
  each thread that is on the list when it starts.
\<close>

fun wake_all_loop :: "wq_ref \<Rightarrow> status \<Rightarrow> tid list \<Rightarrow> kstate \<Rightarrow> kstate option" where
  "wake_all_loop w err [] s = Some s"
| "wake_all_loop w err (t # ts) s = do {
     s \<leftarrow> wake_head w t err s;
     s \<leftarrow> insert_in_run_queue_head t s;
     wake_all_loop w err ts s
   }"

definition wait_queue_wake_all ::
  "cpu_env \<Rightarrow> wq_ref \<Rightarrow> bool \<Rightarrow> status \<Rightarrow> kstate \<Rightarrow> (int \<times> kstate) option" where
  "wait_queue_wake_all e w reschedule err s = do {
     let ct = current_thread s (e_cpu e);
     kassert (wq_magic (wait_queues s w));
     s \<leftarrow> (if reschedule \<and> wq_count (wait_queues s w) > 0
           then insert_in_run_queue_head ct (upd_thread ct (\<lambda>th. th\<lparr>t_state := THREAD_READY\<rparr>) s)
           else Some s);
     let ts = node_lists s (Wait_List w);
     s \<leftarrow> wake_all_loop w err ts s;
     kassert (wq_count (wait_queues s w) = 0);
     s \<leftarrow> (if length ts > 0
           then let s = mp_reschedule (e_cpu e) MP_CPU_ALL_BUT_LOCAL False s
                in if reschedule then thread_resched e s else Some s
           else Some s);
     Some (int (length ts), s)
   }"

definition wait_queue_destroy :: "cpu_env \<Rightarrow> wq_ref \<Rightarrow> bool \<Rightarrow> kstate \<Rightarrow> kstate option" where
  "wait_queue_destroy e w reschedule s = do {
     kassert (wq_magic (wait_queues s w));
     (_, s) \<leftarrow> wait_queue_wake_all e w reschedule ERR_CANCELLED s;
     Some (upd_wq w (\<lambda>q. q\<lparr>wq_magic := False\<rparr>) s)
   }"

definition thread_unblock_from_wait_queue ::
  "cpu_env \<Rightarrow> tid \<Rightarrow> status \<Rightarrow> kstate \<Rightarrow> (status \<times> kstate) option" where
  "thread_unblock_from_wait_queue e t err s = do {
     kassert (t_magic (threads s t));
     if t_state (threads s t) \<noteq> THREAD_BLOCKED then Some (ERR_NOT_BLOCKED, s)
     else case t_blocking_wait_queue (threads s t) of
       None \<Rightarrow> None
     | Some w \<Rightarrow> do {
         kassert (wq_magic (wait_queues s w));
         kassert (t_queue_node (threads s t) \<noteq> None);
         let s = node_delete t s;
         let s = upd_wq w (\<lambda>q. q\<lparr>wq_count := wq_count q - 1\<rparr>) s;
         let s = upd_thread t (\<lambda>th. th\<lparr>t_blocking_wait_queue := None, t_state := THREAD_READY,
                                        t_blocked_status := err\<rparr>) s;
         s \<leftarrow> insert_in_run_queue_head t s;
         Some (NO_ERROR, mp_reschedule (e_cpu e) MP_CPU_ALL_BUT_LOCAL False s)
       }
   }"

definition wait_queue_timeout_handler :: "cpu_env \<Rightarrow> tid \<Rightarrow> kstate \<Rightarrow> (handler_return \<times> kstate) option" where
  "wait_queue_timeout_handler e t s = do {
     kassert (t_magic (threads s t));
     (st, s) \<leftarrow> thread_unblock_from_wait_queue e t ERR_TIMED_OUT s;
     Some (if st = NO_ERROR then INT_RESCHEDULE else INT_NO_RESCHEDULE, s)
   }"

section \<open>Sleep\<close>

definition thread_sleep_handler :: "tid \<Rightarrow> kstate \<Rightarrow> (handler_return \<times> kstate) option" where
  "thread_sleep_handler t s = do {
     kassert (t_magic (threads s t));
     if t_state (threads s t) \<noteq> THREAD_SLEEPING then Some (INT_NO_RESCHEDULE, s)
     else do {
       let s = upd_thread t (\<lambda>th. th\<lparr>t_state := THREAD_READY, t_blocked_status := NO_ERROR\<rparr>) s;
       s \<leftarrow> insert_in_run_queue_head t s;
       Some (INT_RESCHEDULE, s)
     }
   }"

definition thread_sleep_enter ::
  "cpu_env \<Rightarrow> lk_time \<Rightarrow> bool \<Rightarrow> kstate \<Rightarrow> (status outcome \<times> kstate) option" where
  "thread_sleep_enter e delay interruptable s = do {
     let ct = current_thread s (e_cpu e);
     kassert (t_magic (threads s ct));
     kassert (t_state (threads s ct) = THREAD_RUNNING);
     kassert (\<not> thread_is_idle (threads s ct));
     let s = timer_initialize (Stack_Timer ct) s;
     if interruptable \<and> t_signals (threads s ct) AND THREAD_SIGNAL_KILL \<noteq> 0
     then Some (Returned ERR_INTERRUPTED, s)
     else do {
       s \<leftarrow> timer_set_oneshot (e_cpus e) (e_cpu e) (e_now e) (Stack_Timer ct) delay
              (CB_thread_sleep_handler ct) s;
       let s = upd_thread ct (\<lambda>th. th\<lparr>t_state := THREAD_SLEEPING, t_blocked_status := NO_ERROR,
                                      t_interruptable := interruptable\<rparr>) s;
       s \<leftarrow> thread_resched e s;
       Some (Switched, s)
     }
   }"

definition thread_sleep_return :: "cpu_env \<Rightarrow> kstate \<Rightarrow> status \<times> kstate" where
  "thread_sleep_return e s =
     (let ct = current_thread s (e_cpu e);
          s = upd_thread ct (\<lambda>th. th\<lparr>t_interruptable := False\<rparr>) s;
          st = t_blocked_status (threads s ct);
          s = (if st = ERR_INTERRUPTED then timer_cancel (e_cpu e) (e_now e) (Stack_Timer ct) s else s)
      in (st, s))"

text \<open>The dispatch of a timer's callback.\<close>

fun kernel_callback ::
  "cpu_env \<Rightarrow> timer_id \<Rightarrow> lk_time \<Rightarrow> kcallback option \<Rightarrow> kstate \<Rightarrow> (handler_return \<times> kstate) option" where
  "kernel_callback e timer now None s = None"
| "kernel_callback e timer now (Some (CB_thread_sleep_handler t)) s = thread_sleep_handler t s"
| "kernel_callback e timer now (Some (CB_wait_queue_timeout_handler t)) s = wait_queue_timeout_handler e t s"
| "kernel_callback e timer now (Some CB_thread_timer_tick) s = Some (thread_timer_tick (e_cpu e) s)"

definition kernel_timer_tick :: "cpu_env \<Rightarrow> kstate \<Rightarrow> (handler_return \<times> kstate) option" where
  "kernel_timer_tick e s = timer_tick (kernel_callback e) (e_cpus e) (e_cpu e) (e_now e) s"


section \<open>Life of a thread\<close>

definition THREAD_NAME_LENGTH :: nat where "THREAD_NAME_LENGTH = 64"

text \<open>The structure after \<^verbatim>\<open>memset\<close> with zeros and what \<^verbatim>\<open>init_thread_struct\<close> then sets.\<close>

definition init_thread_value :: "string \<Rightarrow> thread" where
  "init_thread_value nm =
     \<lparr>t_magic = True, t_queue_node = None, t_priority = 0, t_state = THREAD_SUSPENDED,
      t_remaining_quantum = 0, t_flags = 0, t_signals = 0, t_curr_cpu = 0, t_pinned_cpu = -1, t_aspace = None,
      t_last_started_running_us = 0, t_runtime_us = 0, t_blocking_wait_queue = None, t_blocked_status = NO_ERROR,
      t_interruptable = False, t_stack = False, t_stack_size = 0, t_entry = 0, t_arg = 0, t_retcode = 0,
      t_tls = [], t_exit_callback = None, t_exit_callback_arg = 0,
      t_name = take (THREAD_NAME_LENGTH - 1) nm\<rparr>"

definition init_thread_struct :: "tid \<Rightarrow> string \<Rightarrow> kstate \<Rightarrow> kstate" where
  "init_thread_struct t nm s = wait_queue_init (Retcode_Wq t) (upd_thread t (\<lambda>_. init_thread_value nm) s)"

definition THREAD_STACK_PADDING_SIZE :: mx_size where "THREAD_STACK_PADDING_SIZE = 256"

text \<open>
  The allocations of \<^verbatim>\<open>thread_create_etc\<close> are arguments: \<open>struct_mem\<close> is what \<^verbatim>\<open>malloc\<close> returned for the
  structure (looked at only when the caller gave none) and \<open>stack_mem\<close> whether it found memory for
  the stack. \<open>own_stack\<close> says that the caller passed a stack.
\<close>

definition thread_create_etc ::
  "cpu_env \<Rightarrow> tid option \<Rightarrow> string \<Rightarrow> nat \<Rightarrow> nat \<Rightarrow> nat \<Rightarrow> bool \<Rightarrow> mx_size \<Rightarrow> tid option \<Rightarrow> bool \<Rightarrow>
   kstate \<Rightarrow> tid option \<times> kstate" where
  "thread_create_etc e t nm entry arg prio own_stack stack_size struct_mem stack_mem s =
     (case (case t of None \<Rightarrow> struct_mem | Some t \<Rightarrow> Some t) of
        None \<Rightarrow> (None, s)
      | Some t' \<Rightarrow>
          let flags = (if t = None then THREAD_FLAG_FREE_STRUCT else 0);
              s = init_thread_struct t' nm s;
              s = upd_thread t' (\<lambda>th. th\<lparr>t_entry := entry, t_arg := arg, t_priority := prio,
                     t_state := THREAD_SUSPENDED, t_signals := 0, t_blocking_wait_queue := None,
                     t_blocked_status := NO_ERROR, t_interruptable := False, t_curr_cpu := -1, t_retcode := 0\<rparr>) s;
              s = wait_queue_init (Retcode_Wq t') s
          in if \<not> own_stack \<and> \<not> stack_mem
             then (None, if t = None then s\<lparr>heap_freed := Struct_Of t' # heap_freed s\<rparr> else s)
             else
               let flags = (if own_stack then flags
                            else flags OR THREAD_FLAG_DEBUG_STACK_BOUNDS_CHECK OR THREAD_FLAG_FREE_STACK);
                   size = (if own_stack then stack_size else stack_size + THREAD_STACK_PADDING_SIZE);
                   s = upd_thread t' (\<lambda>th. th\<lparr>t_stack := True, t_stack_size := size, t_flags := flags,
                          t_tls := t_tls (threads s (current_thread s (e_cpu e)))\<rparr>) s
               in (Some t', s\<lparr>thread_list := t' # thread_list s\<rparr>))"

definition thread_set_real_time :: "cpu_env \<Rightarrow> tid option \<Rightarrow> kstate \<Rightarrow> (status \<times> kstate) option" where
  "thread_set_real_time e t s =
     (case t of
        None \<Rightarrow> Some (ERR_INVALID_ARGS, s)
      | Some t \<Rightarrow> do {
          kassert (t_magic (threads s t));
          let s = (if t = current_thread s (e_cpu e)
                   then timer_cancel (e_cpu e) (e_now e) (Preempt_Timer (e_cpu e)) s else s);
          Some (NO_ERROR, upd_thread t (\<lambda>th. th\<lparr>t_flags := t_flags th OR THREAD_FLAG_REAL_TIME\<rparr>) s)
        })"

text \<open>\<open>ints\<close>: interrupts were disabled when \<^verbatim>\<open>thread_resume\<close> was called.\<close>

definition thread_resume :: "cpu_env \<Rightarrow> bool \<Rightarrow> tid \<Rightarrow> kstate \<Rightarrow> (status \<times> kstate) option" where
  "thread_resume e ints t s = do {
     kassert (t_magic (threads s t));
     kassert (t_state (threads s t) \<noteq> THREAD_DEATH);
     let resched = (t_state (threads s t) = THREAD_SUSPENDED \<and> \<not> ints);
     s \<leftarrow> (if t_state (threads s t) = THREAD_SUSPENDED
           then insert_in_run_queue_head t (upd_thread t (\<lambda>th. th\<lparr>t_state := THREAD_READY\<rparr>) s)
           else Some s);
     let s = mp_reschedule (e_cpu e) MP_CPU_ALL_BUT_LOCAL False s;
     s \<leftarrow> (if resched then thread_yield e s else Some s);
     Some (NO_ERROR, s)
   }"

definition free_thread :: "tid \<Rightarrow> kstate \<Rightarrow> kstate" where
  "free_thread t s =
     (let th = threads s t;
          s = (if t_flags th AND THREAD_FLAG_FREE_STACK \<noteq> 0 \<and> t_stack th
               then s\<lparr>heap_freed := Stack_Of t # heap_freed s\<rparr> else s)
      in if t_flags th AND THREAD_FLAG_FREE_STRUCT \<noteq> 0
         then s\<lparr>heap_freed := Struct_Of t # heap_freed s\<rparr> else s)"

text \<open>What \<^verbatim>\<open>thread_join\<close> does once the thread is dead: the return code, then the teardown.\<close>

definition thread_join_finish :: "tid \<Rightarrow> kstate \<Rightarrow> ((status \<times> int option) \<times> kstate) option" where
  "thread_join_finish t s = do {
     kassert (t_magic (threads s t));
     kassert (t_state (threads s t) = THREAD_DEATH);
     kassert (t_blocking_wait_queue (threads s t) = None);
     kassert (t_queue_node (threads s t) = None);
     let retcode = t_retcode (threads s t);
     let s = s\<lparr>thread_list := remove1 t (thread_list s)\<rparr>;
     let s = upd_thread t (\<lambda>th. th\<lparr>t_magic := False\<rparr>) s;
     Some ((NO_ERROR, Some retcode), free_thread t s)
   }"

definition thread_join_enter ::
  "cpu_env \<Rightarrow> tid \<Rightarrow> lk_time \<Rightarrow> kstate \<Rightarrow> ((status \<times> int option) outcome \<times> kstate) option" where
  "thread_join_enter e t timeout s = do {
     kassert (t_magic (threads s t));
     if t_flags (threads s t) AND THREAD_FLAG_DETACHED \<noteq> 0 then Some (Returned (ERR_THREAD_DETACHED, None), s)
     else if t_state (threads s t) \<noteq> THREAD_DEATH then do {
       (r, s) \<leftarrow> wait_queue_block_enter e (Retcode_Wq t) timeout s;
       Some (case r of Returned err \<Rightarrow> Returned (err, None) | Switched \<Rightarrow> Switched, s)
     }
     else do {
       (r, s) \<leftarrow> thread_join_finish t s;
       Some (Returned r, s)
     }
   }"

definition thread_join_return ::
  "cpu_env \<Rightarrow> tid \<Rightarrow> lk_time \<Rightarrow> kstate \<Rightarrow> ((status \<times> int option) \<times> kstate) option" where
  "thread_join_return e t timeout s =
     (let (err, s) = wait_queue_block_return e timeout s
      in if err \<noteq> NO_ERROR then Some ((err, None), s) else thread_join_finish t s)"

definition thread_detach :: "cpu_env \<Rightarrow> tid \<Rightarrow> kstate \<Rightarrow> (status \<times> kstate) option" where
  "thread_detach e t s = do {
     kassert (t_magic (threads s t));
     (_, s) \<leftarrow> wait_queue_wake_all e (Retcode_Wq t) False ERR_THREAD_DETACHED s;
     if t_state (threads s t) = THREAD_DEATH then do {
       (r, s) \<leftarrow> thread_join_finish t
                  (upd_thread t (\<lambda>th. th\<lparr>t_flags := t_flags th AND NOT THREAD_FLAG_DETACHED\<rparr>) s);
       Some (fst r, s)
     }
     else Some (NO_ERROR, upd_thread t (\<lambda>th. th\<lparr>t_flags := t_flags th OR THREAD_FLAG_DETACHED\<rparr>) s)
   }"

definition thread_detach_and_resume :: "cpu_env \<Rightarrow> bool \<Rightarrow> tid \<Rightarrow> kstate \<Rightarrow> (status \<times> kstate) option" where
  "thread_detach_and_resume e ints t s = do {
     (err, s) \<leftarrow> thread_detach e t s;
     if err \<noteq> NO_ERROR then Some (err, s) else thread_resume e ints t s
   }"

text \<open>What \<^verbatim>\<open>thread_exit_locked\<close> does for a detached thread and for a joinable one.\<close>

definition exit_detached :: "tid \<Rightarrow> kstate \<Rightarrow> kstate" where
  "exit_detached ct s =
     (let s = s\<lparr>thread_list := remove1 ct (thread_list s)\<rparr>;
          s = upd_thread ct (\<lambda>th. th\<lparr>t_magic := False\<rparr>) s;
          s = (if t_flags (threads s ct) AND THREAD_FLAG_FREE_STACK \<noteq> 0 \<and> t_stack (threads s ct)
               then upd_thread ct (\<lambda>th. th\<lparr>t_flags := t_flags th AND NOT THREAD_FLAG_DEBUG_STACK_BOUNDS_CHECK\<rparr>)
                      (s\<lparr>heap_freed := Stack_Of ct # heap_freed s\<rparr>)
               else s)
      in if t_flags (threads s ct) AND THREAD_FLAG_FREE_STRUCT \<noteq> 0
         then s\<lparr>heap_freed := Struct_Of ct # heap_freed s\<rparr> else s)"

definition exit_joinable :: "cpu_env \<Rightarrow> tid \<Rightarrow> kstate \<Rightarrow> kstate option" where
  "exit_joinable e ct s = map_option snd (wait_queue_wake_all e (Retcode_Wq ct) False NO_ERROR s)"

definition thread_exit_locked :: "cpu_env \<Rightarrow> int \<Rightarrow> kstate \<Rightarrow> kstate option" where
  "thread_exit_locked e retcode s = do {
     let ct = current_thread s (e_cpu e);
     let s = upd_thread ct (\<lambda>th. th\<lparr>t_state := THREAD_DEATH, t_retcode := retcode\<rparr>) s;
     s \<leftarrow> (if t_flags (threads s ct) AND THREAD_FLAG_DETACHED \<noteq> 0
           then Some (exit_detached ct s) else exit_joinable e ct s);
     thread_resched e s
   }"

text \<open>The exit callback is code of the thread's creator: an argument.\<close>

definition thread_exit :: "cpu_env \<Rightarrow> (nat \<Rightarrow> nat \<Rightarrow> kstate \<Rightarrow> kstate) \<Rightarrow> int \<Rightarrow> kstate \<Rightarrow> kstate option" where
  "thread_exit e run_callback retcode s = do {
     let ct = current_thread s (e_cpu e);
     kassert (t_magic (threads s ct));
     kassert (t_state (threads s ct) = THREAD_RUNNING);
     kassert (\<not> thread_is_idle (threads s ct));
     let s = (case t_exit_callback (threads s ct) of
                None \<Rightarrow> s
              | Some cb \<Rightarrow> run_callback cb (t_exit_callback_arg (threads s ct)) s);
     thread_exit_locked e retcode s
   }"

definition thread_forget :: "cpu_env \<Rightarrow> tid \<Rightarrow> kstate \<Rightarrow> kstate option" where
  "thread_forget e t s = do {
     kassert (current_thread s (e_cpu e) \<noteq> t);
     let s = s\<lparr>thread_list := remove1 t (thread_list s)\<rparr>;
     kassert (t_queue_node (threads s t) = None);
     Some (free_thread t s)
   }"

text \<open>
  \<^verbatim>\<open>thread_kill\<close>. The wait at its end is the last thing it does, and its result is dropped.
\<close>

definition thread_kill :: "cpu_env \<Rightarrow> tid \<Rightarrow> bool \<Rightarrow> kstate \<Rightarrow> kstate option" where
  "thread_kill e t block s = do {
     kassert (t_magic (threads s t));
     let s = upd_thread t (\<lambda>th. th\<lparr>t_signals := t_signals th OR THREAD_SIGNAL_KILL\<rparr>) s;
     if t = current_thread s (e_cpu e) \<or> t_state (threads s t) = THREAD_DEATH then Some s
     else do {
       s \<leftarrow> (case t_state (threads s t) of
               THREAD_RUNNING \<Rightarrow>
                 Some (mp_reschedule (e_cpu e) (push_bit (nat (t_curr_cpu (threads s t))) 1) False s)
             | THREAD_BLOCKED \<Rightarrow>
                 (if t_interruptable (threads s t)
                  then map_option snd (thread_unblock_from_wait_queue e t ERR_INTERRUPTED s) else Some s)
             | THREAD_SLEEPING \<Rightarrow>
                 (if t_interruptable (threads s t)
                  then insert_in_run_queue_head t (upd_thread t (\<lambda>th. th\<lparr>t_state := THREAD_READY,
                         t_blocked_status := ERR_INTERRUPTED\<rparr>) s)
                  else Some s)
             | _ \<Rightarrow> Some s);
       if block \<and> t_flags (threads s t) AND THREAD_FLAG_DETACHED = 0
       then map_option snd (wait_queue_block_enter e (Retcode_Wq t) INFINITE_TIME s)
       else Some s
     }
   }"

definition thread_process_pending_signals ::
  "cpu_env \<Rightarrow> (nat \<Rightarrow> nat \<Rightarrow> kstate \<Rightarrow> kstate) \<Rightarrow> kstate \<Rightarrow> kstate option" where
  "thread_process_pending_signals e run_callback s =
     (let ct = current_thread s (e_cpu e)
      in if t_signals (threads s ct) = 0 then Some s
         else if t_signals (threads s ct) AND THREAD_SIGNAL_KILL \<noteq> 0
         then thread_exit e run_callback 0
                (upd_thread ct (\<lambda>th. th\<lparr>t_signals := t_signals th AND NOT THREAD_SIGNAL_KILL\<rparr>) s)
         else Some s)"

section \<open>Start of the system\<close>

definition thread_construct_first :: "cpu_num \<Rightarrow> tid \<Rightarrow> string \<Rightarrow> kstate \<Rightarrow> kstate" where
  "thread_construct_first cpu t nm s =
     (let s = init_thread_struct t nm s;
          s = upd_thread t (\<lambda>th. th\<lparr>t_priority := HIGHEST_PRIORITY, t_state := THREAD_RUNNING,
                 t_flags := THREAD_FLAG_DETACHED, t_signals := 0, t_curr_cpu := int cpu, t_pinned_cpu := int cpu\<rparr>) s
      in s\<lparr>thread_list := t # thread_list s, current_thread := (current_thread s)(cpu := t)\<rparr>)"

definition thread_init_early :: "kstate \<Rightarrow> kstate" where
  "thread_init_early s =
     (let s = s\<lparr>node_lists := (\<lambda>q. case q of Run_Queue p \<Rightarrow> if p < NUM_PRIORITIES then [] else node_lists s q
                                     | _ \<Rightarrow> node_lists s q),
               thread_list := []\<rparr>
      in thread_construct_first 0 (Idle_Thread 0) ''bootstrap'' s)"

definition thread_init :: "cpu_num list \<Rightarrow> kstate \<Rightarrow> kstate" where
  "thread_init cpus s = fold (\<lambda>i. timer_initialize (Preempt_Timer i)) cpus s"

definition thread_set_name :: "cpu_num \<Rightarrow> string \<Rightarrow> kstate \<Rightarrow> kstate" where
  "thread_set_name cpu nm s =
     upd_thread (current_thread s cpu) (\<lambda>th. th\<lparr>t_name := take (THREAD_NAME_LENGTH - 1) nm\<rparr>) s"

definition thread_set_exit_callback :: "tid \<Rightarrow> nat option \<Rightarrow> nat \<Rightarrow> kstate \<Rightarrow> kstate" where
  "thread_set_exit_callback t cb arg s =
     upd_thread t (\<lambda>th. th\<lparr>t_exit_callback := cb, t_exit_callback_arg := arg\<rparr>) s"

text \<open>\<^verbatim>\<open>thread_become_idle\<close> up to the endless loop; \<open>nm\<close> is the formatted name \<^verbatim>\<open>idle <cpu>\<close>.\<close>

definition thread_become_idle :: "cpu_env \<Rightarrow> string \<Rightarrow> kstate \<Rightarrow> kstate option" where
  "thread_become_idle e nm s =
     (let cpu = e_cpu e; t = current_thread s cpu;
          s = thread_set_name cpu nm s;
          s = upd_thread t (\<lambda>th. th\<lparr>t_priority := IDLE_PRIORITY, t_flags := t_flags th OR THREAD_FLAG_IDLE,
                                    t_pinned_cpu := int cpu\<rparr>) s;
          s = mp_set_cpu_idle cpu (mp_set_curr_cpu_active cpu True s)
      in thread_yield e s)"

definition thread_secondary_cpu_init_early :: "cpu_num \<Rightarrow> tid \<Rightarrow> string \<Rightarrow> kstate \<Rightarrow> kstate" where
  "thread_secondary_cpu_init_early cpu t nm s = thread_construct_first cpu t nm s"

definition thread_secondary_cpu_entry ::
  "cpu_env \<Rightarrow> (nat \<Rightarrow> nat \<Rightarrow> kstate \<Rightarrow> kstate) \<Rightarrow> kstate \<Rightarrow> kstate option" where
  "thread_secondary_cpu_entry e run_callback s =
     (let cpu = e_cpu e
      in thread_exit e run_callback 0 (mp_set_cpu_idle cpu (mp_set_curr_cpu_active cpu True s)))"

definition thread_create_idle_thread ::
  "cpu_env \<Rightarrow> cpu_num \<Rightarrow> string \<Rightarrow> nat \<Rightarrow> mx_size \<Rightarrow> bool \<Rightarrow> kstate \<Rightarrow> (tid option \<times> kstate) option" where
  "thread_create_idle_thread e cpu_num nm entry default_stack_size stack_mem s = do {
     kassert (cpu_num \<noteq> 0);
     kassert (\<not> t_magic (threads s (Idle_Thread cpu_num)));
     let (t, s) = thread_create_etc e (Some (Idle_Thread cpu_num)) nm entry 0 IDLE_PRIORITY
                    False default_stack_size None stack_mem s;
     Some (case t of
             None \<Rightarrow> (None, s)
           | Some t \<Rightarrow> (Some t, upd_thread t (\<lambda>th. th\<lparr>t_flags := t_flags th OR THREAD_FLAG_IDLE,
                                                     t_pinned_cpu := int cpu_num\<rparr>) s))
   }"

fun thread_state_to_str :: "thread_state \<Rightarrow> string" where
  "thread_state_to_str THREAD_SUSPENDED = ''susp''"
| "thread_state_to_str THREAD_READY = ''rdy''"
| "thread_state_to_str THREAD_RUNNING = ''run''"
| "thread_state_to_str THREAD_BLOCKED = ''blok''"
| "thread_state_to_str THREAD_SLEEPING = ''slep''"
| "thread_state_to_str THREAD_DEATH = ''deth''"

end
