(* ===== verification/Kernel_Sched.thy ===== *)
theory Kernel_Sched
  imports Kernel_Thread
begin

unbundle bit_operations_syntax

text \<open>
  The invariant of the scheduler and the proof that a reschedule restores it. The invariant says
  that every thread is where its state says: a ready thread is on the run queue of its priority, a
  blocked one on the wait queue it blocks on, a running one is the current thread of exactly one cpu;
  the bitmap and the counts agree with the lists; and a cpu's preemption timer is queued exactly
  when its current thread is subject to preemption. Operations break it for the threads they are
  moving (\<open>E\<close>) and for the cpu whose current thread has stopped (\<open>X\<close> is the cpus that have not),
  and \<^verbatim>\<open>thread_resched\<close> closes it again.
\<close>

section \<open>The invariant\<close>

definition node_lists_ok :: "kstate \<Rightarrow> bool" where
  "node_lists_ok s \<longleftrightarrow> (\<forall>q. distinct (node_lists s q)) \<and>
     (\<forall>q t. t \<in> set (node_lists s q) \<longleftrightarrow> t_queue_node (threads s t) = Some q)"

definition bitmap_ok :: "kstate \<Rightarrow> bool" where
  "bitmap_ok s \<longleftrightarrow> (\<forall>p < 32. bit (run_queue_bitmap s) p \<longleftrightarrow> node_lists s (Run_Queue p) \<noteq> [])"

definition count_ok :: "kstate \<Rightarrow> bool" where
  "count_ok s \<longleftrightarrow> (\<forall>w. wq_count (wait_queues s w) = int (length (node_lists s (Wait_List w))))"

definition place_ok :: "(wq_ref \<Rightarrow> wait_queue) \<Rightarrow> tid \<Rightarrow> thread \<Rightarrow> bool" where
  "place_ok wqs t th \<longleftrightarrow>
     (case t_queue_node th of
        None \<Rightarrow> t_state th \<noteq> THREAD_BLOCKED \<and> (t_state th = THREAD_READY \<longrightarrow> thread_is_idle th) \<and>
                (t_state th = THREAD_SLEEPING \<longrightarrow> \<not> thread_is_idle th) \<and> t_blocking_wait_queue th = None
      | Some (Run_Queue p) \<Rightarrow> t_state th = THREAD_READY \<and> p = t_priority th \<and> \<not> thread_is_idle th \<and>
                t_blocking_wait_queue th = None
      | Some (Wait_List w) \<Rightarrow> t_state th = THREAD_BLOCKED \<and> t_blocking_wait_queue th = Some w \<and>
                wq_magic (wqs w) \<and> \<not> thread_is_idle th)"

definition thread_ok :: "kstate \<Rightarrow> tid \<Rightarrow> bool" where
  "thread_ok s t \<longleftrightarrow> place_ok (wait_queues s) t (threads s t) \<and> t_priority (threads s t) < 32 \<and>
     (t_state (threads s t) \<notin> {THREAD_SUSPENDED, THREAD_DEATH} \<longrightarrow> t_magic (threads s t))"

definition current_ok :: "cpu_num set \<Rightarrow> cpu_num set \<Rightarrow> kstate \<Rightarrow> bool" where
  "current_ok cpus X s \<longleftrightarrow> X \<subseteq> cpus \<and> inj_on (current_thread s) cpus \<and>
     (\<forall>c\<in>X. t_state (threads s (current_thread s c)) = THREAD_RUNNING) \<and>
     (\<forall>t. t_state (threads s t) = THREAD_RUNNING \<longrightarrow> (\<exists>c\<in>X. current_thread s c = t)) \<and>
     (\<forall>c\<in>cpus. \<forall>d\<in>cpus. current_thread s c = Idle_Thread d \<longrightarrow> d = c)"

definition idle_ok :: "cpu_num set \<Rightarrow> kstate \<Rightarrow> bool" where
  "idle_ok cpus s \<longleftrightarrow> (\<forall>t. thread_is_idle (threads s t) \<longleftrightarrow> (\<exists>c\<in>cpus. t = Idle_Thread c)) \<and>
     (\<forall>c\<in>cpus. t_magic (threads s (Idle_Thread c)))"

definition sched_inv :: "cpu_num set \<Rightarrow> cpu_num set \<Rightarrow> tid set \<Rightarrow> kstate \<Rightarrow> bool" where
  "sched_inv cpus X E s \<longleftrightarrow> node_lists_ok s \<and> bitmap_ok s \<and> count_ok s \<and> idle_ok cpus s \<and>
     current_ok cpus X s \<and> (\<forall>t. t \<notin> E \<longrightarrow> thread_ok s t)"

lemma get_top_loop_spec:
  assumes "get_top_loop cpu bm s = (t, s')"
  shows "t = Idle_Thread cpu \<and> s' = s \<and>
      (\<forall>p. bit bm p \<longrightarrow> (\<forall>x\<in>set (node_lists s (Run_Queue p)). \<not> runs_on cpu (threads s x)))
    \<or> (\<exists>p. bit bm p \<and> find (\<lambda>t. runs_on cpu (threads s t)) (node_lists s (Run_Queue p)) = Some t
        \<and> (\<forall>p'>p. bit bm p' \<longrightarrow> (\<forall>x\<in>set (node_lists s (Run_Queue p')). \<not> runs_on cpu (threads s x)))
        \<and> s' = (let s = node_delete t s
                in if node_lists s (Run_Queue p) = []
                   then s\<lparr>run_queue_bitmap := run_queue_bitmap s AND NOT (push_bit p 1)\<rparr> else s))"
  using assms
proof (induction cpu bm s rule: get_top_loop.induct)
  case (1 cpu bm s)
  show ?case
  proof (cases "bm = 0")
    case True
    with 1 show ?thesis by (simp add: get_top_loop.simps)
  next
    case False
    let ?n = "31 - clz32 bm"
    let ?bm = "bm AND NOT (push_bit ?n 1)"
    note hi = clz32_highest [OF False]
    show ?thesis
    proof (cases "find (\<lambda>t. runs_on cpu (threads s t)) (node_lists s (Run_Queue ?n))")
      case (Some x)
      with 1(2) False have "t = x" "s' = (let s = node_delete t s
                in if node_lists s (Run_Queue ?n) = []
                   then s\<lparr>run_queue_bitmap := run_queue_bitmap s AND NOT (push_bit ?n 1)\<rparr> else s)"
        by (auto simp: get_top_loop.simps [of cpu bm s] Let_def)
      with Some hi show ?thesis by blast
    next
      case None
      then have no: "\<forall>x\<in>set (node_lists s (Run_Queue ?n)). \<not> runs_on cpu (threads s x)"
        by (auto simp: find_None_iff)
      have bits: "bit bm p \<longleftrightarrow> p = ?n \<or> bit ?bm p" for p
        using hi(2) bit_imp_le_length [of bm p] by (auto simp: bit_and_iff bit_not_iff bit_push_bit_one_iff)
      have nb: "\<not> bit ?bm ?n"
        using hi(1) by (auto simp: bit_and_iff bit_not_iff bit_push_bit_one_iff)
      have "get_top_loop cpu ?bm s = (t, s')"
        using 1(2) False None by (simp add: get_top_loop.simps [of cpu bm s] Let_def)
      from 1(1) [OF False refl None this] show ?thesis
        using no nb by (auto simp: bits)
    qed
  qed
qed

section \<open>The choice of the next thread, and frames\<close>

definition same_sched :: "kstate \<Rightarrow> kstate \<Rightarrow> bool" where
  "same_sched s s' \<longleftrightarrow> threads s' = threads s \<and> node_lists s' = node_lists s \<and>
     run_queue_bitmap s' = run_queue_bitmap s \<and> wait_queues s' = wait_queues s \<and>
     current_thread s' = current_thread s"

definition same_timers :: "kstate \<Rightarrow> kstate \<Rightarrow> bool" where
  "same_timers s s' \<longleftrightarrow> timer_tab s' = timer_tab s \<and> timer_queue s' = timer_queue s \<and> hw_timer s' = hw_timer s"

lemma same_sched_inv: "same_sched s s' \<Longrightarrow> sched_inv cpus X E s' = sched_inv cpus X E s"
  by (simp add: same_sched_def sched_inv_def node_lists_ok_def bitmap_ok_def count_ok_def idle_ok_def
      current_ok_def thread_ok_def)

lemma same_sched_refl [simp]: "same_sched s s"
  by (simp add: same_sched_def)

lemma same_timers_refl [simp]: "same_timers s s"
  by (simp add: same_timers_def)

lemma same_timers_trans: "same_timers s s' \<Longrightarrow> same_timers s' s'' \<Longrightarrow> same_timers s s''"
  by (simp add: same_timers_def)

lemma same_sched_timer_cancel: "same_sched s (timer_cancel c n t s)"
  by (simp add: same_sched_def timer_cancel_def Let_def platform_stop_timer_def
      platform_set_oneshot_timer_def split: option.split)

lemma same_sched_timer_set:
  "timer_set cs c n t d p cb s = Some s' \<Longrightarrow> same_sched s s'"
  by (auto simp: same_sched_def timer_set_def Let_def insert_timer_in_queue_def
      platform_set_oneshot_timer_def split: if_splits)

lemma same_sched_timer_set_oneshot:
  "timer_set_oneshot cs c n t d cb s = Some s' \<Longrightarrow> same_sched s s'"
  unfolding timer_set_oneshot_def by (rule same_sched_timer_set)

lemma same_sched_timer_set_periodic:
  "timer_set_periodic cs c n t d cb s = Some s' \<Longrightarrow> same_sched s s'"
  unfolding timer_set_periodic_def Let_def by (rule same_sched_timer_set)

lemma same_sched_timer_initialize: "same_sched s (timer_initialize t s)"
  by (simp add: same_sched_def timer_initialize_def)

lemma same_mp_reschedule [simp]:
  "same_sched s (mp_reschedule c tgt r s)" "same_timers s (mp_reschedule c tgt r s)"
  by (simp_all add: same_sched_def same_timers_def mp_reschedule_def Let_def)

lemma same_mp_set [simp]:
  "same_sched s (mp_set_cpu_idle c s)" "same_sched s (mp_set_cpu_busy c s)"
  "same_sched s (mp_set_cpu_realtime c s)" "same_sched s (mp_set_cpu_non_realtime c s)"
  "same_timers s (mp_set_cpu_idle c s)" "same_timers s (mp_set_cpu_busy c s)"
  "same_timers s (mp_set_cpu_realtime c s)" "same_timers s (mp_set_cpu_non_realtime c s)"
  by (simp_all add: same_sched_def same_timers_def mp_set_cpu_idle_def mp_set_cpu_busy_def
      mp_set_cpu_realtime_def mp_set_cpu_non_realtime_def)

lemma upd_thread_sel [simp]:
  "threads (upd_thread t f s) = (threads s)(t := f (threads s t))"
  "node_lists (upd_thread t f s) = node_lists s"
  "run_queue_bitmap (upd_thread t f s) = run_queue_bitmap s"
  "wait_queues (upd_thread t f s) = wait_queues s"
  "current_thread (upd_thread t f s) = current_thread s"
  "same_timers s (upd_thread t f s)"
  by (simp_all add: upd_thread_def same_timers_def)

lemma upd_wq_sel [simp]:
  "threads (upd_wq w f s) = threads s" "node_lists (upd_wq w f s) = node_lists s"
  "run_queue_bitmap (upd_wq w f s) = run_queue_bitmap s"
  "wait_queues (upd_wq w f s) = (wait_queues s)(w := f (wait_queues s w))"
  "current_thread (upd_wq w f s) = current_thread s" "same_timers s (upd_wq w f s)"
  by (simp_all add: upd_wq_def same_timers_def)

section \<open>The steps operations are made of\<close>

text \<open>
  \<open>E\<close> collects the threads an operation is in the middle of moving: their place need not fit their
  state yet.
\<close>

lemma sched_inv_close:
  assumes "sched_inv cpus X (insert t E) s" "thread_ok s t"
  shows "sched_inv cpus X (E - {t}) s"
  using assms by (auto simp: sched_inv_def)

lemma sched_inv_weaken: "sched_inv cpus X E s \<Longrightarrow> E \<subseteq> E' \<Longrightarrow> sched_inv cpus X E' s"
  by (auto simp: sched_inv_def)

lemma sched_inv_upd_thread:
  assumes inv: "sched_inv cpus X E s"
    and qn: "t_queue_node (f (threads s t)) = t_queue_node (threads s t)"
    and st: "t_state (f (threads s t)) = THREAD_RUNNING \<longleftrightarrow> t_state (threads s t) = THREAD_RUNNING"
    and id: "thread_is_idle (f (threads s t)) = thread_is_idle (threads s t)"
    and mg: "thread_is_idle (threads s t) \<Longrightarrow> t_magic (f (threads s t))"
  shows "sched_inv cpus X (insert t E) (upd_thread t f s)"
  using inv qn st id mg
  unfolding sched_inv_def node_lists_ok_def bitmap_ok_def count_ok_def idle_ok_def current_ok_def thread_ok_def
  by (auto simp: fun_upd_def split: if_splits)

text \<open>The current thread of a cpu leaves the running state.\<close>

lemma sched_inv_stop_current:
  assumes inv: "sched_inv cpus X E s" and c: "cpu \<in> X" and t: "t = current_thread s cpu"
    and qn: "t_queue_node (f (threads s t)) = t_queue_node (threads s t)"
    and st: "t_state (f (threads s t)) \<noteq> THREAD_RUNNING"
    and id: "thread_is_idle (f (threads s t)) = thread_is_idle (threads s t)"
    and mg: "thread_is_idle (threads s t) \<Longrightarrow> t_magic (f (threads s t))"
  shows "sched_inv cpus (X - {cpu}) (insert t E) (upd_thread t f s)"
proof -
  have inj: "current_thread s c' \<noteq> t" if "c' \<in> X - {cpu}" for c'
    using inv that c t by (auto simp: sched_inv_def current_ok_def inj_on_def subset_iff)
  have "current_ok cpus (X - {cpu}) (upd_thread t f s)"
    using inv inj st t unfolding sched_inv_def current_ok_def by auto
  then show ?thesis
    using inv qn id mg
    unfolding sched_inv_def node_lists_ok_def bitmap_ok_def count_ok_def idle_ok_def thread_ok_def
    by (auto simp: fun_upd_def split: if_splits)
qed

text \<open>Linking a ready thread into its run queue, at either end.\<close>

lemma sched_inv_enqueue:
  assumes inv: "sched_inv cpus X (insert t E) s"
    and th: "t_magic (threads s t)" "t_state (threads s t) = THREAD_READY" "t_queue_node (threads s t) = None"
      "t_priority (threads s t) = p" "p < 32" "\<not> thread_is_idle (threads s t)"
      "t_blocking_wait_queue (threads s t) = None"
    and ys: "distinct ys" "set ys = insert t (set (node_lists s (Run_Queue p)))"
  shows "sched_inv cpus X (E - {t}) (s\<lparr>threads := (threads s)(t := (threads s t)\<lparr>t_queue_node := Some (Run_Queue p)\<rparr>),
      node_lists := (node_lists s)(Run_Queue p := ys), run_queue_bitmap := run_queue_bitmap s OR push_bit p 1\<rparr>)"
    (is "sched_inv _ _ _ ?s")
proof -
  have "bitmap_ok ?s"
    using inv th(5) ys(2) by (auto simp: sched_inv_def bitmap_ok_def bit_or_iff bit_push_bit_one_iff)
  moreover have "node_lists_ok ?s"
    using inv ys th(3) by (auto simp: sched_inv_def node_lists_ok_def)
  moreover have "count_ok ?s" "idle_ok cpus ?s" "current_ok cpus X ?s"
    using inv th unfolding sched_inv_def count_ok_def idle_ok_def current_ok_def
    by (auto simp: thread_is_idle_def)
  moreover have "thread_ok ?s x" if "x \<notin> E - {t}" for x
    using inv th that by (auto simp: sched_inv_def thread_ok_def place_ok_def thread_is_idle_def)
  ultimately show ?thesis by (simp add: sched_inv_def)
qed

definition enqueued :: "tid \<Rightarrow> kstate \<Rightarrow> kstate \<Rightarrow> bool" where
  "enqueued t s s' \<longleftrightarrow> same_timers s s' \<and> current_thread s' = current_thread s \<and> wait_queues s' = wait_queues s
     \<and> threads s' = (threads s)(t := (threads s t)\<lparr>t_queue_node := Some (Run_Queue (t_priority (threads s t)))\<rparr>)
     \<and> (\<forall>q. q \<noteq> Run_Queue (t_priority (threads s t)) \<longrightarrow> node_lists s' q = node_lists s q)"

lemma insert_in_run_queue_inv:
  assumes inv: "sched_inv cpus X (insert t E) s"
    and th: "t_magic (threads s t)" "t_state (threads s t) = THREAD_READY" "t_queue_node (threads s t) = None"
      "t_priority (threads s t) < 32" "\<not> thread_is_idle (threads s t)"
      "t_blocking_wait_queue (threads s t) = None"
  shows "\<exists>s'. insert_in_run_queue_head t s = Some s' \<and> sched_inv cpus X (E - {t}) s' \<and> enqueued t s s'
      \<and> node_lists s' (Run_Queue (t_priority (threads s t))) = t # node_lists s (Run_Queue (t_priority (threads s t)))"
    "\<exists>s'. insert_in_run_queue_tail t s = Some s' \<and> sched_inv cpus X (E - {t}) s' \<and> enqueued t s s'
      \<and> node_lists s' (Run_Queue (t_priority (threads s t))) = node_lists s (Run_Queue (t_priority (threads s t))) @ [t]"
proof -
  let ?p = "t_priority (threads s t)"
  have "t \<notin> set (node_lists s (Run_Queue ?p))" "distinct (node_lists s (Run_Queue ?p))"
    using inv th(3) by (auto simp: sched_inv_def node_lists_ok_def)
  then show "\<exists>s'. insert_in_run_queue_head t s = Some s' \<and> sched_inv cpus X (E - {t}) s' \<and> enqueued t s s'
      \<and> node_lists s' (Run_Queue ?p) = t # node_lists s (Run_Queue ?p)"
    "\<exists>s'. insert_in_run_queue_tail t s = Some s' \<and> sched_inv cpus X (E - {t}) s' \<and> enqueued t s s'
      \<and> node_lists s' (Run_Queue ?p) = node_lists s (Run_Queue ?p) @ [t]"
    using sched_inv_enqueue [OF inv th(1-3) refl th(4-6), of "t # node_lists s (Run_Queue ?p)"]
      sched_inv_enqueue [OF inv th(1-3) refl th(4-6), of "node_lists s (Run_Queue ?p) @ [t]"] th(1-3)
    by (simp_all add: insert_in_run_queue_head_def insert_in_run_queue_tail_def node_add_head_def
        node_add_tail_def upd_thread_def Let_def enqueued_def same_timers_def)
qed

text \<open>Unlinking a thread from the list it is on.\<close>

lemma node_lists_ok_delete:
  assumes "node_lists_ok s"
  shows "node_lists_ok (node_delete t s)"
  using assms by (auto simp: node_lists_ok_def node_delete_def set_remove1_eq split: option.split if_splits)


lemma sched_inv_dequeue_run:
  assumes inv: "sched_inv cpus X E s" and q: "t_queue_node (threads s t) = Some (Run_Queue p)" and p: "p < 32"
    and s': "s' = (let s = node_delete t s
                in if node_lists s (Run_Queue p) = []
                   then s\<lparr>run_queue_bitmap := run_queue_bitmap s AND NOT (push_bit p 1)\<rparr> else s)"
  shows "sched_inv cpus X (insert t E) s'"
    "threads s' = (threads s)(t := (threads s t)\<lparr>t_queue_node := None\<rparr>)"
    "current_thread s' = current_thread s" "wait_queues s' = wait_queues s" "same_timers s s'"
    "node_lists s' = (node_lists s)(Run_Queue p := remove1 t (node_lists s (Run_Queue p)))"
proof -
  show th: "threads s' = (threads s)(t := (threads s t)\<lparr>t_queue_node := None\<rparr>)"
    and cu: "current_thread s' = current_thread s" "wait_queues s' = wait_queues s" "same_timers s s'"
    and nl: "node_lists s' = (node_lists s)(Run_Queue p := remove1 t (node_lists s (Run_Queue p)))"
    using q by (auto simp: s' node_delete_def Let_def same_timers_def upd_thread_def)
  have "node_lists_ok s'"
    using inv q nl th by (auto simp: sched_inv_def node_lists_ok_def set_remove1_eq split: if_splits)
  moreover have "bit (run_queue_bitmap s') i \<longleftrightarrow>
      (if i = p then bit (run_queue_bitmap s) p \<and> node_lists s' (Run_Queue p) \<noteq> [] else bit (run_queue_bitmap s) i)"
    if "i < 32" for i
    using that p q
    by (auto simp: s' nl Let_def node_delete_def bit_and_iff bit_not_iff bit_push_bit_one_iff)
  moreover have "node_lists s (Run_Queue p) \<noteq> []"
    using inv q by (metis empty_iff empty_set node_lists_ok_def sched_inv_def)
  ultimately show "sched_inv cpus X (insert t E) s'"
    using inv p nl
    unfolding sched_inv_def bitmap_ok_def count_ok_def idle_ok_def current_ok_def thread_ok_def th cu
    by (auto simp: thread_is_idle_def)
qed

lemma sched_inv_dequeue_wait:
  assumes inv: "sched_inv cpus X E s" and q: "t_queue_node (threads s t) = Some (Wait_List w)"
    and s': "s' = upd_wq w (\<lambda>q. q\<lparr>wq_count := wq_count q - 1\<rparr>) (node_delete t s)"
  shows "sched_inv cpus X (insert t E) s'"
    "threads s' = (threads s)(t := (threads s t)\<lparr>t_queue_node := None\<rparr>)"
    "current_thread s' = current_thread s" "same_timers s s'"
    "\<And>v. wq_magic (wait_queues s' v) = wq_magic (wait_queues s v)"
    "node_lists s' = (node_lists s)(Wait_List w := remove1 t (node_lists s (Wait_List w)))"
proof -
  show th: "threads s' = (threads s)(t := (threads s t)\<lparr>t_queue_node := None\<rparr>)"
    and cu: "current_thread s' = current_thread s" "same_timers s s'"
    and nl: "node_lists s' = (node_lists s)(Wait_List w := remove1 t (node_lists s (Wait_List w)))"
    and wm: "\<And>v. wq_magic (wait_queues s' v) = wq_magic (wait_queues s v)"
    using q by (auto simp: s' node_delete_def Let_def same_timers_def upd_thread_def upd_wq_def)
  have bm: "run_queue_bitmap s' = run_queue_bitmap s" "wait_queues s' =
      (wait_queues s)(w := (wait_queues s w)\<lparr>wq_count := wq_count (wait_queues s w) - 1\<rparr>)"
    using q by (auto simp: s' node_delete_def upd_thread_def)
  have "node_lists_ok s'"
    using inv q nl th by (auto simp: sched_inv_def node_lists_ok_def set_remove1_eq split: if_splits)
  moreover have "t \<in> set (node_lists s (Wait_List w))"
    using inv q by (auto simp: sched_inv_def node_lists_ok_def)
  then have "length (node_lists s (Wait_List w)) = Suc (length (remove1 t (node_lists s (Wait_List w))))"
    by (auto simp: length_remove1) (metis Suc_pred length_pos_if_in_set)
  moreover have "place_ok (wait_queues s') x (threads s x) = place_ok (wait_queues s) x (threads s x)" for x
    by (simp add: place_ok_def wm split: option.split queue_ref.split)
  ultimately show "sched_inv cpus X (insert t E) s'"
    using inv nl
    unfolding sched_inv_def bitmap_ok_def count_ok_def idle_ok_def current_ok_def thread_ok_def th cu bm
    by (auto simp: thread_is_idle_def)
qed

section \<open>Timers of the scheduler\<close>

definition preempt_ok :: "cpu_num list \<Rightarrow> kstate \<Rightarrow> bool" where
  "preempt_ok cpus s \<longleftrightarrow> (\<forall>c\<in>set cpus. Preempt_Timer c \<in> all_queued s \<longleftrightarrow>
     \<not> thread_is_real_time_or_idle (threads s (current_thread s c))) \<and>
     (\<forall>c. Preempt_Timer c \<in> all_queued s \<longrightarrow> periodic_time (timer_tab s (Preempt_Timer c)) > 0)"

fun kcb_ok :: "kcallback \<Rightarrow> kstate \<Rightarrow> bool" where
  "kcb_ok (CB_thread_sleep_handler t) s = t_magic (threads s t)"
| "kcb_ok (CB_wait_queue_timeout_handler t) s = t_magic (threads s t)"
| "kcb_ok CB_thread_timer_tick s = True"

definition ktimer_inv :: "lk_time \<Rightarrow> cpu_num list \<Rightarrow> kstate \<Rightarrow> bool" where
  "ktimer_inv base cpus s \<longleftrightarrow> timer_inv base cpus s \<and> callbacks_ok kcb_ok s \<and> preempt_ok cpus s"

definition kinv :: "lk_time \<Rightarrow> cpu_num list \<Rightarrow> cpu_num set \<Rightarrow> tid set \<Rightarrow> kstate \<Rightarrow> bool" where
  "kinv base cpus X E s \<longleftrightarrow> sched_inv (set cpus) X E s \<and> ktimer_inv base cpus s"

definition env_ok :: "lk_time \<Rightarrow> cpu_env \<Rightarrow> bool" where
  "env_ok base e \<longleftrightarrow> e_cpu e \<in> set (e_cpus e) \<and> tdist base (e_now e) < 2 ^ 30"

lemma same_timers_inv:
  assumes "same_timers s s'"
  shows "timer_inv base cpus s' = timer_inv base cpus s" "all_queued s' = all_queued s"
  using assms timer_inv_cong [of s' s] by (simp_all add: same_timers_def all_queued_def)

lemma ktimer_inv_frame:
  assumes "ktimer_inv base cpus s" "same_timers s s'" "current_thread s' = current_thread s"
    and "\<And>t. t_magic (threads s t) \<Longrightarrow> t_magic (threads s' t)"
    and "\<And>t. thread_is_real_time_or_idle (threads s' t) = thread_is_real_time_or_idle (threads s t)"
  shows "ktimer_inv base cpus s'"
proof -
  have "kcb_ok c s \<Longrightarrow> kcb_ok c s'" for c using assms(4) by (cases c) auto
  then show ?thesis
    using assms unfolding ktimer_inv_def same_timers_inv [OF assms(2)] preempt_ok_def callbacks_ok_def
    by (auto simp: same_timers_def)
qed

lemma ktimer_inv_timer_cancel:
  assumes inv: "ktimer_inv base cpus s" and t: "\<And>c. t \<noteq> Preempt_Timer c"
  shows "ktimer_inv base cpus (timer_cancel cpu now t s)"
proof -
  note tc = timer_cancel_inv [of base cpus s cpu now t]
  have tb: "timer_tab (timer_cancel cpu now t s) x = timer_tab s x" if "x \<noteq> t" for x
    using that by (simp add: timer_cancel_def Let_def split: option.split)
  note [simp] = same_sched_timer_cancel [of s cpu now t, unfolded same_sched_def]
  have "kcb_ok c (timer_cancel cpu now t s) = kcb_ok c s" for c by (cases c) auto
  then show ?thesis
    using inv tc t tb by (auto simp: ktimer_inv_def preempt_ok_def callbacks_ok_def)
qed

lemma timer_set_tab:
  "timer_set cs c n t d p cb s = Some s' \<Longrightarrow> timer_tab s' = (timer_tab s)(t := \<lparr>scheduled_time = n + (d + 1), periodic_time = p, callback = Some cb\<rparr>)"
  by (auto simp: timer_set_def Let_def split: if_splits)

lemma ktimer_inv_timer_set:
  assumes inv: "ktimer_inv base cpus s" and c: "cpu \<in> set cpus" and t: "\<And>c. t \<noteq> Preempt_Timer c"
    and win: "tdist base now + unat delay + 1 < 2 ^ 31"
    and nin: "t \<notin> all_queued s" and cb: "kcb_ok cb s"
  shows "\<exists>s'. timer_set cpus cpu now t delay 0 cb s = Some s' \<and> ktimer_inv base cpus s' \<and> same_sched s s'
    \<and> all_queued s' = insert t (all_queued s)"
proof -
  have ti: "timer_inv base cpus s" using inv by (simp add: ktimer_inv_def)
  obtain s' where s': "timer_set cpus cpu now t delay 0 cb s = Some s'"
    using timer_set_returns [OF ti nin] by blast
  note st = timer_set_inv [OF ti c win _ s']
  have ss: "same_sched s s'" using s' by (rule same_sched_timer_set)
  then have "kcb_ok c s' = kcb_ok c s" for c by (cases c) (auto simp: same_sched_def)
  then have "ktimer_inv base cpus s'"
    using inv st t cb ss timer_set_tab [OF s']
    by (auto simp: ktimer_inv_def preempt_ok_def callbacks_ok_def same_sched_def)
  with s' ss st show ?thesis by auto
qed


lemma kinv_upd_thread:
  assumes inv: "kinv base cpus X E s"
    and "t_queue_node (f (threads s t)) = t_queue_node (threads s t)"
    and "t_state (f (threads s t)) = THREAD_RUNNING \<longleftrightarrow> t_state (threads s t) = THREAD_RUNNING"
    and "t_flags (f (threads s t)) = t_flags (threads s t)"
    and "t_magic (f (threads s t)) = t_magic (threads s t)"
  shows "kinv base cpus X (insert t E) (upd_thread t f s)"
proof -
  have si: "sched_inv (set cpus) X E s" and ti: "ktimer_inv base cpus s" using inv by (auto simp: kinv_def)
  have mg: "thread_is_idle (threads s t) \<Longrightarrow> t_magic (f (threads s t))"
    using si unfolding assms(5) by (auto simp: sched_inv_def idle_ok_def)
  have id: "thread_is_idle (f (threads s t)) = thread_is_idle (threads s t)"
    by (simp only: thread_is_idle_def assms(4))
  have "ktimer_inv base cpus (upd_thread t f s)"
    using ti by (rule ktimer_inv_frame) (auto simp: assms(4,5) thread_is_real_time_or_idle_def)
  with sched_inv_upd_thread [where f = f and t = t, OF si assms(2,3) id mg] show ?thesis
    by (simp only: kinv_def simp_thms)
qed

lemma kinv_stop_current:
  assumes inv: "kinv base cpus X E s" and c: "cpu \<in> X" and t: "t = current_thread s cpu"
    and "t_queue_node (f (threads s t)) = t_queue_node (threads s t)"
    and "t_state (f (threads s t)) \<noteq> THREAD_RUNNING"
    and "t_flags (f (threads s t)) = t_flags (threads s t)"
    and "t_magic (f (threads s t)) = t_magic (threads s t)"
  shows "kinv base cpus (X - {cpu}) (insert t E) (upd_thread t f s)"
proof -
  have si: "sched_inv (set cpus) X E s" and ti: "ktimer_inv base cpus s" using inv by (auto simp: kinv_def)
  have mg: "thread_is_idle (threads s t) \<Longrightarrow> t_magic (f (threads s t))"
    using si unfolding assms(7) by (auto simp: sched_inv_def idle_ok_def)
  have id: "thread_is_idle (f (threads s t)) = thread_is_idle (threads s t)"
    by (simp only: thread_is_idle_def assms(6))
  have "ktimer_inv base cpus (upd_thread t f s)"
    using ti by (rule ktimer_inv_frame) (auto simp: assms(6,7) thread_is_real_time_or_idle_def)
  with sched_inv_stop_current [where f = f, OF si c t assms(4,5) id mg] show ?thesis
    by (simp only: kinv_def simp_thms)
qed

definition ready_to_queue :: "tid \<Rightarrow> kstate \<Rightarrow> bool" where
  "ready_to_queue t s \<longleftrightarrow> t_magic (threads s t) \<and> t_state (threads s t) = THREAD_READY \<and>
     t_queue_node (threads s t) = None \<and> t_priority (threads s t) < 32 \<and> \<not> thread_is_idle (threads s t) \<and>
     t_blocking_wait_queue (threads s t) = None"

lemma kinv_enqueued:
  assumes "ktimer_inv base cpus s" "enqueued t s s'"
  shows "ktimer_inv base cpus s'"
  using assms(2) by (intro ktimer_inv_frame [OF assms(1)]) (auto simp: enqueued_def thread_is_real_time_or_idle_def)

lemma kinv_insert_head:
  assumes "kinv base cpus X (insert t E) s" "ready_to_queue t s"
  shows "\<exists>s'. insert_in_run_queue_head t s = Some s' \<and> kinv base cpus X (E - {t}) s' \<and> enqueued t s s'
      \<and> node_lists s' (Run_Queue (t_priority (threads s t))) = t # node_lists s (Run_Queue (t_priority (threads s t)))"
proof -
  have "sched_inv (set cpus) X (insert t E) s" and ti: "ktimer_inv base cpus s"
    using assms(1) by (simp_all add: kinv_def)
  note i = insert_in_run_queue_inv(1) [OF this(1)]
  have "t_magic (threads s t)" "t_state (threads s t) = THREAD_READY" "t_queue_node (threads s t) = None"
      "t_priority (threads s t) < 32" "\<not> thread_is_idle (threads s t)"
      "t_blocking_wait_queue (threads s t) = None"
    using assms(2) by (simp_all add: ready_to_queue_def)
  from i [OF this] show ?thesis
    unfolding kinv_def by (elim exE conjE, intro exI conjI) (assumption | erule kinv_enqueued [OF ti])+
qed

lemma kinv_insert_tail:
  assumes "kinv base cpus X (insert t E) s" "ready_to_queue t s"
  shows "\<exists>s'. insert_in_run_queue_tail t s = Some s' \<and> kinv base cpus X (E - {t}) s' \<and> enqueued t s s'
      \<and> node_lists s' (Run_Queue (t_priority (threads s t))) = node_lists s (Run_Queue (t_priority (threads s t))) @ [t]"
proof -
  have "sched_inv (set cpus) X (insert t E) s" and ti: "ktimer_inv base cpus s"
    using assms(1) by (simp_all add: kinv_def)
  note i = insert_in_run_queue_inv(2) [OF this(1)]
  have "t_magic (threads s t)" "t_state (threads s t) = THREAD_READY" "t_queue_node (threads s t) = None"
      "t_priority (threads s t) < 32" "\<not> thread_is_idle (threads s t)"
      "t_blocking_wait_queue (threads s t) = None"
    using assms(2) by (simp_all add: ready_to_queue_def)
  from i [OF this] show ?thesis
    unfolding kinv_def by (elim exE conjE, intro exI conjI) (assumption | erule kinv_enqueued [OF ti])+
qed

lemma kinv_same:
  assumes "kinv base cpus X E s" "same_sched s s'" "same_timers s s'"
  shows "kinv base cpus X E s'"
  using assms ktimer_inv_frame [of base cpus s s'] same_sched_inv [OF assms(2), of "set cpus" X E]
  by (auto simp: kinv_def same_sched_def)

section \<open>The reschedule\<close>

definition chosen :: "cpu_num \<Rightarrow> kstate \<Rightarrow> tid" where
  "chosen cpu s = fst (get_top_thread cpu s)"

lemma kinv_get_top:
  assumes inv: "kinv base cpus X {} s" and g: "get_top_thread cpu s = (t, s')"
    and cpu: "cpu \<in> set cpus" "cpu \<notin> X"
  shows "kinv base cpus X {t} s'" "t_magic (threads s t)" "t_blocking_wait_queue (threads s t) = None"
    "threads s' = (threads s)(t := (threads s t)\<lparr>t_queue_node := None\<rparr>)" "current_thread s' = current_thread s"
    "t_priority (threads s t) < 32" "same_timers s s'" "wait_queues s' = wait_queues s"
    "\<And>c. c \<in> X \<Longrightarrow> current_thread s c \<noteq> t" "t_state (threads s t) \<noteq> THREAD_BLOCKED"
    "\<And>d. d \<in> set cpus \<Longrightarrow> t = Idle_Thread d \<Longrightarrow> d = cpu"
    "\<And>w. node_lists s' (Wait_List w) = node_lists s (Wait_List w)"
    "t_state (threads s t) = THREAD_READY \<or> thread_is_idle (threads s t)"
proof -
  have si: "sched_inv (set cpus) X {} s" and tok: "thread_ok s t" and ti: "ktimer_inv base cpus s"
    using inv by (auto simp: kinv_def sched_inv_def)
  consider (idle) "t = Idle_Thread cpu" "s' = s"
    | (run) p where "p < 32" "t \<in> set (node_lists s (Run_Queue p))"
        "s' = (let s = node_delete t s
                in if node_lists s (Run_Queue p) = []
                   then s\<lparr>run_queue_bitmap := run_queue_bitmap s AND NOT (push_bit p 1)\<rparr> else s)"
    using get_top_loop_spec [OF g [unfolded get_top_thread_def]] bit_imp_le_length [of "run_queue_bitmap s"]
    by (auto simp: find_Some_iff) (metis nth_mem)
  note cases = this
  have "kinv base cpus X {t} s' \<and> t_magic (threads s t) \<and> t_blocking_wait_queue (threads s t) = None
    \<and> threads s' = (threads s)(t := (threads s t)\<lparr>t_queue_node := None\<rparr>) \<and> current_thread s' = current_thread s
    \<and> same_timers s s' \<and> wait_queues s' = wait_queues s \<and> (\<forall>c\<in>X. current_thread s c \<noteq> t)
    \<and> t_state (threads s t) \<noteq> THREAD_BLOCKED \<and> (\<forall>d\<in>set cpus. t = Idle_Thread d \<longrightarrow> d = cpu)
    \<and> (\<forall>w. node_lists s' (Wait_List w) = node_lists s (Wait_List w))
    \<and> (t_state (threads s t) = THREAD_READY \<or> thread_is_idle (threads s t))"
  proof (cases rule: cases)
    case idle
    have "thread_is_idle (threads s t)" "t_magic (threads s t)" using si idle cpu by (auto simp: sched_inv_def idle_ok_def)
    moreover have "t_queue_node (threads s t) = None" "t_blocking_wait_queue (threads s t) = None"
      "t_state (threads s t) \<noteq> THREAD_BLOCKED"
      using tok calculation by (auto simp: thread_ok_def place_ok_def split: option.splits queue_ref.splits)
    moreover have "current_thread s c \<noteq> t" if "c \<in> X" for c
      using si that cpu idle by (auto simp: sched_inv_def current_ok_def)
    moreover have "kinv base cpus X {t} s" using inv by (auto simp: kinv_def intro: sched_inv_weaken)
    ultimately show ?thesis using idle by auto
  next
    case (run p)
    have qn: "t_queue_node (threads s t) = Some (Run_Queue p)"
      using si run by (auto simp: sched_inv_def node_lists_ok_def)
    note d = sched_inv_dequeue_run [OF si qn run(1,3)]
    have "ktimer_inv base cpus s'"
      using d(2,3,5) by (intro ktimer_inv_frame [OF ti]) (auto simp: thread_is_real_time_or_idle_def)
    moreover have th: "t_state (threads s t) = THREAD_READY" "t_magic (threads s t)" "t_blocking_wait_queue (threads s t) = None"
      using tok qn by (auto simp: thread_ok_def place_ok_def)
    moreover have "t \<noteq> Idle_Thread d" if "d \<in> set cpus" for d
      using tok qn si that by (auto simp: thread_ok_def place_ok_def sched_inv_def idle_ok_def)
    moreover have "current_thread s c \<noteq> t" if "c \<in> X" for c
      using si that th(1) by (auto simp: sched_inv_def current_ok_def)
    ultimately show ?thesis using d by (auto simp: kinv_def)
  qed
  with tok show "kinv base cpus X {t} s'" "t_magic (threads s t)" "t_blocking_wait_queue (threads s t) = None"
    "threads s' = (threads s)(t := (threads s t)\<lparr>t_queue_node := None\<rparr>)" "current_thread s' = current_thread s"
    "t_priority (threads s t) < 32" "same_timers s s'" "wait_queues s' = wait_queues s"
    "\<And>c. c \<in> X \<Longrightarrow> current_thread s c \<noteq> t" "t_state (threads s t) \<noteq> THREAD_BLOCKED"
    "\<And>d. d \<in> set cpus \<Longrightarrow> t = Idle_Thread d \<Longrightarrow> d = cpu"
    "\<And>w. node_lists s' (Wait_List w) = node_lists s (Wait_List w)"
    "t_state (threads s t) = THREAD_READY \<or> thread_is_idle (threads s t)"
    by (auto simp: thread_ok_def)
qed

definition core_eq :: "thread \<Rightarrow> thread \<Rightarrow> bool" where
  "core_eq th th' \<longleftrightarrow> t_queue_node th' = t_queue_node th \<and> t_flags th' = t_flags th \<and>
     t_priority th' = t_priority th \<and> t_magic th' = t_magic th \<and> t_blocking_wait_queue th' = t_blocking_wait_queue th"

lemma core_eq_idle: "core_eq th th' \<Longrightarrow> thread_is_idle th' = thread_is_idle th"
  "core_eq th th' \<Longrightarrow> thread_is_real_time_or_idle th' = thread_is_real_time_or_idle th"
  by (simp_all add: core_eq_def thread_is_idle_def thread_is_real_time_or_idle_def)

lemma sched_inv_start:
  assumes inv: "sched_inv cpus (cpus - {cpu}) {t} s" and cpu: "cpu \<in> cpus"
    and t: "t_queue_node (threads s t) = None" "t_magic (threads s t)" "t_blocking_wait_queue (threads s t) = None"
      "t_priority (threads s t) < 32" "\<And>c. c \<in> cpus - {cpu} \<Longrightarrow> current_thread s c \<noteq> t"
      "\<And>d. d \<in> cpus \<Longrightarrow> t = Idle_Thread d \<Longrightarrow> d = cpu"
    and fr: "\<And>x. core_eq (threads s x) (threads s' x)"
      "\<And>x. t_state (threads s' x) = (if x = t then THREAD_RUNNING else t_state (threads s x))"
      "node_lists s' = node_lists s" "run_queue_bitmap s' = run_queue_bitmap s" "wait_queues s' = wait_queues s"
      "current_thread s' = (current_thread s)(cpu := t)"
  shows "sched_inv cpus cpus {} s'"
proof -
  have "thread_ok s' x" for x
  proof (cases "x = t")
    case True
    then show ?thesis using t fr(1) [of t] fr(2) [of t] by (simp add: thread_ok_def place_ok_def core_eq_def)
  next
    case False
    then have "thread_ok s x" using inv by (auto simp: sched_inv_def)
    then show ?thesis
      using False fr(1) [of x] fr(2) [of x] core_eq_idle(1) [OF fr(1) [of x]]
      by (simp add: thread_ok_def place_ok_def core_eq_def fr(5) cong: option.case_cong queue_ref.case_cong)
  qed
  moreover have "node_lists_ok s'" "bitmap_ok s'" "count_ok s'" "idle_ok cpus s'"
    using inv fr(1) core_eq_idle [OF fr(1)]
    by (simp_all add: sched_inv_def node_lists_ok_def bitmap_ok_def count_ok_def idle_ok_def fr(3-5) core_eq_def)
  moreover have co: "current_ok cpus (cpus - {cpu}) s" using inv by (simp add: sched_inv_def)
  have "current_ok cpus cpus s'"
  proof -
    have "inj_on (current_thread s') cpus"
      using co t(5) by (auto simp: fr(6) current_ok_def inj_on_def)
    moreover have "\<exists>c\<in>cpus. current_thread s' c = x" if x: "t_state (threads s' x) = THREAD_RUNNING" for x
    proof (cases "x = t")
      case True
      then show ?thesis using cpu by (auto simp: fr(6))
    next
      case False
      with x have "t_state (threads s x) = THREAD_RUNNING" by (simp add: fr(2))
      then obtain c where "c \<in> cpus - {cpu}" "current_thread s c = x"
        using co unfolding current_ok_def by blast
      then show ?thesis by (auto simp: fr(6) intro: bexI [of _ c])
    qed
    ultimately show ?thesis
      using co t(5,6) by (auto simp: current_ok_def fr(2,6))
  qed
  ultimately show ?thesis by (simp add: sched_inv_def)
qed

lemma switch_preempt_timer_inv:
  assumes inv: "ktimer_inv base cpus s" and e: "env_ok base e" "e_cpus e = cpus"
    and old: "old = threads s (current_thread s (e_cpu e))"
  shows "\<exists>s'. switch_preempt_timer e old new s = Some s' \<and> same_sched s s' \<and> timer_inv base cpus s'
    \<and> callbacks_ok kcb_ok s' \<and> (Preempt_Timer (e_cpu e) \<in> all_queued s' \<longleftrightarrow> \<not> thread_is_real_time_or_idle new)
    \<and> (\<forall>t. t \<noteq> Preempt_Timer (e_cpu e) \<longrightarrow> (t \<in> all_queued s' \<longleftrightarrow> t \<in> all_queued s))
    \<and> (\<forall>c. Preempt_Timer c \<in> all_queued s' \<longrightarrow> periodic_time (timer_tab s' (Preempt_Timer c)) > 0)"
proof -
  let ?t = "Preempt_Timer (e_cpu e)"
  have ti: "timer_inv base cpus s" "callbacks_ok kcb_ok s"
    and pe: "\<And>c. Preempt_Timer c \<in> all_queued s \<Longrightarrow> periodic_time (timer_tab s (Preempt_Timer c)) > 0"
    and q: "?t \<in> all_queued s \<longleftrightarrow> \<not> thread_is_real_time_or_idle old"
    using inv e old by (auto simp: ktimer_inv_def preempt_ok_def env_ok_def)
  consider (keep) "thread_is_real_time_or_idle new = thread_is_real_time_or_idle old"
    | (cancel) "thread_is_real_time_or_idle new" "\<not> thread_is_real_time_or_idle old"
    | (start) "\<not> thread_is_real_time_or_idle new" "thread_is_real_time_or_idle old" by blast
  then show ?thesis
  proof cases
    case keep
    then show ?thesis using ti q pe by (simp add: switch_preempt_timer_def)
  next
    case cancel
    let ?s = "timer_cancel (e_cpu e) (e_now e) ?t s"
    note tc = timer_cancel_inv [OF ti(1), of "e_cpu e" "e_now e" ?t]
    have ss: "same_sched s ?s" by (rule same_sched_timer_cancel)
    then have kc: "kcb_ok c ?s = kcb_ok c s" for c by (cases c) (auto simp: same_sched_def)
    have tb: "timer_tab ?s x = timer_tab s x" if "x \<noteq> ?t" for x
      using that by (simp add: timer_cancel_def Let_def split: option.split)
    have "callbacks_ok kcb_ok ?s" using ti(2) tc(2) tb by (auto simp: callbacks_ok_def kc)
    with cancel tc ss pe tb show ?thesis by (auto simp: switch_preempt_timer_def)
  next
    case start
    then have nin: "?t \<notin> all_queued s" using q by simp
    obtain s' where s': "timer_set cpus (e_cpu e) (e_now e) ?t 10 10 CB_thread_timer_tick s = Some s'"
      using timer_set_returns [OF ti(1) nin] by blast
    have "tdist base (e_now e) + unat (10 :: lk_time) + 1 < 2 ^ 31" "unat (10 :: lk_time) < 2 ^ 30" "e_cpu e \<in> set cpus"
      using e by (auto simp: env_ok_def)
    note st = timer_set_inv [OF ti(1) this(3) this(1,2) s']
    have ss: "same_sched s s'" using s' by (rule same_sched_timer_set)
    then have kc: "kcb_ok c s' = kcb_ok c s" for c by (cases c) (auto simp: same_sched_def)
    have "callbacks_ok kcb_ok s'"
      using ti(2) st timer_set_tab [OF s'] by (auto simp: callbacks_ok_def kc)
    with start st ss s' e pe timer_set_tab [OF s'] show ?thesis
      by (auto simp: switch_preempt_timer_def timer_set_periodic_def)
  qed
qed

text \<open>What a reschedule leaves as it was, and what it does to the thread it picks.\<close>

definition resched_frame :: "cpu_num \<Rightarrow> kstate \<Rightarrow> kstate \<Rightarrow> bool" where
  "resched_frame cpu s s' \<longleftrightarrow>
     current_thread s' = (current_thread s)(cpu := chosen cpu s) \<and> wait_queues s' = wait_queues s \<and>
     (\<forall>w. node_lists s' (Wait_List w) = node_lists s (Wait_List w)) \<and>
     (\<forall>t. t_state (threads s' t) = (if t = chosen cpu s then THREAD_RUNNING else t_state (threads s t)) \<and>
          t_blocked_status (threads s' t) = t_blocked_status (threads s t) \<and>
          t_magic (threads s' t) = t_magic (threads s t) \<and> t_flags (threads s' t) = t_flags (threads s t) \<and>
          t_signals (threads s' t) = t_signals (threads s t) \<and> t_retcode (threads s' t) = t_retcode (threads s t) \<and>
          t_pinned_cpu (threads s' t) = t_pinned_cpu (threads s t)) \<and>
     (\<forall>t. (\<forall>c. t \<noteq> Preempt_Timer c) \<longrightarrow> (t \<in> all_queued s' \<longleftrightarrow> t \<in> all_queued s))"

lemma chosen_ready:
  assumes "kinv base cpus (set cpus - {cpu}) {} s" "cpu \<in> set cpus"
  shows "t_state (threads s (chosen cpu s)) \<noteq> THREAD_BLOCKED"
    "t_state (threads s (chosen cpu s)) = THREAD_READY \<or> thread_is_idle (threads s (chosen cpu s))"
proof -
  obtain t s1 where g: "get_top_thread cpu s = (t, s1)" by fastforce
  note kinv_get_top [OF assms(1) g assms(2)]
  from this(10) this(13) g show "t_state (threads s (chosen cpu s)) \<noteq> THREAD_BLOCKED"
    "t_state (threads s (chosen cpu s)) = THREAD_READY \<or> thread_is_idle (threads s (chosen cpu s))"
    by (auto simp: chosen_def)
qed

lemma kinv_resched:
  assumes inv: "kinv base cpus (set cpus - {e_cpu e}) {} s" and e: "env_ok base e" "e_cpus e = cpus"
  shows "\<exists>s'. thread_resched e s = Some s' \<and> kinv base cpus (set cpus) {} s' \<and> resched_frame (e_cpu e) s s'"
proof -
  let ?cpu = "e_cpu e" let ?old = "current_thread s ?cpu"
  obtain t s1 where g: "get_top_thread ?cpu s = (t, s1)" by fastforce
  have cpu: "?cpu \<in> set cpus" "?cpu \<notin> set cpus - {?cpu}" using e by (auto simp: env_ok_def)
  note top = kinv_get_top [OF inv g cpu]
  have ch: "chosen ?cpu s = t" by (simp add: chosen_def g)
  have nr: "t_state (threads s ?old) \<noteq> THREAD_RUNNING"
    using inv cpu by (auto simp: kinv_def sched_inv_def current_ok_def inj_on_def)
  have si1: "sched_inv (set cpus) (set cpus - {?cpu}) {t} s1" and ti1: "ktimer_inv base cpus s1"
    using top(1) by (auto simp: kinv_def)
  note start = sched_inv_start [OF si1 cpu(1)]
  show ?thesis
  proof (cases "t = ?old")
    case True
    let ?s = "upd_thread t (\<lambda>th. th\<lparr>t_state := THREAD_RUNNING\<rparr>) s1"
    have "thread_resched e s = Some ?s"
      using nr g True by (simp add: thread_resched_def Let_def)
    moreover have "sched_inv (set cpus) (set cpus) {} ?s"
      using top True by (intro start) (auto simp: core_eq_def)
    moreover have "ktimer_inv base cpus ?s"
      by (rule ktimer_inv_frame [OF ti1]) (auto simp: thread_is_real_time_or_idle_def)
    moreover have "resched_frame ?cpu s ?s"
      using top True ch same_timers_inv(2) [of s ?s] same_timers_trans [OF top(7) upd_thread_sel(6)]
      by (auto simp: resched_frame_def)
    ultimately show ?thesis by (auto simp: kinv_def)
  next
    case False
    define s2 where "s2 = switch_threads e ?old t (upd_thread t (\<lambda>th. th\<lparr>t_state := THREAD_RUNNING\<rparr>) s1)"
    have s2: "core_eq (threads s1 x) (threads s2 x)"
      "t_state (threads s2 x) = (if x = t then THREAD_RUNNING else t_state (threads s1 x))"
      "t_blocked_status (threads s2 x) = t_blocked_status (threads s1 x)"
      "t_signals (threads s2 x) = t_signals (threads s1 x)" "t_retcode (threads s2 x) = t_retcode (threads s1 x)"
      "node_lists s2 = node_lists s1" "run_queue_bitmap s2 = run_queue_bitmap s1" "wait_queues s2 = wait_queues s1"
      "current_thread s2 = current_thread s" "same_timers s1 s2"
      "t_pinned_cpu (threads s2 x) = t_pinned_cpu (threads s1 x)" for x
      using False top(5) by (auto simp: s2_def switch_threads_def Let_def core_eq_def same_timers_def upd_thread_def)
    define s3 where "s3 = switch_cpu_masks ?cpu (threads s2 t) s2"
    have s3: "same_sched s2 s3" "same_timers s2 s3"
      by (simp_all add: s3_def switch_cpu_masks_def Let_def same_sched_def same_timers_def mp_set_cpu_idle_def
          mp_set_cpu_busy_def mp_set_cpu_realtime_def mp_set_cpu_non_realtime_def)
    have "ktimer_inv base cpus s3"
      using s2 s3 top(5) core_eq_idle [OF s2(1)] by (intro ktimer_inv_frame [OF ti1])
        (auto simp: same_sched_def same_timers_def core_eq_def)
    moreover have "threads s3 ?old = threads s3 (current_thread s3 ?cpu)" using s2(9) s3 by (simp add: same_sched_def)
    ultimately obtain s4 where s4: "switch_preempt_timer e (threads s3 ?old) (threads s3 t) s3 = Some s4"
      "same_sched s3 s4" "timer_inv base cpus s4" "callbacks_ok kcb_ok s4"
      "Preempt_Timer ?cpu \<in> all_queued s4 \<longleftrightarrow> \<not> thread_is_real_time_or_idle (threads s3 t)"
      "\<And>x. x \<noteq> Preempt_Timer ?cpu \<Longrightarrow> x \<in> all_queued s4 \<longleftrightarrow> x \<in> all_queued s3"
      "\<And>c. Preempt_Timer c \<in> all_queued s4 \<Longrightarrow> periodic_time (timer_tab s4 (Preempt_Timer c)) > 0"
      using switch_preempt_timer_inv [OF _ e] by blast
    define s5 where "s5 = s4\<lparr>current_thread := (current_thread s4)(?cpu := t)\<rparr>"
    define s6 where "s6 = switch_aspace ?cpu (threads s5 ?old) (threads s5 t) s5"
    have s6: "threads s6 = threads s2" "node_lists s6 = node_lists s1" "run_queue_bitmap s6 = run_queue_bitmap s1"
      "wait_queues s6 = wait_queues s1" "current_thread s6 = (current_thread s)(?cpu := t)"
      "timer_queue s6 = timer_queue s4" "timer_tab s6 = timer_tab s4"
      using s4(2) s3(1) s2 by (auto simp: s6_def s5_def switch_aspace_def same_sched_def)
    have "thread_resched e s = Some s6"
      using nr g False s4(1) unfolding s6_def s5_def s3_def s2_def by (simp add: thread_resched_def Let_def)
    moreover have "sched_inv (set cpus) (set cpus) {} s6"
      using top s2 s6 by (intro start) auto
    moreover have q6: "all_queued s6 = all_queued s4" "timer_inv base cpus s6 = timer_inv base cpus s4"
      using s6 timer_inv_cong [of s6 s4] by (simp_all add: all_queued_def)
    have q3: "all_queued s3 = all_queued s"
      using same_timers_inv(2) [OF same_timers_trans [OF top(7) same_timers_trans [OF s2(10) s3(2)]]] .
    have th4: "threads s6 = threads s4" "threads s3 t = threads s2 t" using s6(1) s4(2) s3(1) by (simp_all add: same_sched_def)
    have kc: "kcb_ok c s6 = kcb_ok c s4" for c by (cases c) (auto simp: th4)
    have fl: "t_flags (threads s2 x) = t_flags (threads s x)" for x
      using s2(1) [of x] top(4) by (auto simp: core_eq_def)
    have "preempt_ok cpus s6"
      unfolding preempt_ok_def q6 s6(7)
    proof (intro conjI ballI allI impI s4(7))
      fix c assume c: "c \<in> set cpus"
      have "preempt_ok cpus s" using inv by (simp add: kinv_def ktimer_inv_def)
      with c s4(5,6) q3 show "(Preempt_Timer c \<in> all_queued s4) =
          (\<not> thread_is_real_time_or_idle (threads s6 (current_thread s6 c)))"
        by (auto simp: preempt_ok_def s6 th4(2) thread_is_real_time_or_idle_def fl)
    qed
    then have "ktimer_inv base cpus s6"
      using s4(3,4) s6(7) by (simp add: ktimer_inv_def q6 callbacks_ok_def kc)
    moreover have "resched_frame ?cpu s s6"
      using s2 s6 top(4,8,12) s4(6) q3 ch by (auto simp: resched_frame_def q6 core_eq_def)
    ultimately show ?thesis by (auto simp: kinv_def)
  qed
qed
end
