(* ===== verification/Kernel_Sched_Ops.thy ===== *)
theory Kernel_Sched_Ops
  imports Kernel_Sched
begin

unbundle bit_operations_syntax

text \<open>
  The operations on threads and wait queues against the invariant of \<^verbatim>\<open>Kernel_Sched\<close>: each one, called in a
  state of the invariant and within its contract, returns (no failed assertion, no panic),
  restores the invariant and does what it promises. The scheduler's timer callbacks are
  interpreted in the contract of \<^verbatim>\<open>Kernel_Timer\<close>, which gives that the timer interrupt returns.
\<close>

section \<open>The invariant between operations\<close>

definition kernel_inv :: "lk_time \<Rightarrow> cpu_num list \<Rightarrow> kstate \<Rightarrow> bool" where
  "kernel_inv base cpus s \<longleftrightarrow> kinv base cpus (set cpus) {} s"

lemma current_facts:
  assumes "kernel_inv base cpus s" "env_ok base e" "e_cpus e = cpus" "ct = current_thread s (e_cpu e)"
  shows "t_state (threads s ct) = THREAD_RUNNING" "t_magic (threads s ct)" "t_queue_node (threads s ct) = None"
    "t_priority (threads s ct) < 32" "t_blocking_wait_queue (threads s ct) = None"
proof -
  have "thread_ok s ct" "t_state (threads s ct) = THREAD_RUNNING"
    using assms by (auto simp: kernel_inv_def kinv_def sched_inv_def current_ok_def env_ok_def)
  then show "t_state (threads s ct) = THREAD_RUNNING" "t_magic (threads s ct)" "t_queue_node (threads s ct) = None"
    "t_priority (threads s ct) < 32" "t_blocking_wait_queue (threads s ct) = None"
    by (auto simp: thread_ok_def place_ok_def split: option.splits queue_ref.splits)
qed

lemma kinv_stop_ready:
  assumes inv: "kinv base cpus (set cpus) {} s" and e: "env_ok base e" "e_cpus e = cpus"
    and f: "\<And>th. t_queue_node (f th) = t_queue_node th" "\<And>th. t_state (f th) = THREAD_READY"
      "\<And>th. t_flags (f th) = t_flags th" "\<And>th. t_magic (f th) = t_magic th"
      "\<And>th. t_priority th < 32 \<Longrightarrow> t_priority (f th) < 32"
      "\<And>th. t_blocking_wait_queue (f th) = t_blocking_wait_queue th"
    and ct: "ct = current_thread s (e_cpu e)"
  shows "kinv base cpus (set cpus - {e_cpu e}) {ct} (upd_thread ct f s)"
    "\<not> thread_is_idle (threads s ct) \<Longrightarrow> ready_to_queue ct (upd_thread ct f s)"
    "thread_is_idle (threads s ct) \<Longrightarrow> kinv base cpus (set cpus - {e_cpu e}) {} (upd_thread ct f s)"
proof -
  note cf = current_facts [OF _ e ct, unfolded kernel_inv_def, OF inv]
  have c: "e_cpu e \<in> set cpus" using e by (auto simp: env_ok_def)
  show k: "kinv base cpus (set cpus - {e_cpu e}) {ct} (upd_thread ct f s)"
    using kinv_stop_current [OF inv c ct, of f] by (simp add: f)
  show "\<not> thread_is_idle (threads s ct) \<Longrightarrow> ready_to_queue ct (upd_thread ct f s)"
    using cf by (simp add: ready_to_queue_def f thread_is_idle_def)
  assume "thread_is_idle (threads s ct)"
  then have "thread_ok (upd_thread ct f s) ct"
    using cf by (simp add: thread_ok_def place_ok_def f thread_is_idle_def)
  then show "kinv base cpus (set cpus - {e_cpu e}) {} (upd_thread ct f s)"
    using k sched_inv_close [of "set cpus" "set cpus - {e_cpu e}" ct "{}" "upd_thread ct f s"]
    by (simp add: kinv_def)
qed

lemma kinv_node_iff:
  "kinv base cpus X E s \<Longrightarrow> t \<in> set (node_lists s q) \<longleftrightarrow> t_queue_node (threads s t) = Some q"
  by (simp add: kinv_def sched_inv_def node_lists_ok_def)

definition eligible :: "cpu_num \<Rightarrow> kstate \<Rightarrow> tid \<Rightarrow> bool" where
  "eligible cpu s t \<longleftrightarrow> (\<exists>p. t_queue_node (threads s t) = Some (Run_Queue p)) \<and> runs_on cpu (threads s t)"

lemma chosen_highest:
  assumes k: "kinv base cpus X {} s"
  shows "if \<exists>x. eligible cpu s x
    then eligible cpu s (chosen cpu s) \<and>
      (\<forall>x. eligible cpu s x \<longrightarrow> t_priority (threads s x) \<le> t_priority (threads s (chosen cpu s))) \<and>
      find (\<lambda>t. runs_on cpu (threads s t)) (node_lists s (Run_Queue (t_priority (threads s (chosen cpu s))))) = Some (chosen cpu s)
    else chosen cpu s = Idle_Thread cpu"
proof -
  have bm: "bitmap_ok s" and tk: "\<And>t. thread_ok s t" using k by (auto simp: kinv_def sched_inv_def)
  note node = kinv_node_iff [OF k]
  have pr: "t_priority (threads s x) = p" "p < 32" if "x \<in> set (node_lists s (Run_Queue p))" for x p
    using tk [of x] that node [of x] by (auto simp: thread_ok_def place_ok_def)
  have el: "eligible cpu s x \<longleftrightarrow> (\<exists>p. bit (run_queue_bitmap s) p \<and> x \<in> set (node_lists s (Run_Queue p)) \<and> runs_on cpu (threads s x))" for x
  proof -
    have "bit (run_queue_bitmap s) p" if "x \<in> set (node_lists s (Run_Queue p))" for p
      using that pr(2) [OF that] bm by (cases "node_lists s (Run_Queue p)") (auto simp: bitmap_ok_def)
    then show ?thesis by (auto simp: eligible_def node)
  qed
  obtain s' where g: "get_top_loop cpu (run_queue_bitmap s) s = (chosen cpu s, s')"
    by (metis chosen_def eq_fst_iff get_top_thread_def)
  from get_top_loop_spec [OF g] consider
    (idle) "chosen cpu s = Idle_Thread cpu" "\<nexists>x. eligible cpu s x"
  | (run) p where "bit (run_queue_bitmap s) p" "find (\<lambda>t. runs_on cpu (threads s t)) (node_lists s (Run_Queue p)) = Some (chosen cpu s)"
      "\<forall>p'>p. bit (run_queue_bitmap s) p' \<longrightarrow> (\<forall>x\<in>set (node_lists s (Run_Queue p')). \<not> runs_on cpu (threads s x))"
    by (auto simp: el)
  then show ?thesis
  proof cases
    case idle
    then show ?thesis by simp
  next
    case (run p)
    have c: "chosen cpu s \<in> set (node_lists s (Run_Queue p))" "runs_on cpu (threads s (chosen cpu s))"
      using run(2) by (auto simp: find_Some_iff)
    then have "eligible cpu s (chosen cpu s)" using run(1) el by blast
    moreover have "t_priority (threads s x) \<le> p" if "eligible cpu s x" for x
      using that run(3) pr(1) by (fastforce simp: el not_le [symmetric])
    ultimately show ?thesis using pr(1) [OF c(1)] run(2) by auto
  qed
qed

text \<open>
  The thread on whose behalf the cpu executes kernel code: not the idle thread, and allowed on this cpu.
  A switch that leaves it on a run queue switches to such a thread again.
\<close>

definition running_ok :: "cpu_env \<Rightarrow> kstate \<Rightarrow> bool" where
  "running_ok e s \<longleftrightarrow> \<not> thread_is_idle (threads s (current_thread s (e_cpu e))) \<and>
     runs_on (e_cpu e) (threads s (current_thread s (e_cpu e)))"

lemma resched_running:
  assumes k: "kinv base cpus X {} s" and fr: "resched_frame (e_cpu e) s s'" and el: "eligible (e_cpu e) s x"
  shows "running_ok e s'"
proof -
  have "eligible (e_cpu e) s (chosen (e_cpu e) s)" using chosen_highest [OF k, of "e_cpu e"] el by (auto split: if_splits)
  moreover have "thread_ok s (chosen (e_cpu e) s)" using k by (simp add: kinv_def sched_inv_def)
  ultimately show ?thesis
    using fr by (auto simp: running_ok_def resched_frame_def eligible_def runs_on_def thread_ok_def place_ok_def thread_is_idle_def)
qed

lemma thread_yield_frame:
  assumes inv: "kernel_inv base cpus s" and e: "env_ok base e" "e_cpus e = cpus"
  shows "\<exists>s'. thread_yield e s = Some s' \<and> kernel_inv base cpus s' \<and> wait_queues s' = wait_queues s
    \<and> (\<forall>w. node_lists s' (Wait_List w) = node_lists s (Wait_List w)) \<and> (running_ok e s \<longrightarrow> running_ok e s')"
proof -
  let ?ct = "current_thread s (e_cpu e)"
  let ?s = "upd_thread ?ct (\<lambda>th. th\<lparr>t_state := THREAD_READY, t_remaining_quantum := 0\<rparr>) s"
  note cf = current_facts [OF inv e refl]
  note st = kinv_stop_ready [OF inv [unfolded kernel_inv_def] e, where
      f = "\<lambda>th. th\<lparr>t_state := THREAD_READY, t_remaining_quantum := 0\<rparr>", simplified]
  show ?thesis
  proof (cases "thread_is_idle (threads s ?ct)")
    case True
    from kinv_resched [OF st(3) [OF refl True] e] show ?thesis
      using cf True by (auto simp: thread_yield_def Let_def kernel_inv_def thread_is_idle_def running_ok_def resched_frame_def)
  next
    case False
    from kinv_insert_tail [OF st(1) [OF refl] st(2) [OF refl False]] obtain s1 where
      s1: "insert_in_run_queue_tail ?ct ?s = Some s1" "kinv base cpus (set cpus - {e_cpu e}) {} s1" "enqueued ?ct ?s s1" by auto
    from kinv_resched [OF s1(2) e] obtain s' where
      s': "thread_resched e s1 = Some s'" "kinv base cpus (set cpus) {} s'" "resched_frame (e_cpu e) s1 s'" by blast
    have "running_ok e s \<Longrightarrow> eligible (e_cpu e) s1 ?ct"
      using s1(3) by (auto simp: eligible_def enqueued_def running_ok_def runs_on_def)
    then show ?thesis
      using cf False s1 s' resched_running [OF s1(2) s'(3)]
      by (auto simp: thread_yield_def Let_def kernel_inv_def thread_is_idle_def resched_frame_def enqueued_def)
  qed
qed

lemma thread_yield_inv:
  assumes "kernel_inv base cpus s" "env_ok base e" "e_cpus e = cpus"
  shows "\<exists>s'. thread_yield e s = Some s' \<and> kernel_inv base cpus s'"
  using thread_yield_frame [OF assms] by blast

lemma thread_preempt_inv:
  assumes inv: "kernel_inv base cpus s" and e: "env_ok base e" "e_cpus e = cpus"
  shows "\<exists>s'. thread_preempt e s = Some s' \<and> kernel_inv base cpus s'"
proof -
  let ?ct = "current_thread s (e_cpu e)"
  let ?s = "upd_thread ?ct (\<lambda>th. th\<lparr>t_state := THREAD_READY\<rparr>) s"
  note cf = current_facts [OF inv e refl]
  note st = kinv_stop_ready [OF inv [unfolded kernel_inv_def] e, where
      f = "\<lambda>th. th\<lparr>t_state := THREAD_READY\<rparr>", simplified]
  show ?thesis
  proof (cases "thread_is_idle (threads s ?ct)")
    case True
    from kinv_resched [OF st(3) [OF refl True] e] show ?thesis
      using cf True by (auto simp: thread_preempt_def Let_def kernel_inv_def thread_is_idle_def)
  next
    case False
    obtain s1 where
      s1: "(if t_remaining_quantum (threads s ?ct) > 0 then insert_in_run_queue_head ?ct ?s
            else insert_in_run_queue_tail ?ct ?s) = Some s1" "kinv base cpus (set cpus - {e_cpu e}) {} s1"
      using kinv_insert_tail [OF st(1) [OF refl] st(2) [OF refl False]]
        kinv_insert_head [OF st(1) [OF refl] st(2) [OF refl False]]
      by (cases "t_remaining_quantum (threads s ?ct) > 0") auto
    from kinv_resched [OF s1(2) e] show ?thesis
      using cf False s1(1) by (auto simp: thread_preempt_def Let_def kernel_inv_def thread_is_idle_def)
  qed
qed

lemma thread_set_priority_inv:
  assumes inv: "kernel_inv base cpus s" and e: "env_ok base e" "e_cpus e = cpus"
    and ni: "\<not> thread_is_idle (threads s (current_thread s (e_cpu e)))"
  shows "\<exists>s'. thread_set_priority e p s = Some s' \<and> kernel_inv base cpus s'"
proof -
  let ?ct = "current_thread s (e_cpu e)"
  let ?p = "nat (if (if p \<le> 0 then 1 else p) > 31 then 31 else (if p \<le> 0 then 1 else p))"
  have p: "?p < 32" by auto
  note st = kinv_stop_ready [OF inv [unfolded kernel_inv_def] e, where
      f = "\<lambda>th. th\<lparr>t_priority := ?p, t_state := THREAD_READY\<rparr>", OF _ _ _ _ _ _ refl]
  have 1: "kinv base cpus (set cpus - {e_cpu e}) {?ct} (upd_thread ?ct (\<lambda>th. th\<lparr>t_priority := ?p, t_state := THREAD_READY\<rparr>) s)"
    using p by (intro st) auto
  have 2: "ready_to_queue ?ct (upd_thread ?ct (\<lambda>th. th\<lparr>t_priority := ?p, t_state := THREAD_READY\<rparr>) s)"
    using p ni by (intro st) auto
  from kinv_insert_head [OF 1 2] obtain s1 where
    s1: "insert_in_run_queue_head ?ct (upd_thread ?ct (\<lambda>th. th\<lparr>t_priority := ?p, t_state := THREAD_READY\<rparr>) s) = Some s1"
      "kinv base cpus (set cpus - {e_cpu e}) {} s1" by auto
  from kinv_resched [OF s1(2) e] show ?thesis
    using s1(1) by (auto simp: thread_set_priority_def Let_def kernel_inv_def cong: if_cong)
qed

section \<open>Blocking\<close>

definition block_state :: "wq_ref \<Rightarrow> tid \<Rightarrow> kstate \<Rightarrow> kstate" where
  "block_state w ct s = upd_thread ct (\<lambda>th. th\<lparr>t_state := THREAD_BLOCKED, t_blocking_wait_queue := Some w,
       t_blocked_status := NO_ERROR\<rparr>) (upd_wq w (\<lambda>q. q\<lparr>wq_count := wq_count q + 1\<rparr>) (node_add_tail (Wait_List w) ct s))"

lemma block_state_sel:
  "threads (block_state w ct s) = (threads s)(ct := (threads s ct)\<lparr>t_queue_node := Some (Wait_List w),
     t_state := THREAD_BLOCKED, t_blocking_wait_queue := Some w, t_blocked_status := NO_ERROR\<rparr>)"
  "node_lists (block_state w ct s) = (node_lists s)(Wait_List w := node_lists s (Wait_List w) @ [ct])"
  "wait_queues (block_state w ct s) = (wait_queues s)(w := (wait_queues s w)\<lparr>wq_count := wq_count (wait_queues s w) + 1\<rparr>)"
  "current_thread (block_state w ct s) = current_thread s" "run_queue_bitmap (block_state w ct s) = run_queue_bitmap s"
  "same_timers s (block_state w ct s)"
  by (simp_all add: block_state_def node_add_tail_def upd_thread_def upd_wq_def same_timers_def)

lemma kinv_block:
  assumes inv: "kinv base cpus (set cpus) {} s" and e: "env_ok base e" "e_cpus e = cpus"
    and ct: "ct = current_thread s (e_cpu e)" and ni: "\<not> thread_is_idle (threads s ct)"
    and w: "wq_magic (wait_queues s w)"
  shows "kinv base cpus (set cpus - {e_cpu e}) {} (block_state w ct s)"
proof -
  let ?s = "block_state w ct s"
  note cf = current_facts [OF _ e ct, unfolded kernel_inv_def, OF inv]
  have si: "sched_inv (set cpus) (set cpus) {} s" and ti: "ktimer_inv base cpus s" using inv by (auto simp: kinv_def)
  have ls: "node_lists_ok s" "bitmap_ok s" "count_ok s" "idle_ok (set cpus) s" "current_ok (set cpus) (set cpus) s"
    and tk: "\<And>t. thread_ok s t" using si by (auto simp: sched_inv_def)
  have "ct \<notin> set (node_lists s q)" for q using ls(1) cf(3) by (auto simp: node_lists_ok_def)
  then have "node_lists_ok ?s" using ls(1) by (auto simp: node_lists_ok_def block_state_sel)
  moreover have "bitmap_ok ?s" "count_ok ?s" "idle_ok (set cpus) ?s"
    using ls by (auto simp: bitmap_ok_def count_ok_def idle_ok_def block_state_sel thread_is_idle_def)
  moreover have "current_ok (set cpus) (set cpus - {e_cpu e}) ?s"
    using ls(5) ct e unfolding current_ok_def block_state_sel env_ok_def
    by (auto simp: inj_on_def)
  moreover have "thread_ok ?s t" for t
  proof (cases "t = ct")
    case True
    then show ?thesis using cf ni w by (simp add: thread_ok_def place_ok_def block_state_sel thread_is_idle_def)
  next
    case False
    then show ?thesis using tk [of t]
      by (auto simp: thread_ok_def place_ok_def block_state_sel split: option.splits queue_ref.splits)
  qed
  moreover have "ktimer_inv base cpus ?s"
    by (rule ktimer_inv_frame [OF ti]) (auto simp: block_state_sel thread_is_real_time_or_idle_def)
  ultimately show ?thesis by (simp add: kinv_def sched_inv_def)
qed

lemma ktimer_inv_timer_initialize:
  assumes inv: "ktimer_inv base cpus s" and t: "t \<notin> all_queued s"
  shows "ktimer_inv base cpus (timer_initialize t s)" "all_queued (timer_initialize t s) = all_queued s"
proof -
  show aq: "all_queued (timer_initialize t s) = all_queued s" by (simp add: all_queued_def timer_initialize_def)
  have "timer_inv base cpus (timer_initialize t s)"
    unfolding timer_initialize_def using inv t
    by (intro timer_tab_update_inv) (auto simp: ktimer_inv_def timer_tab_ok_def TIMER_INITIAL_VALUE_def)
  moreover have "kcb_ok c (timer_initialize t s) = kcb_ok c s" for c
    by (cases c) (simp_all add: timer_initialize_def)
  ultimately show "ktimer_inv base cpus (timer_initialize t s)"
    using inv t by (auto simp: ktimer_inv_def callbacks_ok_def preempt_ok_def aq) (auto simp: timer_initialize_def split: if_splits)
qed

text \<open>Arming the timer on the stack of a thread about to block or sleep.\<close>

lemma kinv_stack_timer:
  assumes inv: "kinv base cpus X E s" and e: "env_ok base e" "e_cpus e = cpus"
    and win: "tdist base (e_now e) + unat delay + 1 < 2 ^ 31" and nin: "Stack_Timer t \<notin> all_queued s"
    and cb: "kcb_ok cb s"
  shows "\<exists>s'. timer_set_oneshot (e_cpus e) (e_cpu e) (e_now e) (Stack_Timer t) delay cb
      (timer_initialize (Stack_Timer t) s) = Some s' \<and> kinv base cpus X E s' \<and> same_sched s s'
      \<and> all_queued s' = insert (Stack_Timer t) (all_queued s)"
proof -
  let ?s = "timer_initialize (Stack_Timer t) s"
  have ti: "ktimer_inv base cpus s" and si: "sched_inv (set cpus) X E s" using inv by (auto simp: kinv_def)
  note i = ktimer_inv_timer_initialize [OF ti nin]
  have ss: "same_sched s ?s" by (rule same_sched_timer_initialize)
  have "kcb_ok cb ?s" using cb by (cases cb) (auto simp: timer_initialize_def)
  moreover have "tdist base (e_now e) + unat (if delay = 0 then 1 else delay) + 1 < 2 ^ 31"
    using win e by (auto simp: env_ok_def)
  ultimately obtain s' where "timer_set cpus (e_cpu e) (e_now e) (Stack_Timer t) (if delay = 0 then 1 else delay) 0 cb ?s = Some s'"
    "ktimer_inv base cpus s'" "same_sched ?s s'" "all_queued s' = insert (Stack_Timer t) (all_queued ?s)"
    using ktimer_inv_timer_set [OF i(1), of "e_cpu e" "Stack_Timer t" "e_now e" "if delay = 0 then 1 else delay" cb] e nin i(2)
    by (auto simp: env_ok_def)
  moreover from this ss have "same_sched s s'" by (simp add: same_sched_def)
  ultimately show ?thesis
    using si e i(2) same_sched_inv [of s s'] by (auto simp: timer_set_oneshot_def kinv_def)
qed

definition timeout_ok :: "lk_time \<Rightarrow> cpu_env \<Rightarrow> lk_time \<Rightarrow> bool" where
  "timeout_ok base e timeout \<longleftrightarrow> timeout = INFINITE_TIME \<or> tdist base (e_now e) + unat timeout + 1 < 2 ^ 31"

lemma wait_queue_block_enter_inv:
  assumes inv: "kernel_inv base cpus s" and e: "env_ok base e" "e_cpus e = cpus"
    and ct: "ct = current_thread s (e_cpu e)" and ni: "\<not> thread_is_idle (threads s ct)"
    and w: "wq_magic (wait_queues s w)" and to: "timeout_ok base e timeout" "timeout \<noteq> 0"
    and nin: "Stack_Timer ct \<notin> all_queued s"
  shows "\<exists>s'. wait_queue_block_enter e w timeout s = Some (Switched, s') \<and> kernel_inv base cpus s'
    \<and> node_lists s' (Wait_List w) = node_lists s (Wait_List w) @ [ct]
    \<and> t_state (threads s' ct) = THREAD_BLOCKED \<and> (Stack_Timer ct \<in> all_queued s' \<longleftrightarrow> timeout \<noteq> INFINITE_TIME)
    \<and> (\<forall>v. v \<noteq> w \<longrightarrow> node_lists s' (Wait_List v) = node_lists s (Wait_List v))
    \<and> (\<forall>v. wq_magic (wait_queues s' v) = wq_magic (wait_queues s v))
    \<and> (\<forall>x. x \<noteq> ct \<longrightarrow> t_blocked_status (threads s' x) = t_blocked_status (threads s x))"
proof -
  note cf = current_facts [OF inv e ct]
  note bl = kinv_block [OF inv [unfolded kernel_inv_def] e ct ni w]
  let ?b = "block_state w ct s"
  have aq: "all_queued ?b = all_queued s" using same_timers_inv(2) block_state_sel(6) by blast
  have "\<exists>s1. (if timeout \<noteq> INFINITE_TIME then timer_set_oneshot (e_cpus e) (e_cpu e) (e_now e) (Stack_Timer ct) timeout
                    (CB_wait_queue_timeout_handler ct) (timer_initialize (Stack_Timer ct) ?b) else Some ?b) = Some s1
      \<and> kinv base cpus (set cpus - {e_cpu e}) {} s1 \<and> same_sched ?b s1
      \<and> (Stack_Timer ct \<in> all_queued s1 \<longleftrightarrow> timeout \<noteq> INFINITE_TIME)"
  proof (cases "timeout = INFINITE_TIME")
    case True
    then show ?thesis using bl nin aq by simp
  next
    case False
    with to have "tdist base (e_now e) + unat timeout + 1 < 2 ^ 31" by (simp add: timeout_ok_def)
    from kinv_stack_timer [OF bl e this, of ct "CB_wait_queue_timeout_handler ct"] nin aq cf False
    show ?thesis by (auto simp: block_state_sel)
  qed
  then obtain s1 where s1: "(if timeout \<noteq> INFINITE_TIME then timer_set_oneshot (e_cpus e) (e_cpu e) (e_now e) (Stack_Timer ct) timeout
                    (CB_wait_queue_timeout_handler ct) (timer_initialize (Stack_Timer ct) ?b) else Some ?b) = Some s1"
      "kinv base cpus (set cpus - {e_cpu e}) {} s1" "same_sched ?b s1"
      "Stack_Timer ct \<in> all_queued s1 \<longleftrightarrow> timeout \<noteq> INFINITE_TIME" by blast
  from kinv_resched [OF s1(2) e] obtain s' where s': "thread_resched e s1 = Some s'" "kinv base cpus (set cpus) {} s'"
    "resched_frame (e_cpu e) s1 s'" by blast
  have "t_state (threads s1 ct) = THREAD_BLOCKED" using s1(3) by (simp add: same_sched_def block_state_sel)
  moreover from this have "chosen (e_cpu e) s1 \<noteq> ct" using chosen_ready(1) [OF s1(2)] e by (auto simp: env_ok_def)
  moreover have "wait_queue_block_enter e w timeout s = Some (Switched, s')"
    using w cf(1) to(2) s1(1) s'(1) unfolding wait_queue_block_enter_def Let_def block_state_def ct [symmetric]
    by (cases "timeout = INFINITE_TIME") simp_all
  ultimately show ?thesis
    using s' s1(3,4) by (auto simp: kernel_inv_def resched_frame_def same_sched_def block_state_sel)
qed

lemma kinv_timer_cancel:
  assumes "kinv base cpus X E s" "\<And>c. t \<noteq> Preempt_Timer c"
  shows "kinv base cpus X E (timer_cancel cpu now t s)" "t \<notin> all_queued (timer_cancel cpu now t s)"
    "same_sched s (timer_cancel cpu now t s)"
  using assms ktimer_inv_timer_cancel [of base cpus s t cpu now] timer_cancel_inv(2) [of base cpus s cpu now t]
    same_sched_timer_cancel [of s cpu now t] same_sched_inv [of s "timer_cancel cpu now t s" "set cpus" X E]
  by (auto simp: kinv_def ktimer_inv_def)

lemma wait_queue_block_return_inv:
  assumes inv: "kernel_inv base cpus s" and ct: "ct = current_thread s (e_cpu e)"
    and r: "wait_queue_block_return e timeout s = (st, s')"
  shows "kernel_inv base cpus s'" "st = t_blocked_status (threads s ct)" "same_sched s s'"
    "timeout \<noteq> INFINITE_TIME \<Longrightarrow> Stack_Timer ct \<notin> all_queued s'"
  using r ct kinv_timer_cancel [OF inv [unfolded kernel_inv_def], of "Stack_Timer ct" "e_cpu e" "e_now e"] inv
  by (auto simp: wait_queue_block_return_def Let_def kernel_inv_def same_sched_def split: if_splits)

section \<open>Waking\<close>

definition handler_frame :: "kstate \<Rightarrow> kstate \<Rightarrow> bool" where
  "handler_frame s s' \<longleftrightarrow> same_timers s s' \<and> current_thread s' = current_thread s \<and>
     (\<forall>x. t_flags (threads s' x) = t_flags (threads s x) \<and> t_magic (threads s' x) = t_magic (threads s x)) \<and>
     (\<forall>v. wq_magic (wait_queues s' v) = wq_magic (wait_queues s v))"

lemma handler_frame_refl [simp]: "handler_frame s s"
  by (simp add: handler_frame_def)

lemma handler_frame_trans: "handler_frame s s' \<Longrightarrow> handler_frame s' s'' \<Longrightarrow> handler_frame s s''"
  by (auto simp: handler_frame_def intro: same_timers_trans)

lemma handler_frame_mp_reschedule [simp]: "handler_frame s (mp_reschedule c m r s)"
  by (simp add: handler_frame_def) (simp add: mp_reschedule_def Let_def)

lemma ktimer_inv_handler: "ktimer_inv base cpus s \<Longrightarrow> handler_frame s s' \<Longrightarrow> ktimer_inv base cpus s'"
  by (erule ktimer_inv_frame) (auto simp: handler_frame_def thread_is_real_time_or_idle_def)

lemma enqueued_handler_frame: "enqueued t s s' \<Longrightarrow> handler_frame s s'"
  by (auto simp: enqueued_def handler_frame_def)

lemma sched_insert_head:
  assumes inv: "sched_inv cpus X (insert t E) s" and th: "ready_to_queue t s"
  shows "\<exists>s'. insert_in_run_queue_head t s = Some s' \<and> sched_inv cpus X (E - {t}) s' \<and> enqueued t s s'"
  using insert_in_run_queue_inv(1) [OF inv] th unfolding ready_to_queue_def by auto

lemma wake_head_sched:
  assumes si: "sched_inv cpus X {} s" and l: "t \<in> set (node_lists s (Wait_List w))"
  shows "\<exists>s'. wake_head w t err s = Some s' \<and> sched_inv cpus X {t} s' \<and> ready_to_queue t s'
    \<and> threads s' = (threads s)(t := (threads s t)\<lparr>t_queue_node := None, t_state := THREAD_READY,
         t_blocked_status := err, t_blocking_wait_queue := None\<rparr>)
    \<and> handler_frame s s' \<and> node_lists s' = (node_lists s)(Wait_List w := remove1 t (node_lists s (Wait_List w)))"
proof -
  have qn: "t_queue_node (threads s t) = Some (Wait_List w)"
    using si l by (auto simp: sched_inv_def node_lists_ok_def)
  have tk: "thread_ok s t" using si by (simp add: sched_inv_def)
  let ?s1 = "upd_wq w (\<lambda>q. q\<lparr>wq_count := wq_count q - 1\<rparr>) (node_delete t s)"
  note d = sched_inv_dequeue_wait [OF si qn refl]
  have bl: "t_state (threads s t) = THREAD_BLOCKED" "t_magic (threads s t)" "t_priority (threads s t) < 32"
    "\<not> thread_is_idle (threads s t)"
    using tk qn by (auto simp: thread_ok_def place_ok_def)
  let ?f = "\<lambda>th. th\<lparr>t_state := THREAD_READY, t_blocked_status := err, t_blocking_wait_queue := None\<rparr>"
  have "wake_head w t err s = Some (upd_thread t ?f ?s1)"
    using bl d(2) by (simp add: wake_head_def Let_def)
  moreover have "sched_inv cpus X {t} (upd_thread t ?f ?s1)"
    using sched_inv_upd_thread [OF d(1), of ?f t] d(2) bl by (simp add: thread_is_idle_def)
  moreover have "ready_to_queue t (upd_thread t ?f ?s1)"
    using bl d(2) by (simp add: ready_to_queue_def thread_is_idle_def)
  moreover have "handler_frame s (upd_thread t ?f ?s1)"
    using d(2-5) same_timers_trans [OF d(4)] by (auto simp: handler_frame_def)
  ultimately show ?thesis using d by auto
qed

lemma wake_head_inv:
  assumes inv: "kinv base cpus X {} s" and l: "t \<in> set (node_lists s (Wait_List w))"
  shows "\<exists>s'. wake_head w t err s = Some s' \<and> kinv base cpus X {t} s' \<and> ready_to_queue t s'
    \<and> threads s' = (threads s)(t := (threads s t)\<lparr>t_queue_node := None, t_state := THREAD_READY,
         t_blocked_status := err, t_blocking_wait_queue := None\<rparr>)
    \<and> current_thread s' = current_thread s \<and> same_timers s s' \<and> (\<forall>v. wq_magic (wait_queues s' v) = wq_magic (wait_queues s v))
    \<and> node_lists s' = (node_lists s)(Wait_List w := remove1 t (node_lists s (Wait_List w)))"
  using wake_head_sched [of "set cpus" X s t w err] assms ktimer_inv_handler [of base cpus s]
  by (auto simp: kinv_def handler_frame_def)

definition woken :: "status \<Rightarrow> thread \<Rightarrow> thread \<Rightarrow> bool" where
  "woken err th th' \<longleftrightarrow> t_state th' = THREAD_READY \<and> t_blocked_status th' = err
     \<and> t_queue_node th' = Some (Run_Queue (t_priority th)) \<and> t_priority th' = t_priority th
     \<and> t_flags th' = t_flags th \<and> t_magic th' = t_magic th \<and> t_signals th' = t_signals th"

lemma wake_and_queue:
  assumes inv: "kinv base cpus X {} s" and l: "node_lists s (Wait_List w) = t # ts"
  shows "\<exists>s1 s'. wake_head w t err s = Some s1 \<and> insert_in_run_queue_head t s1 = Some s'
    \<and> kinv base cpus X {} s' \<and> node_lists s' (Wait_List w) = ts
    \<and> (\<forall>v. v \<noteq> w \<longrightarrow> node_lists s' (Wait_List v) = node_lists s (Wait_List v))
    \<and> woken err (threads s t) (threads s' t) \<and> (\<forall>x. x \<noteq> t \<longrightarrow> threads s' x = threads s x)
    \<and> current_thread s' = current_thread s \<and> same_timers s s'
    \<and> (\<forall>v. wq_magic (wait_queues s' v) = wq_magic (wait_queues s v))"
proof -
  from wake_head_inv [OF inv, of t w err] l obtain s1 where s1: "wake_head w t err s = Some s1"
    "kinv base cpus X {t} s1" "ready_to_queue t s1"
    "threads s1 = (threads s)(t := (threads s t)\<lparr>t_queue_node := None, t_state := THREAD_READY,
         t_blocked_status := err, t_blocking_wait_queue := None\<rparr>)"
    "current_thread s1 = current_thread s" "same_timers s s1"
    "\<And>v. wq_magic (wait_queues s1 v) = wq_magic (wait_queues s v)"
    "node_lists s1 = (node_lists s)(Wait_List w := ts)" by auto
  from kinv_insert_head [OF s1(2,3)] obtain s' where s': "insert_in_run_queue_head t s1 = Some s'"
    "kinv base cpus X {} s'" "enqueued t s1 s'" by auto
  show ?thesis
    using s1 s' same_timers_trans [OF s1(6)] by (auto simp: enqueued_def woken_def)
qed

lemma wake_all_loop_inv:
  assumes "kinv base cpus X {} s" "node_lists s (Wait_List w) = ts"
  shows "\<exists>s'. wake_all_loop w err ts s = Some s' \<and> kinv base cpus X {} s'
    \<and> node_lists s' (Wait_List w) = [] \<and> (\<forall>v. v \<noteq> w \<longrightarrow> node_lists s' (Wait_List v) = node_lists s (Wait_List v))
    \<and> (\<forall>t\<in>set ts. woken err (threads s t) (threads s' t)) \<and> (\<forall>x. x \<notin> set ts \<longrightarrow> threads s' x = threads s x)
    \<and> current_thread s' = current_thread s \<and> same_timers s s'
    \<and> (\<forall>v. wq_magic (wait_queues s' v) = wq_magic (wait_queues s v))"
  using assms
proof (induction ts arbitrary: s)
  case (Cons t ts)
  have t: "t \<notin> set ts"
    using Cons.prems by (metis (no_types, lifting) distinct.simps(2) kinv_def node_lists_ok_def sched_inv_def)
  from wake_and_queue [OF Cons.prems, of err] obtain s1 s2 where s2: "wake_head w t err s = Some s1"
    "insert_in_run_queue_head t s1 = Some s2" "kinv base cpus X {} s2" "node_lists s2 (Wait_List w) = ts"
    "\<And>v. v \<noteq> w \<Longrightarrow> node_lists s2 (Wait_List v) = node_lists s (Wait_List v)"
    "woken err (threads s t) (threads s2 t)" "\<And>x. x \<noteq> t \<Longrightarrow> threads s2 x = threads s x"
    "current_thread s2 = current_thread s" "same_timers s s2"
    "\<And>v. wq_magic (wait_queues s2 v) = wq_magic (wait_queues s v)" by metis
  from Cons.IH [OF s2(3,4)] obtain s' where s': "wake_all_loop w err ts s2 = Some s'" "kinv base cpus X {} s'"
    "node_lists s' (Wait_List w) = []" "\<And>v. v \<noteq> w \<Longrightarrow> node_lists s' (Wait_List v) = node_lists s2 (Wait_List v)"
    "\<And>t. t \<in> set ts \<Longrightarrow> woken err (threads s2 t) (threads s' t)" "\<And>x. x \<notin> set ts \<Longrightarrow> threads s' x = threads s2 x"
    "current_thread s' = current_thread s2" "same_timers s2 s'"
    "\<And>v. wq_magic (wait_queues s' v) = wq_magic (wait_queues s2 v)" by blast
  show ?case
  proof (intro exI [of _ s'] conjI ballI allI impI)
    show "wake_all_loop w err (t # ts) s = Some s'" using s2(1,2) s'(1) by simp
    fix x
    show "woken err (threads s x) (threads s' x)" if "x \<in> set (t # ts)"
      using that t s2(6,7) s'(5,6) [of x] by (cases "x = t") auto
    show "threads s' x = threads s x" if "x \<notin> set (t # ts)" using that s2(7) s'(6) by simp
  qed (use s2 s' same_timers_trans in auto)
qed simp

text \<open>
  Moving the current thread to the head of its run queue before a wake that reschedules.
\<close>

lemma kinv_yield_to_woken:
  assumes inv: "kinv base cpus (set cpus) E s" and e: "env_ok base e" "e_cpus e = cpus"
    and ct: "ct = current_thread s (e_cpu e)" "ct \<notin> E" and ni: "\<not> thread_is_idle (threads s ct)"
  shows "\<exists>s'. insert_in_run_queue_head ct (upd_thread ct (\<lambda>th. th\<lparr>t_state := THREAD_READY\<rparr>) s) = Some s'
    \<and> kinv base cpus (set cpus - {e_cpu e}) E s' \<and> same_timers s s' \<and> current_thread s' = current_thread s
    \<and> wait_queues s' = wait_queues s
    \<and> threads s' = (threads s)(ct := (threads s ct)\<lparr>t_state := THREAD_READY,
         t_queue_node := Some (Run_Queue (t_priority (threads s ct)))\<rparr>)
    \<and> (\<forall>w. node_lists s' (Wait_List w) = node_lists s (Wait_List w))"
proof -
  let ?f = "\<lambda>th. th\<lparr>t_state := THREAD_READY\<rparr>" let ?s = "upd_thread ct ?f s"
  have c: "e_cpu e \<in> set cpus" using e by (auto simp: env_ok_def)
  have "thread_ok s ct" "t_state (threads s ct) = THREAD_RUNNING"
    using inv ct c by (auto simp: kinv_def sched_inv_def current_ok_def)
  then have "ready_to_queue ct ?s"
    using ni by (auto simp: ready_to_queue_def thread_ok_def place_ok_def thread_is_idle_def split: option.splits queue_ref.splits)
  moreover have "kinv base cpus (set cpus - {e_cpu e}) (insert ct E) ?s"
    using kinv_stop_current [OF inv c ct(1), of ?f] by simp
  ultimately obtain s' where "insert_in_run_queue_head ct ?s = Some s'"
    "kinv base cpus (set cpus - {e_cpu e}) (E - {ct}) s'" "enqueued ct ?s s'"
    using kinv_insert_head by blast
  then show ?thesis
    using ct(2) same_timers_trans [OF upd_thread_sel(6) [of s ct ?f]] by (auto simp: enqueued_def)
qed

lemma kinv_mp_reschedule:
  "kinv base cpus X E s \<Longrightarrow> kinv base cpus X E (mp_reschedule c m r s)"
  by (erule kinv_same) simp_all

lemma mp_reschedule_sel [simp]:
  "threads (mp_reschedule c m r s) = threads s" "current_thread (mp_reschedule c m r s) = current_thread s"
  "node_lists (mp_reschedule c m r s) = node_lists s" "wait_queues (mp_reschedule c m r s) = wait_queues s"
  "all_queued (mp_reschedule c m r s) = all_queued s"
  by (simp_all add: mp_reschedule_def Let_def all_queued_def)

lemma wait_queue_wake_one_noresched:
  assumes inv: "kernel_inv base cpus s" and w: "wq_magic (wait_queues s w)"
  shows "\<exists>s'. wait_queue_wake_one e w False err s = Some (if node_lists s (Wait_List w) = [] then 0 else 1, s')
    \<and> kernel_inv base cpus s' \<and> node_lists s' (Wait_List w) = tl (node_lists s (Wait_List w))
    \<and> (node_lists s (Wait_List w) \<noteq> [] \<longrightarrow>
         woken err (threads s (hd (node_lists s (Wait_List w)))) (threads s' (hd (node_lists s (Wait_List w)))))
    \<and> (\<forall>x. node_lists s (Wait_List w) = [] \<or> x \<noteq> hd (node_lists s (Wait_List w)) \<longrightarrow> threads s' x = threads s x)
    \<and> current_thread s' = current_thread s \<and> all_queued s' = all_queued s
    \<and> (\<forall>v. wq_magic (wait_queues s' v) = wq_magic (wait_queues s v))"
proof (cases "node_lists s (Wait_List w)")
  case Nil
  then show ?thesis using w inv by (simp add: wait_queue_wake_one_def)
next
  case (Cons t ts)
  from wake_and_queue [OF inv [unfolded kernel_inv_def] Cons, of err] obtain s1 s2 where
    s2: "wake_head w t err s = Some s1" "insert_in_run_queue_head t s1 = Some s2" "kinv base cpus (set cpus) {} s2"
    "node_lists s2 (Wait_List w) = ts" "woken err (threads s t) (threads s2 t)" "\<forall>x. x \<noteq> t \<longrightarrow> threads s2 x = threads s x"
    "current_thread s2 = current_thread s" "same_timers s s2"
    "\<forall>v. wq_magic (wait_queues s2 v) = wq_magic (wait_queues s v)" by blast
  then show ?thesis
    using w Cons kinv_mp_reschedule [OF s2(3)] same_timers_inv(2) [OF s2(8)]
    by (simp add: wait_queue_wake_one_def kernel_inv_def Let_def)
qed

lemma wait_queue_wake_one_resched:
  assumes inv: "kernel_inv base cpus s" and e: "env_ok base e" "e_cpus e = cpus"
    and ni: "\<not> thread_is_idle (threads s (current_thread s (e_cpu e)))"
    and w: "wq_magic (wait_queues s w)" and l: "node_lists s (Wait_List w) = t # ts"
  shows "\<exists>s'. wait_queue_wake_one e w True err s = Some (1, s') \<and> kernel_inv base cpus s'
    \<and> node_lists s' (Wait_List w) = ts \<and> t_blocked_status (threads s' t) = err
    \<and> t_state (threads s' t) \<in> {THREAD_READY, THREAD_RUNNING}
    \<and> (\<forall>v. wq_magic (wait_queues s' v) = wq_magic (wait_queues s v))"
proof -
  let ?ct = "current_thread s (e_cpu e)"
  have k: "kinv base cpus (set cpus) {} s" using inv by (simp add: kernel_inv_def)
  from wake_head_inv [OF k, of t w err] l obtain s1 where s1: "wake_head w t err s = Some s1"
    "kinv base cpus (set cpus) {t} s1" "ready_to_queue t s1"
    "threads s1 = (threads s)(t := (threads s t)\<lparr>t_queue_node := None, t_state := THREAD_READY,
         t_blocked_status := err, t_blocking_wait_queue := None\<rparr>)"
    "current_thread s1 = current_thread s" "node_lists s1 = (node_lists s)(Wait_List w := ts)"
    "\<And>v. wq_magic (wait_queues s1 v) = wq_magic (wait_queues s v)" by auto
  have "t_queue_node (threads s t) = Some (Wait_List w)"
    using kinv_node_iff [OF k, of t "Wait_List w"] l by simp
  then have tn: "?ct \<noteq> t" using current_facts(3) [OF inv e refl] by auto
  have "\<not> thread_is_idle (threads s1 ?ct)" using ni s1(4) tn by simp
  from kinv_yield_to_woken [OF s1(2) e s1(5) [THEN fun_cong, symmetric] _ this] tn obtain s2 where
    s2: "insert_in_run_queue_head ?ct (upd_thread ?ct (\<lambda>th. th\<lparr>t_state := THREAD_READY\<rparr>) s1) = Some s2"
      "kinv base cpus (set cpus - {e_cpu e}) {t} s2" "current_thread s2 = current_thread s1"
      "threads s2 t = threads s1 t" "\<And>w. node_lists s2 (Wait_List w) = node_lists s1 (Wait_List w)"
      "wait_queues s2 = wait_queues s1"
    by auto
  have "ready_to_queue t s2" using s1(3) s2(4) by (simp add: ready_to_queue_def)
  from kinv_insert_head [OF s2(2) this] obtain s3 where s3: "insert_in_run_queue_head t s2 = Some s3"
    "kinv base cpus (set cpus - {e_cpu e}) {} s3" "enqueued t s2 s3" by auto
  from kinv_resched [OF kinv_mp_reschedule [OF s3(2)] e, of "e_cpu e" MP_CPU_ALL_BUT_LOCAL False] obtain s' where
    s': "thread_resched e (mp_reschedule (e_cpu e) MP_CPU_ALL_BUT_LOCAL False s3) = Some s'"
    "kinv base cpus (set cpus) {} s'" "resched_frame (e_cpu e) (mp_reschedule (e_cpu e) MP_CPU_ALL_BUT_LOCAL False s3) s'"
    by blast
  have "wait_queue_wake_one e w True err s = Some (1, s')"
    using w l s1(1) s2(1) s3(1) s'(1) by (simp add: wait_queue_wake_one_def Let_def)
  then show ?thesis
    using s' s3(3) s2(4-6) s1(4,6,7) by (auto simp: kernel_inv_def resched_frame_def enqueued_def)
qed

lemma wait_queue_wake_all_noresched:
  assumes inv: "kinv base cpus X {} s" and w: "wq_magic (wait_queues s w)"
  shows "\<exists>s'. wait_queue_wake_all e w False err s = Some (int (length (node_lists s (Wait_List w))), s')
    \<and> kinv base cpus X {} s' \<and> node_lists s' (Wait_List w) = []
    \<and> (\<forall>t\<in>set (node_lists s (Wait_List w)). woken err (threads s t) (threads s' t))
    \<and> (\<forall>x. x \<notin> set (node_lists s (Wait_List w)) \<longrightarrow> threads s' x = threads s x)
    \<and> current_thread s' = current_thread s \<and> all_queued s' = all_queued s
    \<and> (\<forall>v. wq_magic (wait_queues s' v) = wq_magic (wait_queues s v))
    \<and> (\<forall>v. v \<noteq> w \<longrightarrow> node_lists s' (Wait_List v) = node_lists s (Wait_List v))"
proof -
  let ?ts = "node_lists s (Wait_List w)"
  from wake_all_loop_inv [OF inv refl, of w err] obtain s1 where
    s1: "wake_all_loop w err ?ts s = Some s1" "kinv base cpus X {} s1" "node_lists s1 (Wait_List w) = []"
    "\<And>v. v \<noteq> w \<Longrightarrow> node_lists s1 (Wait_List v) = node_lists s (Wait_List v)"
    "\<And>t. t \<in> set ?ts \<Longrightarrow> woken err (threads s t) (threads s1 t)" "\<And>x. x \<notin> set ?ts \<Longrightarrow> threads s1 x = threads s x"
    "current_thread s1 = current_thread s" "same_timers s s1"
    "\<And>v. wq_magic (wait_queues s1 v) = wq_magic (wait_queues s v)" by blast
  have "wq_count (wait_queues s1 w) = 0"
    using s1(2,3) by (simp add: kinv_def sched_inv_def count_ok_def)
  then have "wait_queue_wake_all e w False err s = Some (int (length ?ts),
      if ?ts = [] then s1 else mp_reschedule (e_cpu e) MP_CPU_ALL_BUT_LOCAL False s1)"
    using w s1(1) by (simp add: wait_queue_wake_all_def Let_def)
  then show ?thesis
    using s1 kinv_mp_reschedule [OF s1(2)] same_timers_inv(2) [OF s1(8)] by auto
qed

lemma wait_queue_wake_all_resched:
  assumes inv: "kernel_inv base cpus s" and e: "env_ok base e" "e_cpus e = cpus"
    and ni: "\<not> thread_is_idle (threads s (current_thread s (e_cpu e)))" and w: "wq_magic (wait_queues s w)"
  shows "\<exists>s'. wait_queue_wake_all e w True err s = Some (int (length (node_lists s (Wait_List w))), s')
    \<and> kernel_inv base cpus s' \<and> node_lists s' (Wait_List w) = []
    \<and> (\<forall>t\<in>set (node_lists s (Wait_List w)). t_blocked_status (threads s' t) = err
         \<and> t_state (threads s' t) \<in> {THREAD_READY, THREAD_RUNNING})
    \<and> (\<forall>v. wq_magic (wait_queues s' v) = wq_magic (wait_queues s v))
    \<and> (running_ok e s \<longrightarrow> running_ok e s')
    \<and> (\<forall>v. v \<noteq> w \<longrightarrow> node_lists s' (Wait_List v) = node_lists s (Wait_List v))"
proof (cases "node_lists s (Wait_List w) = []")
  case True
  then have "wq_count (wait_queues s w) = 0" using inv by (simp add: kernel_inv_def kinv_def sched_inv_def count_ok_def)
  with True w inv show ?thesis by (simp add: wait_queue_wake_all_def Let_def)
next
  case False
  let ?ct = "current_thread s (e_cpu e)"
  have k: "kinv base cpus (set cpus) {} s" using inv by (simp add: kernel_inv_def)
  have c: "wq_count (wait_queues s w) > 0" using k False by (simp add: kinv_def sched_inv_def count_ok_def)
  from kinv_yield_to_woken [OF k e refl _ ni] obtain s1 where
    s1: "insert_in_run_queue_head ?ct (upd_thread ?ct (\<lambda>th. th\<lparr>t_state := THREAD_READY\<rparr>) s) = Some s1"
      "kinv base cpus (set cpus - {e_cpu e}) {} s1" "current_thread s1 = current_thread s" "wait_queues s1 = wait_queues s"
      "\<And>w. node_lists s1 (Wait_List w) = node_lists s (Wait_List w)"
      "threads s1 = (threads s)(?ct := (threads s ?ct)\<lparr>t_state := THREAD_READY,
         t_queue_node := Some (Run_Queue (t_priority (threads s ?ct)))\<rparr>)" by auto
  from wake_all_loop_inv [OF s1(2) refl, of w err] obtain s2 where
    s2: "wake_all_loop w err (node_lists s1 (Wait_List w)) s1 = Some s2" "kinv base cpus (set cpus - {e_cpu e}) {} s2"
      "node_lists s2 (Wait_List w) = []"
      "\<And>t. t \<in> set (node_lists s1 (Wait_List w)) \<Longrightarrow> woken err (threads s1 t) (threads s2 t)"
      "\<And>v. wq_magic (wait_queues s2 v) = wq_magic (wait_queues s1 v)"
      "\<And>x. x \<notin> set (node_lists s1 (Wait_List w)) \<Longrightarrow> threads s2 x = threads s1 x"
      "\<And>v. v \<noteq> w \<Longrightarrow> node_lists s2 (Wait_List v) = node_lists s1 (Wait_List v)" by blast
  have "?ct \<notin> set (node_lists s1 (Wait_List w))" using kinv_node_iff [OF s1(2), of ?ct "Wait_List w"] s1(6) by simp
  then have el: "eligible (e_cpu e) s2 ?ct" if "running_ok e s"
    using that s2(6) [of ?ct] s1(6) by (auto simp: eligible_def running_ok_def runs_on_def)
  have "wq_count (wait_queues s2 w) = 0" using s2(2,3) by (simp add: kinv_def sched_inv_def count_ok_def)
  moreover from kinv_resched [OF kinv_mp_reschedule [OF s2(2)] e, of "e_cpu e" MP_CPU_ALL_BUT_LOCAL False] obtain s' where
    s': "thread_resched e (mp_reschedule (e_cpu e) MP_CPU_ALL_BUT_LOCAL False s2) = Some s'"
    "kinv base cpus (set cpus) {} s'" "resched_frame (e_cpu e) (mp_reschedule (e_cpu e) MP_CPU_ALL_BUT_LOCAL False s2) s'"
    by blast
  ultimately have "wait_queue_wake_all e w True err s = Some (int (length (node_lists s (Wait_List w))), s')"
    using w c False s1(1,5) s2(1) by (simp add: wait_queue_wake_all_def Let_def)
  moreover have "running_ok e s'" if "running_ok e s"
    using resched_running [OF kinv_mp_reschedule [OF s2(2)] s'(3), of ?ct] el [OF that] by (simp add: eligible_def)
  ultimately show ?thesis
    using s' s2(3-5,7) s1(4,5) by (auto simp: kernel_inv_def resched_frame_def woken_def)
qed

lemma wait_queue_destroy_inv:
  assumes inv: "kernel_inv base cpus s" and e: "env_ok base e" "e_cpus e = cpus"
    and ni: "\<not> thread_is_idle (threads s (current_thread s (e_cpu e)))" and w: "wq_magic (wait_queues s w)"
  shows "\<exists>s'. wait_queue_destroy e w True s = Some s' \<and> kernel_inv base cpus s'
    \<and> node_lists s' (Wait_List w) = [] \<and> \<not> wq_magic (wait_queues s' w)
    \<and> (\<forall>t\<in>set (node_lists s (Wait_List w)). t_blocked_status (threads s' t) = ERR_CANCELLED
         \<and> t_state (threads s' t) \<in> {THREAD_READY, THREAD_RUNNING})"
proof -
  from wait_queue_wake_all_resched [OF assms, of ERR_CANCELLED] obtain s1 where
    s1: "wait_queue_wake_all e w True ERR_CANCELLED s = Some (int (length (node_lists s (Wait_List w))), s1)"
      "kernel_inv base cpus s1" "node_lists s1 (Wait_List w) = []"
      "\<And>t. t \<in> set (node_lists s (Wait_List w)) \<Longrightarrow> t_blocked_status (threads s1 t) = ERR_CANCELLED
         \<and> t_state (threads s1 t) \<in> {THREAD_READY, THREAD_RUNNING}" by blast
  let ?s = "upd_wq w (\<lambda>q. q\<lparr>wq_magic := False\<rparr>) s1"
  have si: "sched_inv (set cpus) (set cpus) {} s1" and ti: "ktimer_inv base cpus s1"
    using s1(2) by (auto simp: kernel_inv_def kinv_def)
  have nq: "t_queue_node (threads s1 t) \<noteq> Some (Wait_List w)" for t
    using si s1(3) by (metis empty_iff empty_set node_lists_ok_def sched_inv_def)
  have "thread_ok ?s t" for t
    using si nq [of t] by (auto simp: sched_inv_def thread_ok_def place_ok_def split: option.splits queue_ref.splits)
      (auto dest!: spec [of _ t])
  moreover have "node_lists_ok ?s" "bitmap_ok ?s" "count_ok ?s" "idle_ok (set cpus) ?s" "current_ok (set cpus) (set cpus) ?s"
    using si by (auto simp: sched_inv_def node_lists_ok_def bitmap_ok_def count_ok_def idle_ok_def current_ok_def)
  moreover have "ktimer_inv base cpus ?s" by (rule ktimer_inv_frame [OF ti]) auto
  ultimately have "kernel_inv base cpus ?s" by (simp add: kernel_inv_def kinv_def sched_inv_def)
  then show ?thesis using s1 w by (auto simp: wait_queue_destroy_def)
qed

lemma thread_unblock_sched:
  assumes si: "sched_inv cpus X {} s" and m: "t_magic (threads s t)"
  shows "\<exists>s'. thread_unblock_from_wait_queue e t err s =
      Some (if t_state (threads s t) = THREAD_BLOCKED then NO_ERROR else ERR_NOT_BLOCKED, s')
    \<and> sched_inv cpus X {} s' \<and> handler_frame s s'
    \<and> (if t_state (threads s t) = THREAD_BLOCKED then woken err (threads s t) (threads s' t) else s' = s)
    \<and> (\<forall>x. x \<noteq> t \<longrightarrow> threads s' x = threads s x)"
proof (cases "t_state (threads s t) = THREAD_BLOCKED")
  case False
  then show ?thesis using m si by (simp add: thread_unblock_from_wait_queue_def)
next
  case True
  have tk: "thread_ok s t" and nl: "node_lists_ok s" using si by (auto simp: sched_inv_def)
  then obtain w where w: "t_queue_node (threads s t) = Some (Wait_List w)" "t_blocking_wait_queue (threads s t) = Some w"
    "wq_magic (wait_queues s w)"
    using True by (auto simp: thread_ok_def place_ok_def split: option.splits queue_ref.splits)
  then have "t \<in> set (node_lists s (Wait_List w))" using nl by (simp add: node_lists_ok_def)
  from wake_head_sched [OF si this, of err] obtain s1 where s1: "wake_head w t err s = Some s1"
    "sched_inv cpus X {t} s1" "ready_to_queue t s1"
    "threads s1 = (threads s)(t := (threads s t)\<lparr>t_queue_node := None, t_state := THREAD_READY,
         t_blocked_status := err, t_blocking_wait_queue := None\<rparr>)" "handler_frame s s1" by blast
  from sched_insert_head [OF s1(2,3)] obtain s2 where s2: "insert_in_run_queue_head t s1 = Some s2"
    "sched_inv cpus X {} s2" "enqueued t s1 s2" by auto
  have eq: "s1 = upd_thread t (\<lambda>th. th\<lparr>t_blocking_wait_queue := None, t_state := THREAD_READY, t_blocked_status := err\<rparr>)
     (upd_wq w (\<lambda>q. q\<lparr>wq_count := wq_count q - 1\<rparr>) (node_delete t s))"
  proof -
    have f: "(\<lambda>th. th\<lparr>t_state := THREAD_READY, t_blocked_status := err, t_blocking_wait_queue := None\<rparr>) =
      (\<lambda>th. th\<lparr>t_blocking_wait_queue := None, t_state := THREAD_READY, t_blocked_status := err\<rparr>)"
      by (rule ext, rule thread.equality) simp_all
    from s1(1) show ?thesis unfolding f [symmetric] by (auto simp: wake_head_def Let_def Option.bind_eq_Some_conv)
  qed
  let ?s' = "mp_reschedule (e_cpu e) MP_CPU_ALL_BUT_LOCAL False s2"
  have "thread_unblock_from_wait_queue e t err s = Some (NO_ERROR, ?s')"
    using m True w s2(1) unfolding thread_unblock_from_wait_queue_def Let_def eq by simp
  moreover have "handler_frame s ?s'"
    using handler_frame_trans [OF s1(5) handler_frame_trans [OF enqueued_handler_frame [OF s2(3)]]] by simp
  moreover have "sched_inv cpus X {} ?s'" using s2(2) same_sched_inv [OF same_mp_reschedule(1)] by simp
  ultimately show ?thesis
    using True s1 s2 by (auto simp: enqueued_def woken_def)
qed

lemma thread_unblock_from_wait_queue_inv:
  assumes inv: "kernel_inv base cpus s" and m: "t_magic (threads s t)"
  shows "\<exists>s'. thread_unblock_from_wait_queue e t err s =
      Some (if t_state (threads s t) = THREAD_BLOCKED then NO_ERROR else ERR_NOT_BLOCKED, s')
    \<and> kernel_inv base cpus s' \<and> handler_frame s s'
    \<and> (if t_state (threads s t) = THREAD_BLOCKED then woken err (threads s t) (threads s' t) else s' = s)
    \<and> (\<forall>x. x \<noteq> t \<longrightarrow> threads s' x = threads s x)"
  using thread_unblock_sched [OF _ m, of "set cpus" "set cpus" e err] inv ktimer_inv_handler [of base cpus s]
  unfolding kernel_inv_def kinv_def by blast

section \<open>Sleeping\<close>

lemma thread_sleep_handler_sched:
  assumes si: "sched_inv cpus X {} s" and m: "t_magic (threads s t)"
  shows "\<exists>s'. thread_sleep_handler t s =
      Some (if t_state (threads s t) = THREAD_SLEEPING then INT_RESCHEDULE else INT_NO_RESCHEDULE, s')
    \<and> sched_inv cpus X {} s' \<and> handler_frame s s'
    \<and> (\<forall>x. x \<noteq> t \<longrightarrow> threads s' x = threads s x)
    \<and> (if t_state (threads s t) = THREAD_SLEEPING then woken NO_ERROR (threads s t) (threads s' t) else s' = s)"
proof (cases "t_state (threads s t) = THREAD_SLEEPING")
  case False
  then show ?thesis using m si by (simp add: thread_sleep_handler_def)
next
  case True
  have tk: "thread_ok s t" using si by (simp add: sched_inv_def)
  let ?f = "\<lambda>th. th\<lparr>t_state := THREAD_READY, t_blocked_status := NO_ERROR\<rparr>"
  have "sched_inv cpus X {t} (upd_thread t ?f s)"
    using sched_inv_upd_thread [OF si, of ?f t] True m by (simp add: thread_is_idle_def)
  moreover have "ready_to_queue t (upd_thread t ?f s)"
    using tk True m by (auto simp: ready_to_queue_def thread_ok_def place_ok_def thread_is_idle_def
        split: option.splits queue_ref.splits)
  ultimately obtain s' where s': "insert_in_run_queue_head t (upd_thread t ?f s) = Some s'"
    "sched_inv cpus X {} s'" "enqueued t (upd_thread t ?f s) s'"
    using sched_insert_head [of cpus X t "{}"] by auto
  have "handler_frame s (upd_thread t ?f s)" by (simp add: handler_frame_def)
  from handler_frame_trans [OF this enqueued_handler_frame [OF s'(3)]] show ?thesis
    using True m s' by (auto simp: thread_sleep_handler_def Let_def enqueued_def woken_def)
qed

section \<open>The timer tick\<close>

lemma wait_queue_timeout_handler_sched:
  assumes si: "sched_inv cpus X {} s" and m: "t_magic (threads s t)"
  shows "\<exists>r s'. wait_queue_timeout_handler e t s = Some (r, s') \<and> sched_inv cpus X {} s' \<and> handler_frame s s'"
  using thread_unblock_sched [OF si m, of e ERR_TIMED_OUT] m by (auto simp: wait_queue_timeout_handler_def)

lemma thread_timer_tick_sched:
  assumes si: "sched_inv cpus X {} s"
  shows "sched_inv cpus X {} (snd (thread_timer_tick c s)) \<and> handler_frame s (snd (thread_timer_tick c s))"
proof -
  let ?ct = "current_thread s c"
  let ?f = "\<lambda>th. th\<lparr>t_remaining_quantum := t_remaining_quantum th - 1\<rparr>"
  have tk: "thread_ok s ?ct" and mg: "thread_is_idle (threads s ?ct) \<Longrightarrow> t_magic (threads s ?ct)"
    using si by (auto simp: sched_inv_def idle_ok_def)
  have "sched_inv cpus X {?ct} (upd_thread ?ct ?f s)"
    using sched_inv_upd_thread [OF si, of ?f ?ct] mg by (simp add: thread_is_idle_def)
  moreover have "thread_ok (upd_thread ?ct ?f s) ?ct"
    using tk by (auto simp: thread_ok_def place_ok_def thread_is_idle_def split: option.splits queue_ref.splits)
  ultimately have "sched_inv cpus X {} (upd_thread ?ct ?f s)"
    using sched_inv_close [of cpus X ?ct "{}" "upd_thread ?ct ?f s"] by simp
  then show ?thesis using si by (simp add: thread_timer_tick_def Let_def handler_frame_def)
qed

text \<open>What the scheduler's callbacks keep while a tick runs.\<close>

fun tick_ok :: "cpu_num list \<times> (cpu_num \<Rightarrow> tid) \<times> (tid \<Rightarrow> u32) \<Rightarrow> kstate \<Rightarrow> bool" where
  "tick_ok (cpus, cur, fl) s \<longleftrightarrow> sched_inv (set cpus) (set cpus) {} s \<and> current_thread s = cur \<and>
     (\<forall>t. t_flags (threads s t) = fl t)"

lemma kernel_callback_law:
  assumes "sched_inv cpus X {} s" "kcb_ok c s"
  shows "\<exists>r s'. kernel_callback e t now (Some c) s = Some (r, s') \<and> sched_inv cpus X {} s' \<and> handler_frame s s'"
proof (cases c)
  case (CB_thread_sleep_handler x)
  then show ?thesis using thread_sleep_handler_sched [OF assms(1), of x] assms(2) by auto
next
  case (CB_wait_queue_timeout_handler x)
  then show ?thesis using wait_queue_timeout_handler_sched [OF assms(1), of x e] assms(2) by auto
next
  case CB_thread_timer_tick
  then show ?thesis using thread_timer_tick_sched [OF assms(1), of "e_cpu e"]
    by (cases "thread_timer_tick (e_cpu e) s") auto
qed

interpretation kcb: timer_callbacks_frame kernel_callback tick_ok kcb_ok
proof
  fix p s q tt h c
  show "tick_ok p (s\<lparr>timer_queue := q, timer_tab := tt, hw_timer := h\<rparr>) = tick_ok p s"
    using same_sched_inv [of s "s\<lparr>timer_queue := q, timer_tab := tt, hw_timer := h\<rparr>"]
    by (cases p) (simp add: same_sched_def)
  show "kcb_ok c (s\<lparr>timer_queue := q, timer_tab := tt, hw_timer := h\<rparr>) = kcb_ok c s"
    by (cases c) simp_all
next
  fix p s c e t now
  assume ok: "tick_ok p s" "kcb_ok c s"
  obtain cpus cur fl where p: "p = (cpus, cur, fl)" by (cases p)
  have si: "sched_inv (set cpus) (set cpus) {} s" using ok p by simp
  from kernel_callback_law [OF si ok(2), of e t now] obtain r s' where
    r: "kernel_callback e t now (Some c) s = Some (r, s')" "sched_inv (set cpus) (set cpus) {} s'" "handler_frame s s'"
    by blast
  have "kcb_ok c' s \<Longrightarrow> kcb_ok c' s'" for c' using r(3) by (cases c') (auto simp: handler_frame_def)
  then show "\<exists>r s'. kernel_callback e t now (Some c) s = Some (r, s') \<and> timer_queue s' = timer_queue s \<and>
      timer_tab s' = timer_tab s \<and> tick_ok p s' \<and> (\<forall>c'. kcb_ok c' s \<longrightarrow> kcb_ok c' s')"
    using r ok p by (auto simp: handler_frame_def same_timers_def)
qed

text \<open>The timer interrupt returns and keeps the kernel's invariant.\<close>

lemma kernel_timer_tick_inv:
  assumes inv: "kernel_inv base cpus s" and e: "env_ok base e" "e_cpus e = cpus"
  shows "\<exists>r s'. kernel_timer_tick e s = Some (r, s') \<and> kernel_inv base cpus s'
    \<and> due_timers (e_now e) (e_cpu e) s' = {} \<and> timer_armed base (e_now e) (e_cpu e) s'
    \<and> current_thread s' = current_thread s"
proof -
  let ?p = "(cpus, current_thread s, \<lambda>t. t_flags (threads s t))"
  have te: "tick_env base cpus (e_cpu e) (e_now e)" using e by (simp add: tick_env_def env_ok_def)
  have h: "timer_inv base cpus s" "tick_ok ?p s" "callbacks_ok kcb_ok s" and pr: "preempt_ok cpus s"
    using inv by (auto simp: kernel_inv_def kinv_def ktimer_inv_def)
  from kcb.timer_tick_returns [OF te h, of e] obtain r s' where
    t: "timer_tick (kernel_callback e) cpus (e_cpu e) (e_now e) s = Some (r, s')"
    and i: "timer_inv base cpus s'" "tick_ok ?p s'" "callbacks_ok kcb_ok s'"
      "due_timers (e_now e) (e_cpu e) s' = {}" "timer_armed base (e_now e) (e_cpu e) s'" by blast
  note kept = kcb.timer_tick_kept [OF te h t]
  have "preempt_ok cpus s'"
    using pr kept i(2) by (auto simp: preempt_ok_def timers_kept_def thread_is_real_time_or_idle_def)
  with t i e show ?thesis by (auto simp: kernel_timer_tick_def kernel_inv_def kinv_def ktimer_inv_def)
qed

lemma thread_sleep_enter_inv:
  assumes inv: "kernel_inv base cpus s" and e: "env_ok base e" "e_cpus e = cpus"
    and ct: "ct = current_thread s (e_cpu e)" and ni: "\<not> thread_is_idle (threads s ct)"
    and to: "tdist base (e_now e) + unat delay + 1 < 2 ^ 31" and nin: "Stack_Timer ct \<notin> all_queued s"
    and nk: "\<not> (interruptable \<and> bit (t_signals (threads s ct)) 0)"
  shows "\<exists>s'. thread_sleep_enter e delay interruptable s = Some (Switched, s') \<and> kernel_inv base cpus s'
    \<and> Stack_Timer ct \<in> all_queued s' \<and> t_state (threads s' ct) \<in> {THREAD_SLEEPING}"
proof -
  note cf = current_facts [OF inv e ct]
  have k: "kinv base cpus (set cpus) {} s" using inv by (simp add: kernel_inv_def)
  from kinv_stack_timer [OF k e to nin, of "CB_thread_sleep_handler ct"] cf obtain s1 where
    s1: "timer_set_oneshot (e_cpus e) (e_cpu e) (e_now e) (Stack_Timer ct) delay (CB_thread_sleep_handler ct)
      (timer_initialize (Stack_Timer ct) s) = Some s1" "kinv base cpus (set cpus) {} s1" "same_sched s s1"
      "all_queued s1 = insert (Stack_Timer ct) (all_queued s)" by auto
  let ?f = "\<lambda>th. th\<lparr>t_state := THREAD_SLEEPING, t_blocked_status := NO_ERROR, t_interruptable := interruptable\<rparr>"
  let ?s2 = "upd_thread ct ?f s1"
  have ct1: "ct = current_thread s1 (e_cpu e)" and th1: "threads s1 = threads s" using ct s1(3) by (auto simp: same_sched_def)
  have c: "e_cpu e \<in> set cpus" using e by (auto simp: env_ok_def)
  have "kinv base cpus (set cpus - {e_cpu e}) {ct} ?s2"
    using kinv_stop_current [OF s1(2) c ct1, of ?f] by simp
  moreover have "thread_ok ?s2 ct"
    using cf ni th1 by (simp add: thread_ok_def place_ok_def thread_is_idle_def)
  ultimately have k2: "kinv base cpus (set cpus - {e_cpu e}) {} ?s2"
    using sched_inv_close [of "set cpus" "set cpus - {e_cpu e}" ct "{}" ?s2] by (simp add: kinv_def)
  from kinv_resched [OF k2 e] obtain s' where s': "thread_resched e ?s2 = Some s'" "kinv base cpus (set cpus) {} s'"
    "resched_frame (e_cpu e) ?s2 s'" by blast
  have "t_state (threads ?s2 ct) = THREAD_SLEEPING" "\<not> thread_is_idle (threads ?s2 ct)"
    using ni th1 by (simp_all add: thread_is_idle_def)
  with chosen_ready(2) [OF k2 c] have "chosen (e_cpu e) ?s2 \<noteq> ct" by auto
  then show ?thesis
    using cf ni nk s1 s' th1 ct
    by (auto simp: thread_sleep_enter_def Let_def kernel_inv_def resched_frame_def timer_initialize_def
        same_timers_inv(2) [OF upd_thread_sel(6)])
qed

section \<open>Life of a thread\<close>

lemma kinv_make_ready:
  assumes inv: "kinv base cpus X {} s"
    and t: "t_queue_node (threads s t) = None" "t_state (threads s t) \<noteq> THREAD_RUNNING" "t_magic (threads s t)"
      "\<not> thread_is_idle (threads s t)"
    and f: "\<And>th. t_queue_node (f th) = t_queue_node th" "\<And>th. t_state (f th) = THREAD_READY"
      "\<And>th. t_flags (f th) = t_flags th" "\<And>th. t_magic (f th) = t_magic th" "\<And>th. t_priority (f th) = t_priority th"
      "\<And>th. t_blocking_wait_queue (f th) = t_blocking_wait_queue th"
  shows "\<exists>s'. insert_in_run_queue_head t (upd_thread t f s) = Some s' \<and> kinv base cpus X {} s'
    \<and> enqueued t (upd_thread t f s) s'"
proof -
  have tk: "thread_ok s t" using inv by (simp add: kinv_def sched_inv_def)
  have "kinv base cpus X {t} (upd_thread t f s)"
    using kinv_upd_thread [OF inv, of f t] t(2) by (simp add: f)
  moreover have "ready_to_queue t (upd_thread t f s)"
    using tk t by (auto simp: ready_to_queue_def thread_ok_def place_ok_def thread_is_idle_def f)
  ultimately show ?thesis using kinv_insert_head [of base cpus X t "{}"] by auto
qed

lemma thread_resume_inv:
  assumes inv: "kernel_inv base cpus s" and e: "env_ok base e" "e_cpus e = cpus"
    and t: "t_magic (threads s t)" "t_state (threads s t) \<noteq> THREAD_DEATH" "\<not> thread_is_idle (threads s t)"
  shows "\<exists>s'. thread_resume e ints t s = Some (NO_ERROR, s') \<and> kernel_inv base cpus s'"
proof -
  have k: "kinv base cpus (set cpus) {} s" and tk: "thread_ok s t"
    using inv by (auto simp: kernel_inv_def kinv_def sched_inv_def)
  let ?f = "\<lambda>th. th\<lparr>t_state := THREAD_READY\<rparr>"
  have "\<exists>s1. (if t_state (threads s t) = THREAD_SUSPENDED then insert_in_run_queue_head t (upd_thread t ?f s)
      else Some s) = Some s1 \<and> kernel_inv base cpus s1"
  proof (cases "t_state (threads s t) = THREAD_SUSPENDED")
    case True
    then have "t_queue_node (threads s t) = None"
      using tk by (auto simp: thread_ok_def place_ok_def split: option.splits queue_ref.splits)
    from kinv_make_ready [OF k this _ t(1,3), of ?f] True show ?thesis by (auto simp: kernel_inv_def)
  qed (use inv in auto)
  then obtain s1 where s1: "(if t_state (threads s t) = THREAD_SUSPENDED then insert_in_run_queue_head t (upd_thread t ?f s)
      else Some s) = Some s1" "kernel_inv base cpus s1" by blast
  have k2: "kernel_inv base cpus (mp_reschedule (e_cpu e) MP_CPU_ALL_BUT_LOCAL False s1)"
    using kinv_mp_reschedule s1(2) by (simp add: kernel_inv_def)
  from thread_yield_inv [OF k2 e] k2 s1(1) t(1,2) show ?thesis
    by (cases "t_state (threads s t) = THREAD_SUSPENDED"; cases ints) (auto simp: thread_resume_def Let_def)
qed

lemma kernel_inv_signal:
  assumes "kernel_inv base cpus s"
  shows "kernel_inv base cpus (upd_thread t (\<lambda>th. th\<lparr>t_signals := g (t_signals th)\<rparr>) s)"
proof -
  let ?f = "\<lambda>th. th\<lparr>t_signals := g (t_signals th)\<rparr>"
  have k: "kinv base cpus (set cpus) {} s" and tk: "thread_ok s t"
    using assms by (auto simp: kernel_inv_def kinv_def sched_inv_def)
  have "kinv base cpus (set cpus) {t} (upd_thread t ?f s)" using kinv_upd_thread [OF k, of ?f t] by simp
  moreover have "thread_ok (upd_thread t ?f s) t"
    using tk by (auto simp: thread_ok_def place_ok_def thread_is_idle_def split: option.splits queue_ref.splits)
  ultimately show ?thesis
    using sched_inv_close [of "set cpus" "set cpus" t "{}" "upd_thread t ?f s"] by (simp add: kernel_inv_def kinv_def)
qed

text \<open>A kill that does not wait: the signal is delivered and an interruptible wait or sleep ends.\<close>

lemma thread_kill_inv:
  assumes inv: "kernel_inv base cpus s" and m: "t_magic (threads s t)"
    and ni: "\<not> thread_is_idle (threads s t)"
  shows "\<exists>s'. thread_kill e t False s = Some s' \<and> kernel_inv base cpus s' \<and> bit (t_signals (threads s' t)) 0
    \<and> (t \<noteq> current_thread s (e_cpu e) \<and> t_interruptable (threads s t)
        \<and> t_state (threads s t) \<in> {THREAD_BLOCKED, THREAD_SLEEPING} \<longrightarrow>
       t_state (threads s' t) = THREAD_READY \<and> t_blocked_status (threads s' t) = ERR_INTERRUPTED)"
proof -
  let ?s = "upd_thread t (\<lambda>th. th\<lparr>t_signals := t_signals th OR THREAD_SIGNAL_KILL\<rparr>) s"
  have i1: "kernel_inv base cpus ?s" using kernel_inv_signal [OF inv] .
  have k1: "kinv base cpus (set cpus) {} ?s" using i1 by (simp add: kernel_inv_def)
  have b: "bit (t_signals (threads ?s t)) 0" by (simp add: bit_or_iff)
  have tk: "thread_ok s t" using inv by (simp add: kernel_inv_def kinv_def sched_inv_def)
  show ?thesis
  proof (cases "t \<noteq> current_thread s (e_cpu e) \<and> t_interruptable (threads s t)
        \<and> t_state (threads s t) \<in> {THREAD_BLOCKED, THREAD_SLEEPING}")
    case False
    have "\<exists>s'. thread_kill e t False s = Some s' \<and> (s' = ?s \<or> (\<exists>c m r. s' = mp_reschedule c m r ?s))"
      using False m by (cases "t_state (threads s t)") (auto simp: thread_kill_def Let_def)
    then obtain s' where s': "thread_kill e t False s = Some s'" "s' = ?s \<or> (\<exists>c m r. s' = mp_reschedule c m r ?s)" by blast
    then have "kernel_inv base cpus s'" using kinv_mp_reschedule [OF k1] i1 by (auto simp: kernel_inv_def)
    moreover have "bit (t_signals (threads s' t)) 0" using s'(2) b by auto
    ultimately show ?thesis using False s'(1) by blast
  next
    case True
    show ?thesis
    proof (cases "t_state (threads s t) = THREAD_BLOCKED")
      case bl: True
      from thread_unblock_from_wait_queue_inv [OF i1, of t e ERR_INTERRUPTED] m bl obtain s' where
        s': "thread_unblock_from_wait_queue e t ERR_INTERRUPTED ?s = Some (NO_ERROR, s')" "kernel_inv base cpus s'"
          "woken ERR_INTERRUPTED (threads ?s t) (threads s' t)" by auto
      then show ?thesis using True bl m s' b by (auto simp: thread_kill_def Let_def woken_def)
    next
      case sl: False
      then have st: "t_state (threads s t) = THREAD_SLEEPING" using True by blast
      then have "t_queue_node (threads ?s t) = None"
        using tk by (auto simp: thread_ok_def place_ok_def split: option.splits queue_ref.splits)
      from kinv_make_ready [OF k1 this, of "\<lambda>th. th\<lparr>t_state := THREAD_READY, t_blocked_status := ERR_INTERRUPTED\<rparr>"]
        st m ni obtain s' where
        "insert_in_run_queue_head t (upd_thread t (\<lambda>th. th\<lparr>t_state := THREAD_READY,
            t_blocked_status := ERR_INTERRUPTED\<rparr>) ?s) = Some s'" "kinv base cpus (set cpus) {} s'"
        "enqueued t (upd_thread t (\<lambda>th. th\<lparr>t_state := THREAD_READY, t_blocked_status := ERR_INTERRUPTED\<rparr>) ?s) s'"
        by (auto simp: thread_is_idle_def)
      then show ?thesis using True st m b by (auto simp: thread_kill_def Let_def kernel_inv_def enqueued_def)
    qed
  qed
qed

definition no_callback_for :: "tid \<Rightarrow> kstate \<Rightarrow> bool" where
  "no_callback_for t s \<longleftrightarrow> (\<forall>x\<in>all_queued s. callback (timer_tab s x) \<notin>
     {Some (CB_thread_sleep_handler t), Some (CB_wait_queue_timeout_handler t)})"

text \<open>The teardown of a detached thread: its flags lose the stack check and its magic is cleared.\<close>

lemma kinv_teardown:
  assumes inv: "kinv base cpus X {} s" and nc: "no_callback_for t s"
    and t: "t_state (threads s t) = THREAD_DEATH" "\<not> thread_is_idle (threads s t)"
    and th: "t_state (th') = THREAD_DEATH" "\<not> t_magic th'" "t_queue_node th' = t_queue_node (threads s t)"
      "t_priority th' = t_priority (threads s t)" "t_blocking_wait_queue th' = t_blocking_wait_queue (threads s t)"
      "\<And>i. i < 5 \<Longrightarrow> bit (t_flags th') i = bit (t_flags (threads s t)) i"
    and s': "threads s' = (threads s)(t := th')" "node_lists s' = node_lists s" "wait_queues s' = wait_queues s"
      "run_queue_bitmap s' = run_queue_bitmap s" "current_thread s' = current_thread s" "same_timers s s'"
  shows "kinv base cpus X {} s'"
proof -
  have si: "sched_inv (set cpus) X {} s" and ti: "ktimer_inv base cpus s" using inv by (auto simp: kinv_def)
  have tk: "\<And>x. thread_ok s x" using si by (simp add: sched_inv_def)
  have idl: "thread_is_idle (threads s' x) = thread_is_idle (threads s x)"
    "thread_is_real_time_or_idle (threads s' x) = thread_is_real_time_or_idle (threads s x)" for x
    using th(6) by (auto simp: s'(1) thread_is_idle_def thread_is_real_time_or_idle_def)
  have "node_lists_ok s'" "bitmap_ok s'" "count_ok s'"
    using si th(3) by (auto simp: sched_inv_def node_lists_ok_def bitmap_ok_def count_ok_def s')
  moreover have "idle_ok (set cpus) s'" "current_ok (set cpus) X s'"
    using si t th idl unfolding sched_inv_def idle_ok_def current_ok_def by (auto simp: s')
  moreover have "thread_ok s' x" for x
    using tk [of x] tk [of t] t th idl [of x] idl [of t]
    by (auto simp: thread_ok_def place_ok_def s' split: option.splits queue_ref.splits)
  ultimately have "sched_inv (set cpus) X {} s'" by (simp add: sched_inv_def)
  moreover have "kcb_ok c s'" if "callback (timer_tab s x) = Some c" "x \<in> all_queued s" "kcb_ok c s" for x c
    using that nc by (cases c) (auto simp: no_callback_for_def s')
  then have "ktimer_inv base cpus s'"
    using ti same_timers_inv [OF s'(6)] idl s'(5,6)
    by (auto simp: ktimer_inv_def preempt_ok_def callbacks_ok_def same_timers_def)
  ultimately show ?thesis by (simp add: kinv_def)
qed

lemma exit_detached_inv:
  assumes k: "kinv base cpus X {} s" and nc: "no_callback_for ct s"
    and d: "t_state (threads s ct) = THREAD_DEATH" "\<not> thread_is_idle (threads s ct)"
  shows "kinv base cpus X {} (exit_detached ct s)" "t_state (threads (exit_detached ct s) ct) = THREAD_DEATH"
    "\<not> thread_is_idle (threads (exit_detached ct s) ct)"
proof -
  let ?s = "exit_detached ct s"
  have sel: "threads ?s = (threads s)(ct := threads ?s ct)" "node_lists ?s = node_lists s"
    "wait_queues ?s = wait_queues s" "run_queue_bitmap ?s = run_queue_bitmap s" "current_thread ?s = current_thread s"
    "same_timers s ?s"
    by (auto simp: exit_detached_def Let_def same_timers_def upd_thread_def)
  have th: "t_state (threads ?s ct) = THREAD_DEATH" "\<not> t_magic (threads ?s ct)"
    "t_queue_node (threads ?s ct) = t_queue_node (threads s ct)" "t_priority (threads ?s ct) = t_priority (threads s ct)"
    "t_blocking_wait_queue (threads ?s ct) = t_blocking_wait_queue (threads s ct)"
    "\<And>i. i < 5 \<Longrightarrow> bit (t_flags (threads ?s ct)) i = bit (t_flags (threads s ct)) i"
    using d(1) by (auto simp: exit_detached_def Let_def bit_and_iff bit_not_iff)
  show "kinv base cpus X {} ?s" by (rule kinv_teardown [OF k nc d th sel])
  show "t_state (threads ?s ct) = THREAD_DEATH" by (rule th)
  show "\<not> thread_is_idle (threads ?s ct)" using th(6) [of 4] d(2) by (simp add: thread_is_idle_def)
qed

lemma exit_joinable_inv:
  assumes k: "kinv base cpus X {} s" and w: "wq_magic (wait_queues s (Retcode_Wq ct))"
    and d: "t_state (threads s ct) = THREAD_DEATH"
  shows "\<exists>s'. exit_joinable e ct s = Some s' \<and> kinv base cpus X {} s' \<and> threads s' ct = threads s ct
    \<and> (\<forall>t\<in>set (node_lists s (Wait_List (Retcode_Wq ct))). woken NO_ERROR (threads s t) (threads s' t))"
proof -
  have "thread_ok s ct" using k by (simp add: kinv_def sched_inv_def)
  then have "t_queue_node (threads s ct) = None"
    using d by (auto simp: thread_ok_def place_ok_def split: option.splits queue_ref.splits)
  then have nin: "ct \<notin> set (node_lists s (Wait_List (Retcode_Wq ct)))" using kinv_node_iff [OF k] by simp
  from wait_queue_wake_all_noresched [OF k w, of e NO_ERROR] obtain s' where
    "wait_queue_wake_all e (Retcode_Wq ct) False NO_ERROR s = Some (int (length (node_lists s (Wait_List (Retcode_Wq ct)))), s')"
    "kinv base cpus X {} s'" "\<And>t. t \<in> set (node_lists s (Wait_List (Retcode_Wq ct))) \<Longrightarrow> woken NO_ERROR (threads s t) (threads s' t)"
    "\<And>x. x \<notin> set (node_lists s (Wait_List (Retcode_Wq ct))) \<Longrightarrow> threads s' x = threads s x" by blast
  then show ?thesis using nin by (auto simp: exit_joinable_def)
qed

text \<open>
  A thread that exits leaves the scheduler for good; a joinable one wakes every thread that waits
  for it with \<open>NO_ERROR\<close>.
\<close>

lemma thread_exit_locked_inv:
  assumes inv: "kernel_inv base cpus s" and e: "env_ok base e" "e_cpus e = cpus"
    and ct: "ct = current_thread s (e_cpu e)" and ni: "\<not> thread_is_idle (threads s ct)"
    and nc: "no_callback_for ct s" and w: "wq_magic (wait_queues s (Retcode_Wq ct))"
  shows "\<exists>s'. thread_exit_locked e r s = Some s' \<and> kernel_inv base cpus s'
    \<and> t_state (threads s' ct) = THREAD_DEATH \<and> (\<forall>c\<in>set cpus. current_thread s' c \<noteq> ct)
    \<and> (\<not> bit (t_flags (threads s ct)) 0 \<longrightarrow>
        (\<forall>t\<in>set (node_lists s (Wait_List (Retcode_Wq ct))). t_blocked_status (threads s' t) = NO_ERROR
           \<and> t_state (threads s' t) \<in> {THREAD_READY, THREAD_RUNNING}))"
proof -
  note cf = current_facts [OF inv e ct]
  have c: "e_cpu e \<in> set cpus" using e by (auto simp: env_ok_def)
  have k: "kinv base cpus (set cpus) {} s" using inv by (simp add: kernel_inv_def)
  let ?X = "set cpus - {e_cpu e}" let ?q = "node_lists s (Wait_List (Retcode_Wq ct))"
  let ?f = "\<lambda>th. th\<lparr>t_state := THREAD_DEATH, t_retcode := r\<rparr>" let ?s1 = "upd_thread ct ?f s"
  have "kinv base cpus ?X {ct} ?s1" using kinv_stop_current [OF k c ct, of ?f] by simp
  moreover have "thread_ok ?s1 ct" using cf by (simp add: thread_ok_def place_ok_def)
  ultimately have k1: "kinv base cpus ?X {} ?s1"
    using sched_inv_close [of "set cpus" ?X ct "{}" ?s1] by (simp add: kinv_def)
  have nc1: "no_callback_for ct ?s1"
    using nc same_timers_inv(2) [OF upd_thread_sel(6) [of s ct ?f]] upd_thread_sel(6) [of s ct ?f]
    by (auto simp: same_timers_def no_callback_for_def)
  have ni1: "\<not> thread_is_idle (threads ?s1 ct)" using ni by (simp add: thread_is_idle_def)
  obtain s2 where s2: "thread_exit_locked e r s = thread_resched e s2" "kinv base cpus ?X {} s2"
    "t_state (threads s2 ct) = THREAD_DEATH" "\<not> thread_is_idle (threads s2 ct)"
    "\<not> bit (t_flags (threads s ct)) 0 \<Longrightarrow> \<forall>t\<in>set ?q. woken NO_ERROR (threads ?s1 t) (threads s2 t)"
  proof (cases "bit (t_flags (threads s ct)) 0")
    case True
    then show thesis
      using that exit_detached_inv [OF k1 nc1 _ ni1] by (simp add: thread_exit_locked_def ct [symmetric] Let_def)
  next
    case False
    from exit_joinable_inv [OF k1, of ct e] w obtain s2 where "exit_joinable e ct ?s1 = Some s2"
      "kinv base cpus ?X {} s2" "threads s2 ct = threads ?s1 ct" "\<forall>t\<in>set ?q. woken NO_ERROR (threads ?s1 t) (threads s2 t)"
      by auto
    with False ni1 show thesis by (intro that) (auto simp: thread_exit_locked_def ct [symmetric] Let_def)
  qed
  from kinv_resched [OF s2(2) e] obtain s' where s': "thread_resched e s2 = Some s'" "kinv base cpus (set cpus) {} s'"
    "resched_frame (e_cpu e) s2 s'" by blast
  have "chosen (e_cpu e) s2 \<noteq> ct" using chosen_ready(2) [OF s2(2) c] s2(3,4) by auto
  then have d: "t_state (threads s' ct) = THREAD_DEATH" using s'(3) s2(3) by (auto simp: resched_frame_def)
  then have "\<forall>c\<in>set cpus. current_thread s' c \<noteq> ct"
    using s'(2) by (auto simp: kinv_def sched_inv_def current_ok_def)
  with d s2 s' show ?thesis by (auto simp: kernel_inv_def resched_frame_def woken_def)
qed


section \<open>Concrete states\<close>

definition dead_thread :: thread where
  "dead_thread = (init_thread_value [])\<lparr>t_magic := False\<rparr>"

text \<open>
  Two cpus. Threads 1 and 2 run on cpu 0 and cpu 1, thread 3 is ready at priority 20, thread 4 is
  blocked on the wait queue 5; both preemption timers are queued.
\<close>

definition kstate0 :: kstate where
  "kstate0 =
     \<lparr>timer_tab = (\<lambda>_. TIMER_INITIAL_VALUE)
        (Preempt_Timer 0 := \<lparr>scheduled_time = 10, periodic_time = 10, callback = Some CB_thread_timer_tick\<rparr>,
         Preempt_Timer 1 := \<lparr>scheduled_time = 12, periodic_time = 10, callback = Some CB_thread_timer_tick\<rparr>),
      timer_queue = (\<lambda>_. [])(0 := [Preempt_Timer 0], 1 := [Preempt_Timer 1]),
      hw_timer = (\<lambda>_. None)(0 := Some 10, 1 := Some 12),
      threads = (\<lambda>_. dead_thread)
        (Idle_Thread 0 := (init_thread_value [])\<lparr>t_state := THREAD_READY, t_flags := THREAD_FLAG_IDLE, t_pinned_cpu := 0\<rparr>,
         Idle_Thread 1 := (init_thread_value [])\<lparr>t_state := THREAD_READY, t_flags := THREAD_FLAG_IDLE, t_pinned_cpu := 1\<rparr>,
         Thread 1 := (init_thread_value [])\<lparr>t_state := THREAD_RUNNING, t_priority := 16, t_curr_cpu := 0\<rparr>,
         Thread 2 := (init_thread_value [])\<lparr>t_state := THREAD_RUNNING, t_priority := 16, t_curr_cpu := 1\<rparr>,
         Thread 3 := (init_thread_value [])\<lparr>t_state := THREAD_READY, t_priority := 20, t_queue_node := Some (Run_Queue 20)\<rparr>,
         Thread 4 := (init_thread_value [])\<lparr>t_state := THREAD_BLOCKED, t_priority := 16,
            t_queue_node := Some (Wait_List (Wq 5)), t_blocking_wait_queue := Some (Wq 5)\<rparr>),
      node_lists = (\<lambda>_. [])(Run_Queue 20 := [Thread 3], Wait_List (Wq 5) := [Thread 4]),
      run_queue_bitmap = push_bit 20 1,
      wait_queues = (\<lambda>_. WAIT_QUEUE_INITIAL_VALUE)(Wq 5 := \<lparr>wq_magic = True, wq_count = 1\<rparr>),
      thread_list = [Thread 1, Thread 2, Thread 3, Thread 4, Idle_Thread 0, Idle_Thread 1],
      current_thread = (\<lambda>_. Thread 1)(1 := Thread 2),
      cpu_aspace = (\<lambda>_. None), online_cpus = 3, active_cpus = 3, idle_cpus = 0, realtime_cpus = 0,
      resched_ipis = 0, heap_freed = []\<rparr>"

definition env0 :: "cpu_num \<Rightarrow> cpu_env" where
  "env0 c = \<lparr>e_cpus = [0, 1], e_cpu = c, e_now = 5, e_now_hires = 5000\<rparr>"

lemmas kstate0_simps = kstate0_def dead_thread_def init_thread_value_def WAIT_QUEUE_INITIAL_VALUE_def
  TIMER_INITIAL_VALUE_def

lemma kstate0_timers: "timer_inv 0 [0, 1] kstate0" "callbacks_ok kcb_ok kstate0"
  "all_queued kstate0 = {Preempt_Timer 0, Preempt_Timer 1}"
proof -
  show aq: "all_queued kstate0 = {Preempt_Timer 0, Preempt_Timer 1}"
    by (auto simp: all_queued_def kstate0_def split: if_splits)
  show "timer_inv 0 [0, 1] kstate0"
    unfolding timer_inv_def aq
    by (auto simp: kstate0_simps timer_tab_ok_def sched_of_def tdist_def)
  show "callbacks_ok kcb_ok kstate0"
    unfolding callbacks_ok_def aq by (auto simp: kstate0_simps)
qed

lemma kstate0_preempt: "preempt_ok [0, 1] kstate0"
  unfolding preempt_ok_def kstate0_timers(3)
  by (auto simp: kstate0_simps thread_is_real_time_or_idle_def)

lemma kstate0_lists: "node_lists_ok kstate0" "count_ok kstate0" "bitmap_ok kstate0"
proof -
  show "node_lists_ok kstate0" by (auto simp: node_lists_ok_def kstate0_simps)
  show "count_ok kstate0" by (auto simp: count_ok_def kstate0_simps)
  have "bit (push_bit 20 1 :: u32) p \<longleftrightarrow> p = 20" for p
    using bit_push_bit_one_iff [of 20 p, where 'a = 32] by auto
  then show "bitmap_ok kstate0" unfolding bitmap_ok_def by (auto simp: kstate0_simps simp del: push_bit_numeral)
qed

lemma kstate0_threads: "idle_ok {0, 1} kstate0" "current_ok {0, 1} {0, 1} kstate0" "thread_ok kstate0 t"
proof -
  show "idle_ok {0, 1} kstate0" by (auto simp: idle_ok_def thread_is_idle_def kstate0_simps)
  show "current_ok {0, 1} {0, 1} kstate0" by (auto simp: current_ok_def kstate0_simps inj_on_def split: if_splits)
  show "thread_ok kstate0 t" by (auto simp: thread_ok_def place_ok_def thread_is_idle_def kstate0_simps)
qed

lemma kstate0_inv: "kernel_inv 0 [0, 1] kstate0"
  using kstate0_timers kstate0_preempt kstate0_lists kstate0_threads
  by (simp add: kernel_inv_def kinv_def sched_inv_def ktimer_inv_def)

lemma env0_ok [simp]: "env_ok 0 (env0 c) \<longleftrightarrow> c = 0 \<or> c = 1" "e_cpus (env0 c) = [0, 1]"
  by (auto simp: env_ok_def env0_def tdist_def)


section \<open>Properties\<close>





text \<open>
  A thread that blocks is the last on the wait queue and in the blocked state, with a timer queued
  exactly when the timeout is finite, and another thread runs; no assertion fails.
\<close>

lemma wait_queue_block_fifo:
  assumes "kernel_inv base cpus s" "env_ok base e" "e_cpus e = cpus"
    and "ct = current_thread s (e_cpu e)" "\<not> thread_is_idle (threads s ct)"
    and "wq_magic (wait_queues s w)" "timeout_ok base e timeout" "timeout \<noteq> 0" "Stack_Timer ct \<notin> all_queued s"
  shows "\<exists>s'. wait_queue_block_enter e w timeout s = Some (Switched, s') \<and> kernel_inv base cpus s'
    \<and> node_lists s' (Wait_List w) = node_lists s (Wait_List w) @ [ct]
    \<and> t_state (threads s' ct) = THREAD_BLOCKED \<and> (Stack_Timer ct \<in> all_queued s' \<longleftrightarrow> timeout \<noteq> INFINITE_TIME)"
  using wait_queue_block_enter_inv [OF assms] by blast

lemma wait_queue_block_fifo_witness:
  "\<exists>s'. wait_queue_block_enter (env0 0) (Wq 5) 100 kstate0 = Some (Switched, s') \<and> kernel_inv 0 [0, 1] s'
    \<and> node_lists s' (Wait_List (Wq 5)) = [Thread 4, Thread 1]"
  using wait_queue_block_fifo [OF kstate0_inv, of "env0 0" "Thread 1" "Wq 5" 100]
  by (auto simp: kstate0_timers(3) timeout_ok_def INFINITE_TIME_def tdist_def thread_is_idle_def)
    (auto simp: kstate0_simps env0_def)






text \<open>
  A sleeping thread is off every queue with its timer armed; when the handler of that timer runs
  it makes the thread ready with \<open>NO_ERROR\<close>, and a handler that comes late does nothing.
\<close>

lemma thread_sleep_and_wake:
  assumes "kernel_inv base cpus s" "env_ok base e" "e_cpus e = cpus"
    and "ct = current_thread s (e_cpu e)" "\<not> thread_is_idle (threads s ct)"
    and "tdist base (e_now e) + unat delay + 1 < 2 ^ 31" "Stack_Timer ct \<notin> all_queued s"
    and "\<not> (interruptable \<and> bit (t_signals (threads s ct)) 0)"
  shows "\<exists>s'. thread_sleep_enter e delay interruptable s = Some (Switched, s') \<and> kernel_inv base cpus s'
    \<and> Stack_Timer ct \<in> all_queued s' \<and> t_state (threads s' ct) = THREAD_SLEEPING
    \<and> (\<exists>s''. thread_sleep_handler ct s' = Some (INT_RESCHEDULE, s'') \<and> t_state (threads s'' ct) = THREAD_READY
         \<and> t_blocked_status (threads s'' ct) = NO_ERROR
         \<and> thread_sleep_handler ct s'' = Some (INT_NO_RESCHEDULE, s''))"
proof -
  from thread_sleep_enter_inv [OF assms] obtain s' where s': "thread_sleep_enter e delay interruptable s = Some (Switched, s')"
    "kernel_inv base cpus s'" "Stack_Timer ct \<in> all_queued s'" "t_state (threads s' ct) = THREAD_SLEEPING" by auto
  have si: "sched_inv (set cpus) (set cpus) {} s'" using s'(2) by (simp add: kernel_inv_def kinv_def)
  then have "t_magic (threads s' ct)" using s'(4) by (auto simp: sched_inv_def thread_ok_def)
  from thread_sleep_handler_sched [OF si this] s'(4) obtain s'' where
    s'': "thread_sleep_handler ct s' = Some (INT_RESCHEDULE, s'')" "sched_inv (set cpus) (set cpus) {} s''"
      "woken NO_ERROR (threads s' ct) (threads s'' ct)" by auto
  have "t_magic (threads s'' ct)" using s''(3) \<open>t_magic (threads s' ct)\<close> by (simp add: woken_def)
  from thread_sleep_handler_sched [OF s''(2) this] s''(3) have "thread_sleep_handler ct s'' = Some (INT_NO_RESCHEDULE, s'')"
    by (auto simp: woken_def)
  with s' s'' show ?thesis by (auto simp: woken_def)
qed

lemma thread_sleep_and_wake_witness:
  "\<exists>s'. thread_sleep_enter (env0 0) 50 True kstate0 = Some (Switched, s')
    \<and> t_state (threads s' (Thread 1)) = THREAD_SLEEPING"
proof -
  have "Thread 1 = current_thread kstate0 (e_cpu (env0 0))" "\<not> thread_is_idle (threads kstate0 (Thread 1))"
    "\<not> bit (t_signals (threads kstate0 (Thread 1))) 0" "tdist 0 (e_now (env0 0)) + unat (50 :: lk_time) + 1 < 2 ^ 31"
    by (auto simp: kstate0_simps env0_def thread_is_idle_def tdist_def)
  with thread_sleep_and_wake [OF kstate0_inv, of "env0 0" "Thread 1" 50 True] show ?thesis
    by (auto simp: kstate0_timers(3))
qed



text \<open>
  C6: an exiting thread is dead and current on no cpu, and a joinable one wakes every thread waiting
  in \<^verbatim>\<open>thread_join\<close> with \<open>NO_ERROR\<close>; the invariant is kept.
\<close>

theorem thread_exit_wakes_joiners:
  assumes "kernel_inv base cpus s" "env_ok base e" "e_cpus e = cpus"
    and "ct = current_thread s (e_cpu e)" "\<not> thread_is_idle (threads s ct)"
    and "no_callback_for ct s" "wq_magic (wait_queues s (Retcode_Wq ct))"
  shows "\<exists>s'. thread_exit_locked e r s = Some s' \<and> kernel_inv base cpus s'
    \<and> t_state (threads s' ct) = THREAD_DEATH \<and> (\<forall>c\<in>set cpus. current_thread s' c \<noteq> ct)
    \<and> (\<not> bit (t_flags (threads s ct)) 0 \<longrightarrow>
        (\<forall>t\<in>set (node_lists s (Wait_List (Retcode_Wq ct))). t_blocked_status (threads s' t) = NO_ERROR
           \<and> t_state (threads s' t) \<in> {THREAD_READY, THREAD_RUNNING}))"
  by (rule thread_exit_locked_inv [OF assms])

theorem thread_exit_wakes_joiners_witness:
  "\<exists>s'. thread_exit_locked (env0 0) 7 kstate0 = Some s' \<and> t_state (threads s' (Thread 1)) = THREAD_DEATH"
proof -
  have "Thread 1 = current_thread kstate0 (e_cpu (env0 0))" "\<not> thread_is_idle (threads kstate0 (Thread 1))"
    "wq_magic (wait_queues kstate0 (Retcode_Wq (Thread 1)))" "no_callback_for (Thread 1) kstate0"
    unfolding no_callback_for_def kstate0_timers(3) by (auto simp: kstate0_simps env0_def thread_is_idle_def)
  with thread_exit_wakes_joiners [OF kstate0_inv, of "env0 0" "Thread 1" 7] show ?thesis by auto
qed

text \<open>
  Marking a thread real time while it runs on another cpu leaves that cpu's preemption timer queued,
  and the next switch there to a regular thread panics on the timer being already in a list: from a state of
  the invariant, \<^verbatim>\<open>thread_set_real_time\<close> on cpu 0 followed by a yield on cpu 1 fails.
\<close>

lemma thread_set_real_time_remote_panics:
  "kernel_inv 0 [0, 1] kstate0 \<and>
   (\<exists>s'. thread_set_real_time (env0 0) (Some (Thread 2)) kstate0 = Some (NO_ERROR, s') \<and> thread_yield (env0 1) s' = None)"
proof -
  define s' where "s' = upd_thread (Thread 2) (\<lambda>th. th\<lparr>t_flags := t_flags th OR THREAD_FLAG_REAL_TIME\<rparr>) kstate0"
  have "thread_set_real_time (env0 0) (Some (Thread 2)) kstate0 = Some (NO_ERROR, s')"
    by (simp add: thread_set_real_time_def s'_def kstate0_simps env0_def)
  moreover have "thread_yield (env0 1) s' = None"
    unfolding s'_def by code_simp
  ultimately show ?thesis using kstate0_inv by blast
qed

end
