(* ===== verification/Kernel_Sync.thy ===== *)
theory Kernel_Sync
  imports Kernel_Sched_Ops
begin

unbundle bit_operations_syntax

text \<open>
  The blocking primitives over wait queues: \<^verbatim>\<open>kernel/kernel/event.c\<close>, \<^verbatim>\<open>mutex.c\<close>, \<^verbatim>\<open>semaphore.c\<close> and
  \<^verbatim>\<open>cond.c\<close>. An object is a record passed along with the kernel's state; its wait queue is named by a
  reference. As for the wait queues, what runs before a context switch and what runs after it are
  two definitions.
\<close>

section \<open>Events\<close>

record event =
  ev_magic :: bool
  ev_signalled :: bool
  ev_flags :: u32
  ev_wait :: wq_ref

definition EVENT_FLAG_AUTOUNSIGNAL :: u32 where "EVENT_FLAG_AUTOUNSIGNAL = push_bit 0 1"

definition event_init :: "wq_ref \<Rightarrow> bool \<Rightarrow> u32 \<Rightarrow> kstate \<Rightarrow> event \<times> kstate" where
  "event_init w initial flags s =
     (\<lparr>ev_magic = True, ev_signalled = initial, ev_flags = flags, ev_wait = w\<rparr>, wait_queue_init w s)"

definition event_destroy :: "cpu_env \<Rightarrow> event \<Rightarrow> kstate \<Rightarrow> (event \<times> kstate) option" where
  "event_destroy e ev s = do {
     kassert (ev_magic ev);
     let ev = ev\<lparr>ev_magic := False, ev_signalled := False, ev_flags := 0\<rparr>;
     s \<leftarrow> wait_queue_destroy e (ev_wait ev) True s;
     Some (ev, s)
   }"

definition set_interruptable :: "tid \<Rightarrow> bool \<Rightarrow> kstate \<Rightarrow> kstate" where
  "set_interruptable t b s = upd_thread t (\<lambda>th. th\<lparr>t_interruptable := b\<rparr>) s"

definition event_wait_enter ::
  "cpu_env \<Rightarrow> lk_time \<Rightarrow> bool \<Rightarrow> event \<Rightarrow> kstate \<Rightarrow> (status outcome \<times> event \<times> kstate) option" where
  "event_wait_enter e timeout interruptable ev s = do {
     let ct = current_thread s (e_cpu e);
     kassert (ev_magic ev);
     if interruptable \<and> t_signals (threads s ct) AND THREAD_SIGNAL_KILL \<noteq> 0
     then Some (Returned ERR_INTERRUPTED, ev, s)
     else do {
       let s = set_interruptable ct interruptable s;
       if ev_signalled ev
       then do {
         let ev = (if ev_flags ev AND EVENT_FLAG_AUTOUNSIGNAL \<noteq> 0 then ev\<lparr>ev_signalled := False\<rparr> else ev);
         Some (Returned NO_ERROR, ev, set_interruptable ct False s)
       }
       else do {
         (r, s) \<leftarrow> wait_queue_block_enter e (ev_wait ev) timeout s;
         Some (case r of Returned st \<Rightarrow> (Returned st, ev, set_interruptable ct False s)
               | Switched \<Rightarrow> (Switched, ev, s))
       }
     }
   }"

definition event_wait_return :: "cpu_env \<Rightarrow> lk_time \<Rightarrow> kstate \<Rightarrow> status \<times> kstate" where
  "event_wait_return e timeout s =
     (let (st, s) = wait_queue_block_return e timeout s
      in (st, set_interruptable (current_thread s (e_cpu e)) False s))"

definition event_signal_etc ::
  "cpu_env \<Rightarrow> bool \<Rightarrow> status \<Rightarrow> event \<Rightarrow> kstate \<Rightarrow> (int \<times> event \<times> kstate) option" where
  "event_signal_etc e reschedule wait_result ev s = do {
     kassert (ev_magic ev);
     if ev_signalled ev then Some (0, ev, s)
     else if ev_flags ev AND EVENT_FLAG_AUTOUNSIGNAL \<noteq> 0
     then do {
       (wake_count, s) \<leftarrow> wait_queue_wake_one e (ev_wait ev) reschedule wait_result s;
       Some (wake_count, if wake_count \<le> 0 then ev\<lparr>ev_signalled := True\<rparr> else ev, s)
     }
     else do {
       let ev = ev\<lparr>ev_signalled := True\<rparr>;
       (wake_count, s) \<leftarrow> wait_queue_wake_all e (ev_wait ev) reschedule wait_result s;
       Some (wake_count, ev, s)
     }
   }"

definition event_signal :: "cpu_env \<Rightarrow> bool \<Rightarrow> event \<Rightarrow> kstate \<Rightarrow> (int \<times> event \<times> kstate) option" where
  "event_signal e reschedule ev s = event_signal_etc e reschedule NO_ERROR ev s"

definition event_unsignal :: "event \<Rightarrow> (status \<times> event) option" where
  "event_unsignal ev = do { kassert (ev_magic ev); Some (NO_ERROR, ev\<lparr>ev_signalled := False\<rparr>) }"

section \<open>Mutexes\<close>

record mutex =
  m_magic :: bool
  m_holder :: "tid option"
  m_count :: int
  m_wait :: wq_ref

definition mutex_init :: "wq_ref \<Rightarrow> kstate \<Rightarrow> mutex \<times> kstate" where
  "mutex_init w s = (\<lparr>m_magic = True, m_holder = None, m_count = 0, m_wait = w\<rparr>, wait_queue_init w s)"

definition mutex_destroy :: "cpu_env \<Rightarrow> mutex \<Rightarrow> kstate \<Rightarrow> (mutex \<times> kstate) option" where
  "mutex_destroy e m s = do {
     kassert (m_magic m);
     kassert (m_holder m = None \<or> m_holder m = Some (current_thread s (e_cpu e)));
     let m = m\<lparr>m_magic := False, m_count := 0\<rparr>;
     s \<leftarrow> wait_queue_destroy e (m_wait m) True s;
     Some (m, s)
   }"

definition mutex_acquire_enter ::
  "cpu_env \<Rightarrow> lk_time \<Rightarrow> mutex \<Rightarrow> kstate \<Rightarrow> (status outcome \<times> mutex \<times> kstate) option" where
  "mutex_acquire_enter e timeout m s = do {
     let ct = current_thread s (e_cpu e);
     let m = m\<lparr>m_count := m_count m + 1\<rparr>;
     if m_count m > 1
     then do {
       (r, s) \<leftarrow> wait_queue_block_enter e (m_wait m) timeout s;
       Some (case r of
               Returned ret \<Rightarrow> (Returned ret, if ret = ERR_TIMED_OUT then m\<lparr>m_count := m_count m - 1\<rparr> else m, s)
             | Switched \<Rightarrow> (Switched, m, s))
     }
     else Some (Returned NO_ERROR, m\<lparr>m_holder := Some ct\<rparr>, s)
   }"

definition mutex_acquire_return ::
  "cpu_env \<Rightarrow> lk_time \<Rightarrow> mutex \<Rightarrow> kstate \<Rightarrow> status \<times> mutex \<times> kstate" where
  "mutex_acquire_return e timeout m s =
     (let (ret, s) = wait_queue_block_return e timeout s
      in if ret \<noteq> NO_ERROR
         then (ret, if ret = ERR_TIMED_OUT then m\<lparr>m_count := m_count m - 1\<rparr> else m, s)
         else (NO_ERROR, m\<lparr>m_holder := Some (current_thread s (e_cpu e))\<rparr>, s))"

definition mutex_acquire_timeout ::
  "cpu_env \<Rightarrow> lk_time \<Rightarrow> mutex \<Rightarrow> kstate \<Rightarrow> (status outcome \<times> mutex \<times> kstate) option" where
  "mutex_acquire_timeout e timeout m s = do {
     kassert (m_magic m);
     kassert (m_holder m \<noteq> Some (current_thread s (e_cpu e)));
     mutex_acquire_enter e timeout m s
   }"

definition mutex_release_internal ::
  "cpu_env \<Rightarrow> bool \<Rightarrow> mutex \<Rightarrow> kstate \<Rightarrow> (mutex \<times> kstate) option" where
  "mutex_release_internal e reschedule m s = do {
     let m = m\<lparr>m_holder := None, m_count := m_count m - 1\<rparr>;
     if m_count m \<ge> 1
     then do {
       (_, s) \<leftarrow> wait_queue_wake_one e (m_wait m) reschedule NO_ERROR s;
       Some (m, s)
     }
     else Some (m, s)
   }"

definition mutex_release :: "cpu_env \<Rightarrow> mutex \<Rightarrow> kstate \<Rightarrow> (status \<times> mutex \<times> kstate) option" where
  "mutex_release e m s = do {
     kassert (m_magic m);
     kassert (m_holder m = Some (current_thread s (e_cpu e)));
     (m, s) \<leftarrow> mutex_release_internal e True m s;
     Some (NO_ERROR, m, s)
   }"

section \<open>Semaphores\<close>

record semaphore =
  sem_count :: int
  sem_waitq :: wq_ref

definition sem_init :: "wq_ref \<Rightarrow> int \<Rightarrow> kstate \<Rightarrow> semaphore \<times> kstate" where
  "sem_init w value s = (\<lparr>sem_count = value, sem_waitq = w\<rparr>, wait_queue_init w s)"

definition sem_destroy :: "cpu_env \<Rightarrow> semaphore \<Rightarrow> kstate \<Rightarrow> (semaphore \<times> kstate) option" where
  "sem_destroy e sm s = do {
     let sm = sm\<lparr>sem_count := 0\<rparr>;
     s \<leftarrow> wait_queue_destroy e (sem_waitq sm) True s;
     Some (sm, s)
   }"

definition sem_post :: "cpu_env \<Rightarrow> bool \<Rightarrow> semaphore \<Rightarrow> kstate \<Rightarrow> (int \<times> semaphore \<times> kstate) option" where
  "sem_post e resched sm s = do {
     let sm = sm\<lparr>sem_count := sem_count sm + 1\<rparr>;
     if sem_count sm \<le> 0
     then do {
       (ret, s) \<leftarrow> wait_queue_wake_one e (sem_waitq sm) resched NO_ERROR s;
       Some (ret, sm, s)
     }
     else Some (0, sm, s)
   }"

definition sem_wait_enter :: "cpu_env \<Rightarrow> semaphore \<Rightarrow> kstate \<Rightarrow> (status outcome \<times> semaphore \<times> kstate) option" where
  "sem_wait_enter e sm s = do {
     let sm = sm\<lparr>sem_count := sem_count sm - 1\<rparr>;
     if sem_count sm < 0
     then do {
       (r, s) \<leftarrow> wait_queue_block_enter e (sem_waitq sm) INFINITE_TIME s;
       Some (r, sm, s)
     }
     else Some (Returned NO_ERROR, sm, s)
   }"

definition sem_trywait :: "semaphore \<Rightarrow> status \<times> semaphore" where
  "sem_trywait sm =
     (if sem_count sm \<le> 0 then (ERR_NOT_READY, sm) else (NO_ERROR, sm\<lparr>sem_count := sem_count sm - 1\<rparr>))"

definition sem_timedwait_enter ::
  "cpu_env \<Rightarrow> lk_time \<Rightarrow> semaphore \<Rightarrow> kstate \<Rightarrow> (status outcome \<times> semaphore \<times> kstate) option" where
  "sem_timedwait_enter e timeout sm s = do {
     let sm = sm\<lparr>sem_count := sem_count sm - 1\<rparr>;
     if sem_count sm < 0
     then do {
       (r, s) \<leftarrow> wait_queue_block_enter e (sem_waitq sm) timeout s;
       Some (r, case r of Returned st \<Rightarrow> if st = ERR_TIMED_OUT then sm\<lparr>sem_count := sem_count sm + 1\<rparr> else sm
                | Switched \<Rightarrow> sm, s)
     }
     else Some (Returned NO_ERROR, sm, s)
   }"

definition sem_timedwait_return ::
  "cpu_env \<Rightarrow> lk_time \<Rightarrow> semaphore \<Rightarrow> kstate \<Rightarrow> status \<times> semaphore \<times> kstate" where
  "sem_timedwait_return e timeout sm s =
     (let (ret, s) = wait_queue_block_return e timeout s
      in (ret, if ret = ERR_TIMED_OUT then sm\<lparr>sem_count := sem_count sm + 1\<rparr> else sm, s))"

section \<open>Condition variables\<close>

record cond =
  c_magic :: bool
  c_wait :: wq_ref

definition cond_init :: "wq_ref \<Rightarrow> kstate \<Rightarrow> cond \<times> kstate" where
  "cond_init w s = (\<lparr>c_magic = True, c_wait = w\<rparr>, wait_queue_init w s)"

definition cond_destroy :: "cpu_env \<Rightarrow> cond \<Rightarrow> kstate \<Rightarrow> (cond \<times> kstate) option" where
  "cond_destroy e c s = do {
     kassert (c_magic c);
     s \<leftarrow> wait_queue_destroy e (c_wait c) True s;
     Some (c\<lparr>c_magic := False\<rparr>, s)
   }"

text \<open>
  \<^verbatim>\<open>cond_wait_timeout\<close> blocks twice: on the condition, then (in \<open>cond_wait_return\<close>) on the mutex when
  another thread has it; the wait on the mutex ends in \<open>cond_wait_reacquired\<close>. The status of the
  first wait is what the call returns.
\<close>

definition cond_wait_enter ::
  "cpu_env \<Rightarrow> lk_time \<Rightarrow> cond \<Rightarrow> mutex \<Rightarrow> kstate \<Rightarrow>
   ((status \<times> status outcome) outcome \<times> mutex \<times> kstate) option" where
  "cond_wait_enter e timeout c m s = do {
     kassert (c_magic c);
     kassert (m_magic m);
     (m, s) \<leftarrow> mutex_release_internal e False m s;
     (r, s) \<leftarrow> wait_queue_block_enter e (c_wait c) timeout s;
     case r of
       Returned result \<Rightarrow> do {
         (r, m, s) \<leftarrow> mutex_acquire_enter e INFINITE_TIME m s;
         Some (Returned (result, r), m, s)
       }
     | Switched \<Rightarrow> Some (Switched, m, s)
   }"

definition cond_wait_return ::
  "cpu_env \<Rightarrow> lk_time \<Rightarrow> mutex \<Rightarrow> kstate \<Rightarrow> (status \<times> status outcome \<times> mutex \<times> kstate) option" where
  "cond_wait_return e timeout m s = do {
     let (result, s) = wait_queue_block_return e timeout s;
     (r, m, s) \<leftarrow> mutex_acquire_enter e INFINITE_TIME m s;
     Some (result, r, m, s)
   }"

definition cond_wait_reacquired :: "cpu_env \<Rightarrow> status \<Rightarrow> mutex \<Rightarrow> kstate \<Rightarrow> status \<times> mutex \<times> kstate" where
  "cond_wait_reacquired e result m s = (let (_, m, s) = mutex_acquire_return e INFINITE_TIME m s in (result, m, s))"

definition cond_signal :: "cpu_env \<Rightarrow> cond \<Rightarrow> kstate \<Rightarrow> kstate option" where
  "cond_signal e c s = do {
     kassert (c_magic c);
     (_, s) \<leftarrow> wait_queue_wake_one e (c_wait c) True NO_ERROR s;
     Some s
   }"

definition cond_broadcast :: "cpu_env \<Rightarrow> cond \<Rightarrow> kstate \<Rightarrow> kstate option" where
  "cond_broadcast e c s = do {
     kassert (c_magic c);
     (_, s) \<leftarrow> wait_queue_wake_all e (c_wait c) True NO_ERROR s;
     Some s
   }"


section \<open>Events keep their signals\<close>

lemma event_flag_test [simp]: "w AND EVENT_FLAG_AUTOUNSIGNAL = 0 \<longleftrightarrow> \<not> bit w 0"
  unfolding EVENT_FLAG_AUTOUNSIGNAL_def by (rule and_push_bit_one_eq_0)

definition event_inv :: "event \<Rightarrow> kstate \<Rightarrow> bool" where
  "event_inv ev s \<longleftrightarrow> ev_magic ev \<and> wq_magic (wait_queues s (ev_wait ev)) \<and>
     (ev_signalled ev \<longrightarrow> node_lists s (Wait_List (ev_wait ev)) = [])"

abbreviation waiters :: "event \<Rightarrow> kstate \<Rightarrow> tid list" where
  "waiters ev s \<equiv> node_lists s (Wait_List (ev_wait ev))"

definition released :: "status \<Rightarrow> kstate \<Rightarrow> tid \<Rightarrow> bool" where
  "released st s t \<longleftrightarrow> t_blocked_status (threads s t) = st \<and> t_state (threads s t) \<in> {THREAD_READY, THREAD_RUNNING}"

lemma wake_one_released:
  assumes inv: "kernel_inv base cpus s" and e: "env_ok base e" "e_cpus e = cpus"
    and ni: "r \<Longrightarrow> \<not> thread_is_idle (threads s (current_thread s (e_cpu e)))" and w: "wq_magic (wait_queues s w)"
  shows "\<exists>s'. wait_queue_wake_one e w r err s = Some (if node_lists s (Wait_List w) = [] then 0 else 1, s')
    \<and> kernel_inv base cpus s' \<and> node_lists s' (Wait_List w) = tl (node_lists s (Wait_List w))
    \<and> (node_lists s (Wait_List w) \<noteq> [] \<longrightarrow> released err s' (hd (node_lists s (Wait_List w))))
    \<and> (\<forall>v. wq_magic (wait_queues s' v) = wq_magic (wait_queues s v))"
proof (cases "r \<and> node_lists s (Wait_List w) \<noteq> []")
  case True
  then obtain t ts where l: "node_lists s (Wait_List w) = t # ts" by (cases "node_lists s (Wait_List w)") auto
  with wait_queue_wake_one_resched [OF inv e _ w l, of err] ni True show ?thesis by (auto simp: released_def)
next
  case False
  then consider "\<not> r" | "r" "node_lists s (Wait_List w) = []" by blast
  then show ?thesis
  proof cases
    case 1
    then show ?thesis using wait_queue_wake_one_noresched [OF inv w, of e err] by (auto simp: released_def woken_def)
  next
    case 2
    then show ?thesis using w inv by (simp add: wait_queue_wake_one_def)
  qed
qed

lemma wake_all_released:
  assumes inv: "kernel_inv base cpus s" and e: "env_ok base e" "e_cpus e = cpus"
    and ni: "r \<Longrightarrow> \<not> thread_is_idle (threads s (current_thread s (e_cpu e)))" and w: "wq_magic (wait_queues s w)"
  shows "\<exists>s'. wait_queue_wake_all e w r err s = Some (int (length (node_lists s (Wait_List w))), s')
    \<and> kernel_inv base cpus s' \<and> node_lists s' (Wait_List w) = []
    \<and> (\<forall>t\<in>set (node_lists s (Wait_List w)). released err s' t)
    \<and> (\<forall>v. wq_magic (wait_queues s' v) = wq_magic (wait_queues s v))"
proof (cases r)
  case True
  then show ?thesis using wait_queue_wake_all_resched [OF inv e _ w, of err] ni by (auto simp: released_def)
next
  case False
  then show ?thesis
    using wait_queue_wake_all_noresched [OF inv [unfolded kernel_inv_def] w, of e err]
    by (auto simp: released_def woken_def kernel_inv_def)
qed

text \<open>
  C7: a signal is never lost. On an unsignalled auto-reset event it releases exactly the first waiter with the
  signaller's status and leaves the event unsignalled, or, when nobody waits, leaves it signalled;
  on a manual-reset event it releases every waiter and leaves the event signalled. A signalled event
  has no waiters, before and after.
\<close>

theorem event_signal_never_lost:
  assumes "kernel_inv base cpus s" "env_ok base e" "e_cpus e = cpus" "event_inv ev s" "\<not> ev_signalled ev"
    and "r \<Longrightarrow> \<not> thread_is_idle (threads s (current_thread s (e_cpu e)))"
  shows "\<exists>n ev' s'. event_signal_etc e r res ev s = Some (n, ev', s') \<and> kernel_inv base cpus s' \<and> event_inv ev' s'
    \<and> (if bit (ev_flags ev) 0
       then n = (if waiters ev s = [] then 0 else 1) \<and> (ev_signalled ev' \<longleftrightarrow> waiters ev s = [])
         \<and> waiters ev' s' = tl (waiters ev s) \<and> (waiters ev s \<noteq> [] \<longrightarrow> released res s' (hd (waiters ev s)))
       else n = int (length (waiters ev s)) \<and> ev_signalled ev' \<and> (\<forall>t\<in>set (waiters ev s). released res s' t))"
proof -
  have w: "wq_magic (wait_queues s (ev_wait ev))" and m: "ev_magic ev" using assms(4) by (auto simp: event_inv_def)
  show ?thesis
  proof (cases "bit (ev_flags ev) 0")
    case True
    with wake_one_released [where r = r and err = res, OF assms(1-3) _ w] m assms(5,6) show ?thesis
      by (cases "waiters ev s") (auto simp: event_signal_etc_def event_inv_def w)
  next
    case False
    with wake_all_released [where r = r and err = res, OF assms(1-3) _ w] m assms(5,6) show ?thesis
      by (auto simp: event_signal_etc_def event_inv_def w)
  qed
qed

definition event0 :: event where
  "event0 = \<lparr>ev_magic = True, ev_signalled = False, ev_flags = 1, ev_wait = Wq 5\<rparr>"

theorem event_signal_never_lost_witness:
  "\<exists>ev' s'. event_signal_etc (env0 0) True NO_ERROR event0 kstate0 = Some (1, ev', s')
    \<and> released NO_ERROR s' (Thread 4) \<and> \<not> ev_signalled ev'"
proof -
  have "event_inv event0 kstate0" "\<not> ev_signalled event0" "bit (ev_flags event0) 0" "waiters event0 kstate0 = [Thread 4]"
    "\<not> thread_is_idle (threads kstate0 (current_thread kstate0 (e_cpu (env0 0))))"
    by (auto simp: event_inv_def event0_def kstate0_simps thread_is_idle_def env0_def)
  with event_signal_never_lost [OF kstate0_inv, of "env0 0" event0 True NO_ERROR] show ?thesis by auto
qed

section \<open>Waiting on an event\<close>

lemma kernel_inv_set_interruptable:
  assumes "kernel_inv base cpus s"
  shows "kernel_inv base cpus (set_interruptable t b s)"
proof -
  let ?f = "\<lambda>th. th\<lparr>t_interruptable := b\<rparr>"
  have k: "kinv base cpus (set cpus) {} s" and tk: "thread_ok s t"
    using assms by (auto simp: kernel_inv_def kinv_def sched_inv_def)
  have "kinv base cpus (set cpus) {t} (upd_thread t ?f s)" using kinv_upd_thread [OF k, of ?f t] by simp
  moreover have "thread_ok (upd_thread t ?f s) t"
    using tk by (auto simp: thread_ok_def place_ok_def thread_is_idle_def split: option.splits queue_ref.splits)
  ultimately show ?thesis
    using sched_inv_close [of "set cpus" "set cpus" t "{}" "upd_thread t ?f s"]
    by (simp add: kernel_inv_def kinv_def set_interruptable_def)
qed

lemma set_interruptable_sel [simp]:
  "current_thread (set_interruptable t b s) = current_thread s" "wait_queues (set_interruptable t b s) = wait_queues s"
  "node_lists (set_interruptable t b s) = node_lists s" "all_queued (set_interruptable t b s) = all_queued s"
  "thread_is_idle (threads (set_interruptable t b s) x) = thread_is_idle (threads s x)"
  using same_timers_inv(2) [OF upd_thread_sel(6)] by (auto simp: set_interruptable_def thread_is_idle_def)

lemma event_wait_enter_inv:
  assumes "kernel_inv base cpus s" "env_ok base e" "e_cpus e = cpus" "event_inv ev s"
    and "ct = current_thread s (e_cpu e)" "\<not> thread_is_idle (threads s ct)"
    and "timeout_ok base e timeout" "timeout \<noteq> 0" "Stack_Timer ct \<notin> all_queued s"
  shows "\<exists>r ev' s'. event_wait_enter e timeout intr ev s = Some (r, ev', s') \<and> kernel_inv base cpus s' \<and> event_inv ev' s'
    \<and> (if intr \<and> bit (t_signals (threads s ct)) 0 then r = Returned ERR_INTERRUPTED \<and> ev' = ev
       else if ev_signalled ev then r = Returned NO_ERROR \<and> (ev_signalled ev' \<longleftrightarrow> \<not> bit (ev_flags ev) 0)
       else r = Switched \<and> ev' = ev \<and> waiters ev' s' = waiters ev s @ [ct] \<and> t_state (threads s' ct) = THREAD_BLOCKED)"
proof -
  have w: "wq_magic (wait_queues s (ev_wait ev))" and m: "ev_magic ev"
    and q: "ev_signalled ev \<Longrightarrow> waiters ev s = []" using assms(4) by (auto simp: event_inv_def)
  let ?s = "set_interruptable ct intr s"
  have i: "kernel_inv base cpus ?s" "kernel_inv base cpus (set_interruptable ct False ?s)"
    using kernel_inv_set_interruptable assms(1) by blast+
  show ?thesis
  proof (cases "(intr \<and> bit (t_signals (threads s ct)) 0) \<or> ev_signalled ev")
    case True
    with i assms(1,4) m w q show ?thesis by (auto simp: event_wait_enter_def Let_def event_inv_def assms(5) [symmetric])
  next
    case False
    obtain s' where "wait_queue_block_enter e (ev_wait ev) timeout ?s = Some (Switched, s')" "kernel_inv base cpus s'"
      "node_lists s' (Wait_List (ev_wait ev)) = waiters ev s @ [ct]" "t_state (threads s' ct) = THREAD_BLOCKED"
      "\<forall>v. wq_magic (wait_queues s' v) = wq_magic (wait_queues s v)"
      using wait_queue_block_enter_inv [OF i(1) assms(2,3), of ct "ev_wait ev" timeout] assms w by auto
    with False m w show ?thesis by (auto simp: event_wait_enter_def Let_def event_inv_def assms(5) [symmetric])
  qed
qed

text \<open>
  Waiting on an event falls through with \<open>NO_ERROR\<close> exactly when it is signalled, an auto-reset
  event being unsignalled by the one thread that falls through; otherwise the thread is appended to the waiters
  and blocked, and a killed thread that waits interruptibly does neither.
\<close>

lemma event_wait_falls_through_or_blocks:
  assumes "kernel_inv base cpus s" "env_ok base e" "e_cpus e = cpus" "event_inv ev s"
    and "ct = current_thread s (e_cpu e)" "\<not> thread_is_idle (threads s ct)"
    and "timeout_ok base e timeout" "timeout \<noteq> 0" "Stack_Timer ct \<notin> all_queued s"
  shows "\<exists>r ev' s'. event_wait_enter e timeout intr ev s = Some (r, ev', s') \<and> kernel_inv base cpus s' \<and> event_inv ev' s'
    \<and> (if intr \<and> bit (t_signals (threads s ct)) 0 then r = Returned ERR_INTERRUPTED \<and> ev' = ev
       else if ev_signalled ev then r = Returned NO_ERROR \<and> (ev_signalled ev' \<longleftrightarrow> \<not> bit (ev_flags ev) 0)
       else r = Switched \<and> ev' = ev \<and> waiters ev' s' = waiters ev s @ [ct] \<and> t_state (threads s' ct) = THREAD_BLOCKED)"
  using event_wait_enter_inv [OF assms] .

lemma event_wait_falls_through_or_blocks_witness:
  "\<exists>s'. event_wait_enter (env0 0) 100 False event0 kstate0 = Some (Switched, event0, s')
    \<and> waiters event0 s' = [Thread 4, Thread 1]"
proof -
  have "event_inv event0 kstate0" "\<not> ev_signalled event0" "waiters event0 kstate0 = [Thread 4]"
    "Thread 1 = current_thread kstate0 (e_cpu (env0 0))" "\<not> thread_is_idle (threads kstate0 (Thread 1))"
    "timeout_ok 0 (env0 0) 100" "Stack_Timer (Thread 1) \<notin> all_queued kstate0"
    unfolding kstate0_timers(3)
    by (auto simp: event_inv_def event0_def kstate0_simps thread_is_idle_def env0_def timeout_ok_def tdist_def)
  with event_wait_falls_through_or_blocks [OF kstate0_inv, of "env0 0" event0 "Thread 1" 100 False] show ?thesis by auto
qed


section \<open>Mutexes exclude\<close>

text \<open>
  The owner is the thread that has the mutex, from the moment it is handed over: \<^verbatim>\<open>holder\<close> follows when
  the owner runs. The invariant describes a mutex none of whose waiters has timed out and not
  yet run.
\<close>

definition mutex_inv :: "tid option \<Rightarrow> mutex \<Rightarrow> kstate \<Rightarrow> bool" where
  "mutex_inv owner m s \<longleftrightarrow> m_magic m \<and> wq_magic (wait_queues s (m_wait m)) \<and>
     m_count m = (if owner = None then 0 else 1) + int (length (node_lists s (Wait_List (m_wait m)))) \<and>
     (owner = None \<longrightarrow> node_lists s (Wait_List (m_wait m)) = []) \<and> m_holder m \<in> {None, owner}"

text \<open>
  A mutex excludes. Acquiring it succeeds at once exactly when nobody owns it; otherwise the
  caller queues behind the other waiters and the owner stays.
\<close>

lemma mutex_acquire_excludes:
  assumes "kernel_inv base cpus s" "env_ok base e" "e_cpus e = cpus" "mutex_inv owner m s"
    and "ct = current_thread s (e_cpu e)" "\<not> thread_is_idle (threads s ct)" "owner \<noteq> Some ct"
    and "timeout_ok base e timeout" "timeout \<noteq> 0" "Stack_Timer ct \<notin> all_queued s"
  shows "\<exists>r m' s'. mutex_acquire_timeout e timeout m s = Some (r, m', s') \<and> kernel_inv base cpus s'
    \<and> (if owner = None then r = Returned NO_ERROR \<and> mutex_inv (Some ct) m' s' \<and> m_holder m' = Some ct
       else r = Switched \<and> mutex_inv owner m' s' \<and>
         node_lists s' (Wait_List (m_wait m')) = node_lists s (Wait_List (m_wait m)) @ [ct])"
proof (cases owner)
  case None
  with assms(1,4) show ?thesis
    by (auto simp: mutex_acquire_timeout_def mutex_acquire_enter_def Let_def mutex_inv_def assms(5) [symmetric])
next
  case (Some x)
  have w: "wq_magic (wait_queues s (m_wait m))" using assms(4) by (simp add: mutex_inv_def)
  obtain s' where "wait_queue_block_enter e (m_wait m) timeout s = Some (Switched, s')" "kernel_inv base cpus s'"
    "node_lists s' (Wait_List (m_wait m)) = node_lists s (Wait_List (m_wait m)) @ [ct]"
    "\<forall>v. wq_magic (wait_queues s' v) = wq_magic (wait_queues s v)"
    using wait_queue_block_enter_inv [OF assms(1-3,5,6) w assms(8-10)] by blast
  with assms Some show ?thesis
    by (auto simp: mutex_acquire_timeout_def mutex_acquire_enter_def Let_def mutex_inv_def)
qed

definition mutex0 :: mutex where
  "mutex0 = \<lparr>m_magic = True, m_holder = Some (Thread 1), m_count = 2, m_wait = Wq 5\<rparr>"

lemma mutex0_inv: "mutex_inv (Some (Thread 1)) mutex0 kstate0"
  by (simp add: mutex_inv_def mutex0_def kstate0_simps)

lemma mutex_acquire_excludes_witness:
  "\<exists>m' s'. mutex_acquire_timeout (env0 1) INFINITE_TIME mutex0 kstate0 = Some (Switched, m', s')
    \<and> mutex_inv (Some (Thread 1)) m' s'"
proof -
  have h: "Thread 2 = current_thread kstate0 (e_cpu (env0 1))" "\<not> thread_is_idle (threads kstate0 (Thread 2))"
    "Stack_Timer (Thread 2) \<notin> all_queued kstate0"
    unfolding kstate0_timers(3) by (auto simp: kstate0_simps thread_is_idle_def env0_def)
  from mutex_acquire_excludes [OF kstate0_inv _ _ mutex0_inv h(1,2) _ _ _ h(3), of INFINITE_TIME]
  show ?thesis by (auto simp: timeout_ok_def INFINITE_TIME_def)
qed

text \<open>
  C8: releasing a mutex hands it to the first waiter, which becomes ready with \<open>NO_ERROR\<close> and owns it before it
  runs, or leaves it free when nobody waits; the thread that was handed the mutex then holds it.
\<close>

theorem mutex_release_hands_over:
  assumes "kernel_inv base cpus s" "env_ok base e" "e_cpus e = cpus" "mutex_inv (Some ct) m s"
    and "ct = current_thread s (e_cpu e)" "\<not> thread_is_idle (threads s ct)" "m_holder m = Some ct"
  shows "\<exists>m' s'. mutex_release e m s = Some (NO_ERROR, m', s') \<and> kernel_inv base cpus s'
    \<and> (case node_lists s (Wait_List (m_wait m)) of
         [] \<Rightarrow> mutex_inv None m' s'
       | t # ts \<Rightarrow> mutex_inv (Some t) m' s' \<and> released NO_ERROR s' t \<and> node_lists s' (Wait_List (m_wait m')) = ts
           \<and> (\<forall>e' st m'' s''. mutex_acquire_return e' INFINITE_TIME m' s' = (st, m'', s'') \<and>
                current_thread s' (e_cpu e') = t \<longrightarrow> st = NO_ERROR \<and> m_holder m'' = Some t \<and> mutex_inv (Some t) m'' s''))"
proof -
  have w: "wq_magic (wait_queues s (m_wait m))" using assms(4) by (simp add: mutex_inv_def)
  show ?thesis
  proof (cases "node_lists s (Wait_List (m_wait m))")
    case Nil
    with assms show ?thesis
      by (auto simp: mutex_release_def mutex_release_internal_def Let_def mutex_inv_def)
  next
    case (Cons t ts)
    obtain s' where s': "wait_queue_wake_one e (m_wait m) True NO_ERROR s = Some (1, s')" "kernel_inv base cpus s'"
      "node_lists s' (Wait_List (m_wait m)) = ts" "released NO_ERROR s' t"
      "\<forall>v. wq_magic (wait_queues s' v) = wq_magic (wait_queues s v)"
      using wake_one_released [where r = True and err = NO_ERROR, OF assms(1-3) _ w] assms(5,6) Cons by auto
    with assms Cons show ?thesis
      by (auto simp: mutex_release_def mutex_release_internal_def Let_def mutex_inv_def
          mutex_acquire_return_def wait_queue_block_return_def released_def)
  qed
qed

theorem mutex_release_hands_over_witness:
  "\<exists>m' s'. mutex_release (env0 0) mutex0 kstate0 = Some (NO_ERROR, m', s')
    \<and> mutex_inv (Some (Thread 4)) m' s' \<and> released NO_ERROR s' (Thread 4)"
proof -
  have "Thread 1 = current_thread kstate0 (e_cpu (env0 0))" "\<not> thread_is_idle (threads kstate0 (Thread 1))"
    "m_holder mutex0 = Some (Thread 1)" "node_lists kstate0 (Wait_List (m_wait mutex0)) = [Thread 4]"
    by (auto simp: kstate0_simps thread_is_idle_def env0_def mutex0_def)
  with mutex_release_hands_over [OF kstate0_inv, of "env0 0" "Thread 1" mutex0] mutex0_inv show ?thesis by auto
qed

text \<open>The timeout of the only waiter of a wait queue, up to the point where that thread runs.\<close>

lemma timeout_empties_queue:
  assumes inv: "kernel_inv base cpus s" and l: "node_lists s (Wait_List w) = [b]"
  shows "\<exists>s'. wait_queue_timeout_handler e b s = Some (INT_RESCHEDULE, s') \<and> kernel_inv base cpus s'
    \<and> node_lists s' (Wait_List w) = [] \<and> t_blocked_status (threads s' b) = ERR_TIMED_OUT
    \<and> handler_frame s s' \<and> (\<forall>x. x \<noteq> b \<longrightarrow> threads s' x = threads s x)"
proof -
  have k: "kinv base cpus (set cpus) {} s" and tk: "thread_ok s b"
    using inv by (auto simp: kernel_inv_def kinv_def sched_inv_def)
  have "t_queue_node (threads s b) = Some (Wait_List w)" using kinv_node_iff [OF k, of b "Wait_List w"] l by simp
  then have b: "t_state (threads s b) = THREAD_BLOCKED" "t_magic (threads s b)"
    using tk by (auto simp: thread_ok_def place_ok_def)
  obtain s' where s': "thread_unblock_from_wait_queue e b ERR_TIMED_OUT s = Some (NO_ERROR, s')" "kernel_inv base cpus s'"
    "handler_frame s s'" "woken ERR_TIMED_OUT (threads s b) (threads s' b)" "\<And>x. x \<noteq> b \<Longrightarrow> threads s' x = threads s x"
    using thread_unblock_from_wait_queue_inv [OF inv b(2), of e ERR_TIMED_OUT] b(1) by auto
  have k': "kinv base cpus (set cpus) {} s'" using s'(2) by (simp add: kernel_inv_def)
  have "x \<notin> set (node_lists s' (Wait_List w))" for x
    using kinv_node_iff [OF k', of x "Wait_List w"] kinv_node_iff [OF k, of x "Wait_List w"] l s'(4) s'(5) [of x]
    by (cases "x = b") (auto simp: woken_def)
  then have "node_lists s' (Wait_List w) = []" by (cases "node_lists s' (Wait_List w)") auto
  then show ?thesis using s' b by (auto simp: wait_queue_timeout_handler_def woken_def)
qed



text \<open>
  C36: the same race loses posts of a semaphore. With one waiter \<open>b\<close> that has timed out but not yet run, a post wakes nobody;
  the next thread \<open>c\<close> to wait blocks; \<open>b\<close> then takes its count back, and a further post leaves the count at one
  with \<open>c\<close> still blocked.
\<close>

theorem sem_timeout_loses_posts:
  assumes "kernel_inv base cpus s" "env_ok base e" "e_cpus e = cpus" "env_ok base e'" "e_cpus e' = cpus"
    and "sem_count sm = -1" "wq_magic (wait_queues s (sem_waitq sm))" "node_lists s (Wait_List (sem_waitq sm)) = [b]"
    and "c = current_thread s (e_cpu e')" "\<not> thread_is_idle (threads s c)" "Stack_Timer c \<notin> all_queued s"
  shows "\<exists>s1 sm2 s2 sm3 s3. wait_queue_timeout_handler e b s = Some (INT_RESCHEDULE, s1)
    \<and> sem_post e resched sm s1 = Some (0, sm2, s2)
    \<and> sem_wait_enter e' sm2 s2 = Some (Switched, sm3, s3) \<and> kernel_inv base cpus s3
    \<and> node_lists s3 (Wait_List (sem_waitq sm3)) = [c] \<and> t_state (threads s3 c) = THREAD_BLOCKED
    \<and> (\<forall>e'' s4 timeout. current_thread s4 (e_cpu e'') = b \<and> t_blocked_status (threads s4 b) = ERR_TIMED_OUT \<longrightarrow>
         (\<exists>sm4 s5. sem_timedwait_return e'' timeout sm3 s4 = (ERR_TIMED_OUT, sm4, s5) \<and>
            sem_post e resched sm4 s5 = Some (0, sm4\<lparr>sem_count := 1\<rparr>, s5)))"
proof -
  obtain s1 where s1: "wait_queue_timeout_handler e b s = Some (INT_RESCHEDULE, s1)" "kernel_inv base cpus s1"
    "node_lists s1 (Wait_List (sem_waitq sm)) = []" "handler_frame s s1"
    using timeout_empties_queue [OF assms(1,8)] by blast
  have fr: "current_thread s1 = current_thread s" "all_queued s1 = all_queued s"
    "wq_magic (wait_queues s1 (sem_waitq sm))" "\<And>x. thread_is_idle (threads s1 x) = thread_is_idle (threads s x)"
    using s1(4) same_timers_inv(2) assms(7) by (auto simp: handler_frame_def thread_is_idle_def)
  have post: "sem_post e resched sm s1 = Some (0, sm\<lparr>sem_count := 0\<rparr>, s1)"
    using assms(6) fr(3) s1(3) by (simp add: sem_post_def Let_def wait_queue_wake_one_def)
  obtain s3 where s3: "wait_queue_block_enter e' (sem_waitq sm) INFINITE_TIME s1 = Some (Switched, s3)" "kernel_inv base cpus s3"
    "node_lists s3 (Wait_List (sem_waitq sm)) = [c]" "t_state (threads s3 c) = THREAD_BLOCKED"
    using wait_queue_block_enter_inv [OF s1(2) assms(4,5), of c "sem_waitq sm" INFINITE_TIME] assms(9-11) fr s1(3)
    by (auto simp: timeout_ok_def INFINITE_TIME_def)
  have "sem_wait_enter e' (sm\<lparr>sem_count := 0\<rparr>) s1 = Some (Switched, sm\<lparr>sem_count := -1\<rparr>, s3)"
    using s3(1) by (simp add: sem_wait_enter_def Let_def)
  moreover have "\<exists>sm4 s5. sem_timedwait_return e'' timeout (sm\<lparr>sem_count := -1\<rparr>) s4 = (ERR_TIMED_OUT, sm4, s5) \<and>
            sem_post e resched sm4 s5 = Some (0, sm4\<lparr>sem_count := 1\<rparr>, s5)"
    if "current_thread s4 (e_cpu e'') = b" "t_blocked_status (threads s4 b) = ERR_TIMED_OUT" for e'' s4 timeout
    using that same_sched_timer_cancel [of s4 "e_cpu e''" "e_now e''" "Stack_Timer b"]
    by (auto simp: sem_timedwait_return_def wait_queue_block_return_def Let_def same_sched_def sem_post_def)
  ultimately show ?thesis
    using s1 s3 post by (intro exI [of _ s1] exI [of _ "sm\<lparr>sem_count := 0\<rparr>"] exI [of _ "sm\<lparr>sem_count := -1\<rparr>"] exI [of _ s3]) auto
qed

definition sem0 :: semaphore where "sem0 = \<lparr>sem_count = -1, sem_waitq = Wq 5\<rparr>"

theorem sem_timeout_loses_posts_witness:
  "\<exists>s1 sm2 s2 sm3 s3. wait_queue_timeout_handler (env0 0) (Thread 4) kstate0 = Some (INT_RESCHEDULE, s1)
    \<and> sem_post (env0 0) False sem0 s1 = Some (0, sm2, s2)
    \<and> sem_wait_enter (env0 1) sm2 s2 = Some (Switched, sm3, s3) \<and> t_state (threads s3 (Thread 2)) = THREAD_BLOCKED"
proof -
  have h: "sem_count sem0 = -1" "wq_magic (wait_queues kstate0 (sem_waitq sem0))"
    "node_lists kstate0 (Wait_List (sem_waitq sem0)) = [Thread 4]" "Thread 2 = current_thread kstate0 (e_cpu (env0 1))"
    "\<not> thread_is_idle (threads kstate0 (Thread 2))" "Stack_Timer (Thread 2) \<notin> all_queued kstate0"
    unfolding kstate0_timers(3) by (auto simp: kstate0_simps thread_is_idle_def env0_def sem0_def)
  from sem_timeout_loses_posts [OF kstate0_inv _ _ _ _ h, of "env0 0" False] show ?thesis by fastforce
qed

section \<open>The services the kernel objects rely on\<close>

text \<open>
  The objects of \<^verbatim>\<open>kernel/lib/magenta\<close> call the scheduler on behalf of a running thread: they signal
  events without rescheduling, broadcast condition variables and yield. Each of these returns,
  keeps the scheduler's invariant, and leaves every initialised wait queue initialised.
\<close>

definition kernel_ok :: "lk_time \<Rightarrow> cpu_env \<Rightarrow> kstate \<Rightarrow> bool" where
  "kernel_ok base e s \<longleftrightarrow> kernel_inv base (e_cpus e) s \<and> env_ok base e \<and> running_ok e s"

definition event_ok :: "event \<Rightarrow> kstate \<Rightarrow> bool" where
  "event_ok ev s \<longleftrightarrow> ev_magic ev \<and> wq_magic (wait_queues s (ev_wait ev))"

definition wq_frame :: "kstate \<Rightarrow> kstate \<Rightarrow> bool" where
  "wq_frame s s' \<longleftrightarrow> (\<forall>v. wq_magic (wait_queues s' v) = wq_magic (wait_queues s v))"

lemma wq_frame_refl [simp]: "wq_frame s s"
  by (simp add: wq_frame_def)

lemma wq_frame_trans: "wq_frame s s' \<Longrightarrow> wq_frame s' s'' \<Longrightarrow> wq_frame s s''"
  by (simp add: wq_frame_def)

lemma event_ok_frame: "wq_frame s s' \<Longrightarrow> event_ok ev s' = event_ok ev s"
  by (simp add: wq_frame_def event_ok_def)

lemma running_ok_wake:
  assumes k: "kernel_ok base e s" and w: "\<forall>x. x \<notin> set (node_lists s (Wait_List w)) \<longrightarrow> threads s' x = threads s x"
    and c: "current_thread s' = current_thread s"
  shows "running_ok e s'"
proof -
  let ?ct = "current_thread s (e_cpu e)"
  have inv: "kernel_inv base (e_cpus e) s" "env_ok base e" using k by (auto simp: kernel_ok_def)
  have "?ct \<notin> set (node_lists s (Wait_List w))"
    using kinv_node_iff [OF inv(1) [unfolded kernel_inv_def], of ?ct "Wait_List w"] current_facts(3) [OF inv refl refl] by simp
  then show ?thesis using k w c by (auto simp: running_ok_def kernel_ok_def)
qed

lemma event_signal_ok:
  assumes k: "kernel_ok base e s" and ev: "event_ok ev s"
  shows "\<exists>n ev' s'. event_signal_etc e False res ev s = Some (n, ev', s') \<and> kernel_ok base e s' \<and> wq_frame s s'
    \<and> event_ok ev' s' \<and> ev_wait ev' = ev_wait ev \<and> ev_flags ev' = ev_flags ev
    \<and> (ev_signalled ev' \<or> waiters ev s \<noteq> [] \<and> released res s' (hd (waiters ev s)))"
proof -
  let ?w = "ev_wait ev"
  have inv: "kernel_inv base (e_cpus e) s" and e: "env_ok base e"
    and w: "wq_magic (wait_queues s ?w)" and m: "ev_magic ev" using k ev by (auto simp: kernel_ok_def event_ok_def)
  consider "ev_signalled ev" | "\<not> ev_signalled ev" "bit (ev_flags ev) 0" | "\<not> ev_signalled ev" "\<not> bit (ev_flags ev) 0" by blast
  then show ?thesis
  proof cases
    case 1
    then have "event_signal_etc e False res ev s = Some (0, ev, s)" using m by (simp add: event_signal_etc_def)
    with 1 k ev show ?thesis by simp
  next
    case 2
    from wait_queue_wake_one_noresched [OF inv w, of e res] obtain s' where
      s': "wait_queue_wake_one e ?w False res s = Some (if waiters ev s = [] then 0 else 1, s')" "kernel_inv base (e_cpus e) s'"
      "waiters ev s \<noteq> [] \<longrightarrow> woken res (threads s (hd (waiters ev s))) (threads s' (hd (waiters ev s)))"
      "\<forall>x. waiters ev s = [] \<or> x \<noteq> hd (waiters ev s) \<longrightarrow> threads s' x = threads s x" "current_thread s' = current_thread s"
      "\<forall>v. wq_magic (wait_queues s' v) = wq_magic (wait_queues s v)" by blast
    have "threads s' x = threads s x" if "x \<notin> set (waiters ev s)" for x
      using that s'(4) by (cases "waiters ev s") auto
    then have "running_ok e s'" using running_ok_wake [OF k _ s'(5), of ?w] by simp
    then have k': "kernel_ok base e s'" "wq_frame s s'" using s'(2,6) e by (simp_all add: kernel_ok_def wq_frame_def)
    show ?thesis
    proof (cases "waiters ev s")
      case Nil
      with 2 s'(1,6) m w k' show ?thesis by (simp add: event_signal_etc_def event_ok_def)
    next
      case (Cons t ts)
      with 2 s'(1,3,6) m w k' show ?thesis by (simp add: event_signal_etc_def event_ok_def released_def woken_def)
    qed
  next
    case 3
    from wait_queue_wake_all_noresched [OF inv [unfolded kernel_inv_def] w, of e res] obtain s' where
      s': "wait_queue_wake_all e ?w False res s = Some (int (length (waiters ev s)), s')" "kinv base (e_cpus e) (set (e_cpus e)) {} s'"
      "\<forall>x. x \<notin> set (waiters ev s) \<longrightarrow> threads s' x = threads s x" "current_thread s' = current_thread s"
      "\<forall>v. wq_magic (wait_queues s' v) = wq_magic (wait_queues s v)" by blast
    have k': "kernel_ok base e s'" "wq_frame s s'"
      using s'(2,5) e running_ok_wake [OF k s'(3,4)] by (simp_all add: kernel_ok_def wq_frame_def kernel_inv_def)
    with 3 s'(1,5) m w show ?thesis by (simp add: event_signal_etc_def event_ok_def)
  qed
qed

lemma thread_yield_ok:
  assumes "kernel_ok base e s"
  shows "\<exists>s'. thread_yield e s = Some s' \<and> kernel_ok base e s' \<and> wq_frame s s'"
  using thread_yield_frame [of base "e_cpus e" s e] assms by (auto simp: kernel_ok_def wq_frame_def)

lemma cond_broadcast_ok:
  assumes k: "kernel_ok base e s" and c: "c_magic c" "wq_magic (wait_queues s (c_wait c))"
  shows "\<exists>s'. cond_broadcast e c s = Some s' \<and> kernel_ok base e s' \<and> wq_frame s s'
    \<and> node_lists s' (Wait_List (c_wait c)) = []
    \<and> (\<forall>t\<in>set (node_lists s (Wait_List (c_wait c))). released NO_ERROR s' t)"
  using wait_queue_wake_all_resched [of base "e_cpus e" s e "c_wait c" NO_ERROR] assms
  by (auto simp: kernel_ok_def wq_frame_def cond_broadcast_def running_ok_def released_def)

lemma kstate0_ok [simp]: "kernel_ok 0 (env0 0) kstate0"
proof -
  have "running_ok (env0 0) kstate0"
    by (simp add: running_ok_def kstate0_simps thread_is_idle_def runs_on_def env0_def)
  then show ?thesis using kstate0_inv by (simp add: kernel_ok_def)
qed

end
