(* ===== verification/Futex.thy ===== *)
theory Futex
  imports Kernel_Sync
begin

text \<open>
  Futexes: \<^verbatim>\<open>kernel/lib/magenta/futex_context.cpp\<close> and \<^verbatim>\<open>futex_node.cpp\<close>. The threads blocked on an address are a
  singly linked list of nodes, one node per thread; the head of the list also points to its tail, and the hash table holds the
  heads. Pointers are node numbers with None for null, and the nodes are a store, so that
  \<open>set_next\<close> and \<open>set_tail\<close> are updates of it. The buckets of the table are one list, searched by the key
  that a node has at the time of the search. Reading the futex word from user memory is an argument. The
  wait is split at the block of its condition variable into an \<open>_enter\<close> and a \<open>_return\<close> part. The relation
  \<open>futex_rel\<close> abstracts the store to a queue of nodes for each address.
\<close>

section \<open>Nodes\<close>

record futex_node =
  fn_hash_key :: nat
  fn_condvar :: cond
  fn_next :: "nat option"
  fn_tail :: "nat option"

type_synonym futex_nodes = "nat \<Rightarrow> futex_node"

record futex_context =
  fc_nodes :: futex_nodes
  fc_table :: "nat list"

definition set_hash_key :: "nat \<Rightarrow> nat \<Rightarrow> futex_nodes \<Rightarrow> futex_nodes" where
  "set_hash_key n k h = h(n := (h n)\<lparr>fn_hash_key := k\<rparr>)"

definition set_next :: "nat \<Rightarrow> nat option \<Rightarrow> futex_nodes \<Rightarrow> futex_nodes" where
  "set_next n x h = h(n := (h n)\<lparr>fn_next := x\<rparr>)"

definition set_tail :: "nat \<Rightarrow> nat option \<Rightarrow> futex_nodes \<Rightarrow> futex_nodes" where
  "set_tail n x h = h(n := (h n)\<lparr>fn_tail := x\<rparr>)"

definition AppendList :: "nat \<Rightarrow> nat \<Rightarrow> futex_nodes \<Rightarrow> futex_nodes option" where
  "AppendList this head h = do {
     t \<leftarrow> fn_tail (h this);
     kassert (fn_next (h t) = None);
     let h = set_next t (Some head) h;
     Some (set_tail this (fn_tail (h head)) h)
   }"

text \<open>The loop of \<^verbatim>\<open>RemoveFromHead\<close>: the count left, the current node and the last one visited.\<close>

fun remove_loop :: "nat \<Rightarrow> nat option \<Rightarrow> nat \<Rightarrow> nat \<Rightarrow> nat \<Rightarrow> futex_nodes \<Rightarrow> (nat option \<times> nat \<times> futex_nodes) option" where
  "remove_loop 0 node lst old_key new_key h = Some (node, lst, h)"
| "remove_loop (Suc i) None lst old_key new_key h = Some (None, lst, h)"
| "remove_loop (Suc i) (Some n) lst old_key new_key h = do {
     kassert (fn_hash_key (h n) = old_key);
     let h = set_hash_key n new_key h;
     remove_loop i (fn_next (h n)) n old_key new_key h
   }"

definition RemoveFromHead :: "nat \<Rightarrow> nat \<Rightarrow> nat \<Rightarrow> nat \<Rightarrow> futex_nodes \<Rightarrow> (nat option \<times> futex_nodes) option" where
  "RemoveFromHead this count old_key new_key h =
     (if count = 0 then Some (Some this, h)
      else do {
        (node, lst, h) \<leftarrow> remove_loop count (Some this) this old_key new_key h;
        let h = (case node of None \<Rightarrow> h | Some n \<Rightarrow> set_tail n (fn_tail (h this)) h);
        let h = set_next lst None h;
        let h = set_tail this (Some lst) h;
        Some (node, h)
      })"

partial_function (option) WakeThreads :: "cpu_env \<Rightarrow> futex_nodes \<Rightarrow> nat option \<Rightarrow> kstate \<Rightarrow> kstate option" where
  "WakeThreads e h head s =
     (case head of
        None \<Rightarrow> Some s
      | Some n \<Rightarrow> Option.bind (cond_signal e (fn_condvar (h n)) s) (\<lambda>s. WakeThreads e h (fn_next (h n)) s))"

section \<open>The context\<close>

definition table_find :: "nat \<Rightarrow> futex_context \<Rightarrow> nat option" where
  "table_find key c = find (\<lambda>n. fn_hash_key (fc_nodes c n) = key) (fc_table c)"

definition table_insert :: "nat \<Rightarrow> futex_context \<Rightarrow> futex_context" where
  "table_insert n c = c\<lparr>fc_table := n # fc_table c\<rparr>"

definition table_erase :: "nat \<Rightarrow> futex_context \<Rightarrow> nat option \<times> futex_context" where
  "table_erase key c =
     (case table_find key c of
        None \<Rightarrow> (None, c)
      | Some n \<Rightarrow> (Some n, c\<lparr>fc_table := remove1 n (fc_table c)\<rparr>))"

definition QueueNodesLocked :: "nat \<Rightarrow> futex_context \<Rightarrow> futex_context option" where
  "QueueNodesLocked head c =
     (case table_find (fn_hash_key (fc_nodes c head)) c of
        None \<Rightarrow> Some (table_insert head c)
      | Some current_head \<Rightarrow> do {
          h \<leftarrow> AppendList current_head head (fc_nodes c);
          Some (c\<lparr>fc_nodes := h\<rparr>)
        })"

text \<open>
  \<^verbatim>\<open>FutexWait\<close> up to the block: an early return, or the node queued, after which the thread waits on the condition
  variable of the node with the lock of the context released.
\<close>

definition FutexWait_enter ::
  "(nat \<Rightarrow> status + int) \<Rightarrow> nat \<Rightarrow> int \<Rightarrow> nat \<Rightarrow> futex_context \<Rightarrow> (status outcome \<times> futex_context) option" where
  "FutexWait_enter user_value value_ptr current_value node c =
     (case user_value value_ptr of
        Inl err \<Rightarrow> Some (Returned err, c)
      | Inr value \<Rightarrow>
          if value \<noteq> current_value then Some (Returned ERR_BUSY, c)
          else do {
            let h = set_tail node (Some node) (set_next node None (set_hash_key node value_ptr (fc_nodes c)));
            c \<leftarrow> QueueNodesLocked node (c\<lparr>fc_nodes := h\<rparr>);
            Some (Switched, c)
          })"

definition FutexNode_BlockThread ::
  "cpu_env \<Rightarrow> mx_time \<Rightarrow> nat \<Rightarrow> futex_context \<Rightarrow> mutex \<Rightarrow> kstate \<Rightarrow> ((status \<times> status outcome) outcome \<times> mutex \<times> kstate) option" where
  "FutexNode_BlockThread e timeout node c m s = cond_wait_enter e (mx_time_to_lk timeout) (fn_condvar (fc_nodes c node)) m s"

text \<open>The walk that unlinks the node of a wait that was not woken; None when the node is not in the list.\<close>

partial_function (option) unlink_walk ::
  "nat \<Rightarrow> nat \<Rightarrow> nat \<Rightarrow> nat option \<Rightarrow> nat option \<Rightarrow> futex_context \<Rightarrow> (futex_context option) option" where
  "unlink_walk node key list_head prev test c =
     (case test of
        None \<Rightarrow> Some None
      | Some t \<Rightarrow>
          Option.bind (kassert (fn_hash_key (fc_nodes c t) = key)) (\<lambda>_.
            let next = fn_next (fc_nodes c t) in
            if t = node
            then (case prev of
                Some p \<Rightarrow>
                  let h = set_next p next (fc_nodes c);
                      h = (if next = None then set_tail list_head (Some p) h else h)
                  in Some (Some (c\<lparr>fc_nodes := h\<rparr>))
              | None \<Rightarrow>
                  let c = snd (table_erase key c) in
                  (case next of
                     None \<Rightarrow> Some (Some c)
                   | Some n \<Rightarrow>
                       let h = set_tail n (fn_tail (fc_nodes c list_head)) (fc_nodes c) in
                       Option.bind (kassert (fn_hash_key (h n) = key)) (\<lambda>_. Some (Some (table_insert n (c\<lparr>fc_nodes := h\<rparr>))))))
            else unlink_walk node key list_head (Some t) next c))"

definition FutexWait_return :: "status \<Rightarrow> nat \<Rightarrow> futex_context \<Rightarrow> (status \<times> futex_context) option" where
  "FutexWait_return result node c =
     (if result = NO_ERROR then Some (NO_ERROR, c)
      else
        let key = fn_hash_key (fc_nodes c node); list_head = table_find key c in
        case list_head of
          None \<Rightarrow> Some (NO_ERROR, c)
        | Some h \<Rightarrow> do {
            r \<leftarrow> unlink_walk node key h None list_head c;
            case r of None \<Rightarrow> Some (NO_ERROR, c) | Some c' \<Rightarrow> Some (ERR_TIMED_OUT, c')
          })"

text \<open>Inserting the rest of a queue, the rest after a wake, and moving nodes to the other address.\<close>

definition put_back :: "nat \<Rightarrow> nat option \<Rightarrow> futex_context \<Rightarrow> futex_context option" where
  "put_back key node c =
     (case node of
        None \<Rightarrow> Some c
      | Some n \<Rightarrow> do { kassert (fn_hash_key (fc_nodes c n) = key); Some (table_insert n c) })"

definition detach_wakes :: "nat \<Rightarrow> nat \<Rightarrow> nat \<Rightarrow> futex_nodes \<Rightarrow> (nat option \<times> nat option \<times> futex_nodes) option" where
  "detach_wakes node wake_count wake_key h =
     (if wake_count = 0 then Some (None, Some node, h)
      else do {
        (rest, h) \<leftarrow> RemoveFromHead node wake_count wake_key 0 h;
        Some (Some node, rest, h)
      })"

definition requeue_nodes :: "nat \<Rightarrow> nat \<Rightarrow> nat \<Rightarrow> nat option \<Rightarrow> futex_context \<Rightarrow> (nat option \<times> futex_context) option" where
  "requeue_nodes requeue_count wake_key requeue_key node c =
     (case node of
        None \<Rightarrow> Some (None, c)
      | Some requeue_head \<Rightarrow>
          if requeue_count > 0 then do {
            (node, h) \<leftarrow> RemoveFromHead requeue_head requeue_count wake_key requeue_key (fc_nodes c);
            kassert (fn_hash_key (h requeue_head) = requeue_key);
            c \<leftarrow> QueueNodesLocked requeue_head (c\<lparr>fc_nodes := h\<rparr>);
            Some (node, c)
          }
          else Some (node, c))"

definition FutexWake :: "cpu_env \<Rightarrow> nat \<Rightarrow> nat \<Rightarrow> futex_context \<Rightarrow> kstate \<Rightarrow> (status \<times> futex_context \<times> kstate) option" where
  "FutexWake e value_ptr count c s =
     (if count = 0 then Some (NO_ERROR, c, s)
      else case table_erase value_ptr c of
        (None, c) \<Rightarrow> Some (NO_ERROR, c, s)
      | (Some wakes, c) \<Rightarrow> do {
          kassert (fn_hash_key (fc_nodes c wakes) = value_ptr);
          (node, h) \<leftarrow> RemoveFromHead wakes count value_ptr 0 (fc_nodes c);
          c \<leftarrow> put_back value_ptr node (c\<lparr>fc_nodes := h\<rparr>);
          s \<leftarrow> WakeThreads e h (Some wakes) s;
          Some (NO_ERROR, c, s)
        })"

definition FutexRequeue ::
  "cpu_env \<Rightarrow> (nat \<Rightarrow> status + int) \<Rightarrow> nat \<Rightarrow> nat \<Rightarrow> int \<Rightarrow> nat \<Rightarrow> nat \<Rightarrow> futex_context \<Rightarrow> kstate \<Rightarrow>
   (status \<times> futex_context \<times> kstate) option" where
  "FutexRequeue e user_value wake_ptr wake_count current_value requeue_ptr requeue_count c s =
     (if requeue_ptr = 0 \<and> requeue_count \<noteq> 0 then Some (ERR_INVALID_ARGS, c, s)
      else case user_value wake_ptr of
        Inl err \<Rightarrow> Some (err, c, s)
      | Inr value \<Rightarrow>
          if value \<noteq> current_value then Some (ERR_BUSY, c, s)
          else if wake_ptr = requeue_ptr then Some (ERR_INVALID_ARGS, c, s)
          else case table_erase wake_ptr c of
            (None, c) \<Rightarrow> Some (NO_ERROR, c, s)
          | (Some node, c) \<Rightarrow> do {
              (wakes, node, h) \<leftarrow> detach_wakes node wake_count wake_ptr (fc_nodes c);
              (node, c) \<leftarrow> requeue_nodes requeue_count wake_ptr requeue_ptr node (c\<lparr>fc_nodes := h\<rparr>);
              c \<leftarrow> put_back wake_ptr node c;
              s \<leftarrow> WakeThreads e (fc_nodes c) wakes s;
              Some (NO_ERROR, c, s)
            })"

section \<open>Queues of nodes\<close>

fun path :: "futex_nodes \<Rightarrow> nat option \<Rightarrow> nat list \<Rightarrow> nat option \<Rightarrow> bool" where
  "path h p [] q \<longleftrightarrow> p = q"
| "path h p (x # xs) q \<longleftrightarrow> p = Some x \<and> path h (fn_next (h x)) xs q"

definition first :: "nat list \<Rightarrow> nat option" where
  "first xs = (case xs of [] \<Rightarrow> None | x # _ \<Rightarrow> Some x)"

definition queue_ok :: "futex_nodes \<Rightarrow> nat \<Rightarrow> nat list \<Rightarrow> bool" where
  "queue_ok h k q \<longleftrightarrow> path h (first q) q None \<and> distinct q \<and> (\<forall>x\<in>set q. fn_hash_key (h x) = k) \<and>
     (q \<noteq> [] \<longrightarrow> fn_tail (h (hd q)) = Some (last q))"

definition futex_rel :: "futex_context \<Rightarrow> (nat \<Rightarrow> nat list) \<Rightarrow> bool" where
  "futex_rel c Q \<longleftrightarrow> (\<forall>k. queue_ok (fc_nodes c) k (Q k)) \<and> Q 0 = [] \<and> distinct (fc_table c) \<and>
     set (fc_table c) = {n. \<exists>k. Q k \<noteq> [] \<and> n = hd (Q k)}"

fun signal_conds :: "cpu_env \<Rightarrow> cond list \<Rightarrow> kstate \<Rightarrow> kstate option" where
  "signal_conds e [] s = Some s"
| "signal_conds e (x # xs) s = Option.bind (cond_signal e x s) (signal_conds e xs)"

lemma first_simps [simp]: "first [] = None" "first (x # xs) = Some x"
  by (simp_all add: first_def)

lemma first_nonempty: "xs \<noteq> [] \<Longrightarrow> first xs = Some (hd xs)"
  by (cases xs) simp_all

lemma path_append: "path h p (xs @ ys) q \<longleftrightarrow> (\<exists>r. path h p xs r \<and> path h r ys q)"
  by (induction xs arbitrary: p) auto

lemma path_cong: "(\<And>x. x \<in> set xs \<Longrightarrow> fn_next (h' x) = fn_next (h x)) \<Longrightarrow> path h' p xs q = path h p xs q"
  by (induction xs arbitrary: p) auto

lemma path_first: "path h p xs None \<Longrightarrow> p = first xs"
  by (cases xs) auto

lemma queue_ok_cong: "(\<And>x. x \<in> set q \<Longrightarrow> h' x = h x) \<Longrightarrow> queue_ok h' k q = queue_ok h k q"
  using path_cong [of q h' h] by (auto simp: queue_ok_def)

lemma queue_ok_Nil [simp]: "queue_ok h k []"
  by (simp add: queue_ok_def)

lemma set_node_sel [simp]:
  "fn_next (set_hash_key n k h x) = fn_next (h x)" "fn_tail (set_hash_key n k h x) = fn_tail (h x)" "fn_condvar (set_hash_key n k h x) = fn_condvar (h x)"
  "fn_hash_key (set_hash_key n k h x) = (if x = n then k else fn_hash_key (h x))"
  "fn_next (set_next n p h x) = (if x = n then p else fn_next (h x))" "fn_tail (set_next n p h x) = fn_tail (h x)"
  "fn_condvar (set_next n p h x) = fn_condvar (h x)" "fn_hash_key (set_next n p h x) = fn_hash_key (h x)"
  "fn_next (set_tail n p h x) = fn_next (h x)" "fn_tail (set_tail n p h x) = (if x = n then p else fn_tail (h x))"
  "fn_condvar (set_tail n p h x) = fn_condvar (h x)" "fn_hash_key (set_tail n p h x) = fn_hash_key (h x)"
  by (simp_all add: set_hash_key_def set_next_def set_tail_def)

lemma set_node_other: "x \<noteq> n \<Longrightarrow> set_hash_key n k h x = h x" "x \<noteq> n \<Longrightarrow> set_next n p h x = h x" "x \<noteq> n \<Longrightarrow> set_tail n p h x = h x"
  by (simp_all add: set_hash_key_def set_next_def set_tail_def)

lemma WakeThreads_path:
  "path h p xs None \<Longrightarrow> WakeThreads e h p s = signal_conds e (map (\<lambda>n. fn_condvar (h n)) xs) s"
proof (induction xs arbitrary: p s)
  case (Cons x xs)
  then have "WakeThreads e h p s = Option.bind (cond_signal e (fn_condvar (h x)) s) (\<lambda>s. WakeThreads e h (fn_next (h x)) s)"
    by (subst WakeThreads.simps) simp
  also have "\<dots> = Option.bind (cond_signal e (fn_condvar (h x)) s) (signal_conds e (map (\<lambda>n. fn_condvar (h n)) xs))"
    using Cons by (cases "cond_signal e (fn_condvar (h x)) s") auto
  finally show ?case by simp
qed (simp add: WakeThreads.simps)

lemma remove_loop_path:
  assumes "path h p q None" "distinct q" "\<forall>x\<in>set q. fn_hash_key (h x) = k"
  shows "\<exists>h'. remove_loop n p l k k' h = Some (first (drop n q), if take n q = [] then l else last (take n q), h') \<and>
    (\<forall>x. h' x = (if x \<in> set (take n q) then (h x)\<lparr>fn_hash_key := k'\<rparr> else h x))"
  using assms
proof (induction q arbitrary: n p l h)
  case Nil
  then show ?case by (cases n) auto
next
  case (Cons a q)
  show ?case
  proof (cases n)
    case 0
    then show ?thesis using Cons.prems by auto
  next
    case (Suc m)
    let ?h = "set_hash_key a k' h"
    have "path ?h (fn_next (h a)) q None" using Cons.prems(1) path_cong [of q ?h h "fn_next (h a)" None] by auto
    moreover have "\<forall>x\<in>set q. fn_hash_key (?h x) = k" using Cons.prems by auto
    ultimately obtain h' where h': "remove_loop m (fn_next (h a)) a k k' ?h =
        Some (first (drop m q), if take m q = [] then a else last (take m q), h')"
      "\<And>x. h' x = (if x \<in> set (take m q) then (?h x)\<lparr>fn_hash_key := k'\<rparr> else ?h x)"
      using Cons.IH [of ?h "fn_next (h a)" m a] Cons.prems by auto
    have "a \<notin> set (take m q)" using Cons.prems(2) by (auto dest: in_set_takeD)
    then have "h' x = (if x \<in> set (take n (a # q)) then (h x)\<lparr>fn_hash_key := k'\<rparr> else h x)" for x
      using h'(2) [of x] Suc by (auto simp: set_hash_key_def)
    moreover have "remove_loop n p l k k' h = Some (first (drop n (a # q)), if take n (a # q) = [] then l else last (take n (a # q)), h')"
      using h'(1) Suc Cons.prems by (auto simp: Let_def)
    ultimately show ?thesis by blast
  qed
qed

lemma path_last_next: "path h p xs None \<Longrightarrow> xs \<noteq> [] \<Longrightarrow> fn_next (h (last xs)) = None"
  by (induction xs arbitrary: p) (auto split: if_splits)

lemma path_redirect:
  assumes "path h p xs q" "distinct xs" "xs \<noteq> []" "\<And>x. fn_next (h' x) = (if x = last xs then r else fn_next (h x))"
  shows "path h' p xs r"
  using assms
proof (induction xs arbitrary: p)
  case (Cons a xs)
  show ?case
  proof (cases "xs = []")
    case True
    with Cons.prems show ?thesis by simp
  next
    case False
    then have "a \<noteq> last (a # xs)" using Cons.prems(2) by auto
    then have "fn_next (h' a) = fn_next (h a)" using Cons.prems(4) by simp
    moreover have "path h' (fn_next (h a)) xs r" by (rule Cons.IH) (use Cons.prems False in auto)
    ultimately show ?thesis using Cons.prems(1) by simp
  qed
qed simp

lemma RemoveFromHead_ok:
  assumes q: "queue_ok h k q" "q \<noteq> []" and n: "0 < n"
  shows "\<exists>h'. RemoveFromHead (hd q) n k k' h = Some (first (drop n q), h') \<and> queue_ok h' k' (take n q) \<and> queue_ok h' k (drop n q) \<and>
    (\<forall>x. x \<notin> set q \<longrightarrow> h' x = h x) \<and> (\<forall>x. fn_condvar (h' x) = fn_condvar (h x))"
proof -
  let ?xs = "take n q" and ?ys = "drop n q"
  have Q: "path h (Some (hd q)) q None" "distinct q" "\<forall>x\<in>set q. fn_hash_key (h x) = k" "fn_tail (h (hd q)) = Some (last q)"
    using q by (simp_all add: queue_ok_def first_nonempty)
  have xs: "?xs \<noteq> []" "hd ?xs = hd q" "distinct ?xs" "distinct ?ys" "set ?xs \<inter> set ?ys = {}" "set q = set ?xs \<union> set ?ys"
    using q(2) n Q(2) by (simp_all add: hd_take set_take_disj_set_drop_if_distinct flip: set_append)
  from remove_loop_path [OF Q(1-3), of n "hd q" k'] xs(1) obtain h1 where
    l: "remove_loop n (Some (hd q)) (hd q) k k' h = Some (first ?ys, last ?xs, h1)"
      "\<And>x. h1 x = (if x \<in> set ?xs then (h x)\<lparr>fn_hash_key := k'\<rparr> else h x)" by auto
  define h2 where "h2 = (case first ?ys of None \<Rightarrow> h1 | Some m \<Rightarrow> set_tail m (fn_tail (h1 (hd q))) h1)"
  define h' where "h' = set_tail (hd q) (Some (last ?xs)) (set_next (last ?xs) None h2)"
  have hd: "hd q \<in> set ?xs" "last ?xs \<in> set ?xs" using xs by (auto simp: hd_in_set [of ?xs, unfolded xs(2)])
  have sel: "fn_next (h' x) = (if x = last ?xs then None else fn_next (h x))" "fn_condvar (h' x) = fn_condvar (h x)"
    "fn_hash_key (h' x) = (if x \<in> set ?xs then k' else fn_hash_key (h x))"
    "fn_tail (h' x) = (if x = hd q then Some (last ?xs) else if first ?ys = Some x then Some (last q) else fn_tail (h x))" for x
    using Q(4) by (auto simp: h'_def h2_def l(2) split: option.splits)
  obtain r where r: "path h (Some (hd q)) ?xs r" "path h r ?ys None"
    using Q(1) path_append [of h "Some (hd q)" ?xs ?ys None] by auto
  have p1: "path h' (Some (hd q)) ?xs None" by (rule path_redirect [OF r(1) xs(3,1) sel(1)])
  have "last ?xs \<notin> set ?ys" using hd xs(5) by blast
  then have p2: "path h' (first ?ys) ?ys None"
    unfolding path_first [OF r(2), symmetric] by (intro path_cong [THEN iffD2, OF _ r(2)]) (auto simp: sel(1))
  have t: "fn_tail (h' (hd ?ys)) = Some (last ?ys)" if "?ys \<noteq> []"
  proof -
    have "hd ?ys \<in> set ?ys" "last ?ys = last q" using that by (simp, metis append_take_drop_id last_append)
    moreover have "hd q \<notin> set ?ys" using hd(1) xs(5) by blast
    ultimately have "hd ?ys \<noteq> hd q" by metis
    with \<open>last ?ys = last q\<close> that show ?thesis by (simp add: sel(4) first_nonempty)
  qed
  have "queue_ok h' k' ?xs" using p1 xs by (simp add: queue_ok_def first_nonempty sel)
  moreover have "queue_ok h' k ?ys" using p2 xs Q(3) t by (auto simp: queue_ok_def sel)
  moreover have "h' x = h x" if "x \<notin> set q" for x
  proof -
    have "x \<noteq> hd q" "x \<noteq> last ?xs" "x \<notin> set ?xs" "first ?ys \<noteq> Some x"
      using that hd xs(6) by (auto simp: first_def split: list.splits)
    then show ?thesis by (auto simp: h'_def h2_def l(2) set_node_other split: option.splits)
  qed
  moreover have "RemoveFromHead (hd q) n k k' h = Some (first ?ys, h')"
    using n l(1) by (simp add: RemoveFromHead_def Let_def h'_def h2_def)
  ultimately show ?thesis using sel(2) by blast
qed

lemma AppendList_ok:
  assumes q: "queue_ok h k q" "q \<noteq> []" and r: "queue_ok h k r" "r \<noteq> []" and d: "set q \<inter> set r = {}"
  shows "\<exists>h'. AppendList (hd q) (hd r) h = Some h' \<and> queue_ok h' k (q @ r) \<and> (\<forall>x. x \<notin> set q \<longrightarrow> h' x = h x) \<and>
    (\<forall>x. fn_condvar (h' x) = fn_condvar (h x))"
proof -
  have Q: "path h (Some (hd q)) q None" "fn_tail (h (hd q)) = Some (last q)" "distinct q"
    and R: "path h (Some (hd r)) r None" "fn_tail (h (hd r)) = Some (last r)"
    using q r by (simp_all add: queue_ok_def first_nonempty)
  define h' where "h' = set_tail (hd q) (Some (last r)) (set_next (last q) (Some (hd r)) h)"
  have "path h' (Some (hd q)) q (Some (hd r))"
    by (rule path_redirect [OF Q(1,3) q(2)]) (simp add: h'_def)
  moreover have "last q \<notin> set r" using d q(2) last_in_set [of q] by blast
  then have "path h' (Some (hd r)) r None" by (intro path_cong [THEN iffD2, OF _ R(1)]) (auto simp: h'_def)
  ultimately have "path h' (Some (hd q)) (q @ r) None" using path_append by blast
  then have "queue_ok h' k (q @ r)"
    using q r d by (auto simp: queue_ok_def first_nonempty h'_def)
  moreover have "AppendList (hd q) (hd r) h = Some h'"
    using Q(2) R(2) path_last_next [OF Q(1) q(2)] by (simp add: AppendList_def Let_def h'_def)
  moreover have "h' x = h x" if "x \<notin> set q" for x
  proof -
    have "x \<noteq> hd q" "x \<noteq> last q" using that q(2) by auto
    then show ?thesis by (simp add: h'_def set_node_other)
  qed
  ultimately show ?thesis by (auto simp: h'_def)
qed

section \<open>The table\<close>

lemma futex_rel_disjoint: "futex_rel c Q \<Longrightarrow> x \<in> set (Q k) \<Longrightarrow> x \<in> set (Q k') \<Longrightarrow> k = k'"
  by (metis futex_rel_def queue_ok_def)

lemma table_find_rel:
  assumes "futex_rel c Q"
  shows "table_find k c = first (Q k)"
proof -
  have key: "fn_hash_key (fc_nodes c n) = k \<longleftrightarrow> Q k \<noteq> [] \<and> n = hd (Q k)" if "n \<in> set (fc_table c)" for n k
  proof -
    from that assms obtain j where j: "Q j \<noteq> []" "n = hd (Q j)" by (auto simp: futex_rel_def)
    then have "fn_hash_key (fc_nodes c n) = j" using assms hd_in_set [of "Q j"] by (auto simp: futex_rel_def queue_ok_def)
    with j show ?thesis using assms hd_in_set futex_rel_disjoint [OF assms] by metis
  qed
  show ?thesis
  proof (cases "Q k = []")
    case True
    then show ?thesis using key by (auto simp: table_find_def find_None_iff)
  next
    case False
    then have "hd (Q k) \<in> set (fc_table c)" using assms by (auto simp: futex_rel_def)
    then have "find (\<lambda>n. fn_hash_key (fc_nodes c n) = k) (fc_table c) \<noteq> None" using key False by (auto simp: find_None_iff)
    then obtain n where n: "find (\<lambda>n. fn_hash_key (fc_nodes c n) = k) (fc_table c) = Some n" by auto
    then have "n \<in> set (fc_table c)" "fn_hash_key (fc_nodes c n) = k" by (auto simp: find_Some_iff)
    then show ?thesis using key n False by (auto simp: table_find_def first_nonempty)
  qed
qed

lemma heads_upd:
  assumes "futex_rel c Q"
  shows "{n. \<exists>j. (Q(k := q)) j \<noteq> [] \<and> n = hd ((Q(k := q)) j)} =
    (set (fc_table c) - (if Q k = [] then {} else {hd (Q k)})) \<union> (if q = [] then {} else {hd q})"
proof -
  have ne: "hd (Q j) \<noteq> hd (Q k)" if "j \<noteq> k" "Q j \<noteq> []" "Q k \<noteq> []" for j
    using that futex_rel_disjoint [OF assms, of "hd (Q j)" j k] by (metis hd_in_set)
  have "set (fc_table c) = {n. \<exists>j. Q j \<noteq> [] \<and> n = hd (Q j)}" using assms by (simp add: futex_rel_def)
  then have "{n. \<exists>j. j \<noteq> k \<and> Q j \<noteq> [] \<and> n = hd (Q j)} = set (fc_table c) - (if Q k = [] then {} else {hd (Q k)})"
    using ne by (auto split: if_splits) metis+
  moreover have "{n. \<exists>j. (Q(k := q)) j \<noteq> [] \<and> n = hd ((Q(k := q)) j)} =
      {n. \<exists>j. j \<noteq> k \<and> Q j \<noteq> [] \<and> n = hd (Q j)} \<union> (if q = [] then {} else {hd q})"
    by (auto split: if_splits)
  ultimately show ?thesis by simp
qed

lemma table_erase_rel:
  assumes "futex_rel c Q" "Q k \<noteq> []"
  shows "\<exists>c1. table_erase k c = (Some (hd (Q k)), c1) \<and> futex_rel c1 (Q(k := [])) \<and> fc_nodes c1 = fc_nodes c"
  using assms heads_upd [OF assms(1), of k "[]"] table_find_rel [OF assms(1), of k]
  by (auto simp: table_erase_def first_nonempty futex_rel_def)

lemma table_insert_rel:
  assumes c: "futex_rel c Q" and q: "Q k = []" "queue_ok (fc_nodes c) k q" "q \<noteq> []" "k \<noteq> 0"
  shows "futex_rel (table_insert (hd q) c) (Q(k := q))"
proof -
  have "hd q \<notin> set (fc_table c)"
  proof
    assume "hd q \<in> set (fc_table c)"
    then obtain j where j: "Q j \<noteq> []" "hd q = hd (Q j)" using c by (auto simp: futex_rel_def)
    then have "fn_hash_key (fc_nodes c (hd q)) = j" using c hd_in_set [of "Q j"] by (auto simp: futex_rel_def queue_ok_def)
    moreover have "fn_hash_key (fc_nodes c (hd q)) = k" using q hd_in_set [of q] by (auto simp: queue_ok_def)
    ultimately show False using j q(1) by simp
  qed
  then show ?thesis
    using c q heads_upd [OF c, of k q] by (auto simp: futex_rel_def table_insert_def)
qed

lemma futex_rel_nodes:
  assumes "futex_rel c Q" "\<And>k x. x \<in> set (Q k) \<Longrightarrow> h x = fc_nodes c x"
  shows "futex_rel (c\<lparr>fc_nodes := h\<rparr>) Q"
  using assms queue_ok_cong [of _ h "fc_nodes c"] by (auto simp: futex_rel_def)

lemma QueueNodesLocked_rel:
  assumes c: "futex_rel c Q" and r: "queue_ok (fc_nodes c) k r" "r \<noteq> []" "k \<noteq> 0" and d: "\<And>j. set (Q j) \<inter> set r = {}"
  shows "\<exists>c'. QueueNodesLocked (hd r) c = Some c' \<and> futex_rel c' (Q(k := Q k @ r)) \<and>
    (\<forall>x. x \<notin> set (Q k) \<longrightarrow> fc_nodes c' x = fc_nodes c x) \<and> (\<forall>x. fn_condvar (fc_nodes c' x) = fn_condvar (fc_nodes c x))"
proof -
  have key: "fn_hash_key (fc_nodes c (hd r)) = k" using r by (auto simp: queue_ok_def)
  show ?thesis
  proof (cases "Q k = []")
    case True
    then show ?thesis
      using table_insert_rel [OF c True r] table_find_rel [OF c, of k] key by (simp add: QueueNodesLocked_def table_insert_def)
  next
    case False
    have q: "queue_ok (fc_nodes c) k (Q k)" using c by (simp add: futex_rel_def)
    from AppendList_ok [OF q False r(1,2) d] obtain h' where
      h': "AppendList (hd (Q k)) (hd r) (fc_nodes c) = Some h'" "queue_ok h' k (Q k @ r)" "\<And>x. x \<notin> set (Q k) \<Longrightarrow> h' x = fc_nodes c x"
        "\<And>x. fn_condvar (h' x) = fn_condvar (fc_nodes c x)" by blast
    have "queue_ok h' j ((Q(k := Q k @ r)) j)" for j
    proof (cases "j = k")
      case False
      then have "queue_ok h' j (Q j) = queue_ok (fc_nodes c) j (Q j)"
        using futex_rel_disjoint [OF c] by (intro queue_ok_cong h'(3)) blast
      then show ?thesis using False c by (simp add: futex_rel_def)
    qed (simp add: h'(2))
    moreover have "{n. \<exists>j. (Q(k := Q k @ r)) j \<noteq> [] \<and> n = hd ((Q(k := Q k @ r)) j)} = {n. \<exists>j. Q j \<noteq> [] \<and> n = hd (Q j)}"
      using False by (auto split: if_splits)
    ultimately have "futex_rel (c\<lparr>fc_nodes := h'\<rparr>) (Q(k := Q k @ r))" using c r(3) by (simp add: futex_rel_def)
    then show ?thesis
      using h' key False table_find_rel [OF c, of k] by (simp add: QueueNodesLocked_def first_nonempty)
  qed
qed

section \<open>Unlinking a node\<close>

lemma futex_rel_same_head:
  assumes c: "futex_rel c Q" and q: "Q k \<noteq> []" "q \<noteq> []" "hd q = hd (Q k)" "queue_ok h k q"
    and h: "\<And>x. x \<notin> set (Q k) \<Longrightarrow> h x = fc_nodes c x"
  shows "futex_rel (c\<lparr>fc_nodes := h\<rparr>) (Q(k := q))"
proof -
  have "queue_ok h j (Q j)" if "j \<noteq> k" for j
  proof -
    have "queue_ok h j (Q j) = queue_ok (fc_nodes c) j (Q j)"
      using futex_rel_disjoint [OF c] that by (intro queue_ok_cong h) blast
    then show ?thesis using c by (simp add: futex_rel_def)
  qed
  moreover have "hd (Q k) \<in> set (fc_table c)" using c q(1) by (auto simp: futex_rel_def)
  then have "{n. \<exists>j. (Q(k := q)) j \<noteq> [] \<and> n = hd ((Q(k := q)) j)} = set (fc_table c)"
    using heads_upd [OF c, of k q] q by auto
  moreover have "k \<noteq> 0" using c q(1) unfolding futex_rel_def by metis
  ultimately show ?thesis using c q(4) by (simp add: futex_rel_def)
qed

lemma unlink_middle:
  assumes q: "queue_ok h k (ys @ n # zs)" "ys \<noteq> []"
  defines "h1 \<equiv> set_next (last ys) (first zs) h"
  defines "h2 \<equiv> (if first zs = None then set_tail (hd ys) (Some (last ys)) h1 else h1)"
  shows "queue_ok h2 k (ys @ zs)" "x \<notin> set ys \<Longrightarrow> h2 x = h x" "fn_next (h n) = first zs"
proof -
  have Q: "path h (Some (hd ys)) (ys @ n # zs) None" "distinct (ys @ n # zs)" "\<forall>x\<in>set (ys @ n # zs). fn_hash_key (h x) = k"
    "fn_tail (h (hd ys)) = Some (last (n # zs))" using q by (simp_all add: queue_ok_def first_nonempty)
  then obtain r where r: "path h (Some (hd ys)) ys r" "path h r (n # zs) None" using path_append by blast
  then have z: "path h (fn_next (h n)) zs None" by simp
  show n: "fn_next (h n) = first zs" using path_first [OF z] .
  have sel: "fn_next (h2 x) = (if x = last ys then first zs else fn_next (h x))" "fn_hash_key (h2 x) = fn_hash_key (h x)"
    "fn_tail (h2 x) = (if zs = [] \<and> x = hd ys then Some (last ys) else fn_tail (h x))" for x
    by (cases zs; simp add: h2_def h1_def)+
  have "path h2 (Some (hd ys)) ys (first zs)" by (rule path_redirect [OF r(1) _ q(2) sel(1)]) (use Q(2) in simp)
  moreover have "last ys \<notin> set zs" using Q(2) last_in_set [OF q(2)] by auto
  then have "path h2 (first zs) zs None" using z n by (intro path_cong [THEN iffD2, OF _ z [unfolded n]]) (auto simp: sel)
  ultimately have "path h2 (Some (hd ys)) (ys @ zs) None" using path_append by blast
  then show "queue_ok h2 k (ys @ zs)"
    using Q q(2) by (auto simp: queue_ok_def first_nonempty sel)
  show "h2 x = h x" if "x \<notin> set ys"
  proof -
    have "x \<noteq> hd ys" "x \<noteq> last ys" using that q(2) by auto
    then show ?thesis by (simp add: h2_def h1_def set_node_other)
  qed
qed

lemma unlink_head:
  assumes c: "futex_rel c Q" and q: "Q k = n # m # zs"
  defines "h \<equiv> set_tail m (fn_tail (fc_nodes c n)) (fc_nodes c)"
  shows "futex_rel (table_insert m ((snd (table_erase k c))\<lparr>fc_nodes := h\<rparr>)) (Q(k := m # zs))" "fn_next (fc_nodes c n) = Some m"
    "fn_hash_key (h m) = k"
proof -
  from table_erase_rel [OF c, of k] q obtain c1 where
    c1: "table_erase k c = (Some n, c1)" "futex_rel c1 (Q(k := []))" "fc_nodes c1 = fc_nodes c" by auto
  have Q: "queue_ok (fc_nodes c) k (n # m # zs)" using c q by (metis futex_rel_def)
  then show "fn_next (fc_nodes c n) = Some m" "fn_hash_key (h m) = k" by (simp_all add: queue_ok_def h_def)
  have "path h (Some m) (m # zs) None"
    using Q by (intro path_cong [THEN iffD2, of _ h "fc_nodes c"]) (auto simp: queue_ok_def h_def)
  then have ok: "queue_ok h k (m # zs)" using Q by (auto simp: queue_ok_def h_def)
  have "futex_rel (c1\<lparr>fc_nodes := h\<rparr>) (Q(k := []))"
  proof (rule futex_rel_nodes [OF c1(2)])
    fix j x assume "x \<in> set ((Q(k := [])) j)"
    then have "x \<noteq> m" using futex_rel_disjoint [OF c, of m k j] q by (auto split: if_splits)
    then show "h x = fc_nodes c1 x" by (simp add: h_def c1(3) set_node_other)
  qed
  moreover have "k \<noteq> 0" using c q unfolding futex_rel_def by (metis list.distinct(1))
  ultimately show "futex_rel (table_insert m ((snd (table_erase k c))\<lparr>fc_nodes := h\<rparr>)) (Q(k := m # zs))"
    using table_insert_rel [of "c1\<lparr>fc_nodes := h\<rparr>" "Q(k := [])" k "m # zs"] ok c1(1) by simp
qed

lemma unlink_walk_found:
  assumes c: "futex_rel c Q" and q: "Q k = ys @ xs" "node \<in> set xs"
  shows "\<exists>c'. unlink_walk node k (hd (Q k)) (if ys = [] then None else Some (last ys)) (first xs) c = Some (Some c') \<and>
    futex_rel c' (Q(k := remove1 node (Q k)))"
  using q
proof (induction xs arbitrary: ys)
  case (Cons t zs)
  have Q: "queue_ok (fc_nodes c) k (ys @ t # zs)" using c Cons.prems(1) by (metis futex_rel_def)
  then have key: "fn_hash_key (fc_nodes c t) = k" and ds: "distinct (ys @ t # zs)" by (simp_all add: queue_ok_def)
  show ?case
  proof (cases "t = node")
    case True
    with ds have r: "remove1 node (Q k) = ys @ zs" using Cons.prems(1) by (simp add: remove1_append)
    show ?thesis
    proof (cases "ys = []")
      case False
      note u = unlink_middle [OF Q False]
      have "futex_rel (c\<lparr>fc_nodes := (if first zs = None then set_tail (hd ys) (Some (last ys)) (set_next (last ys) (first zs) (fc_nodes c))
          else set_next (last ys) (first zs) (fc_nodes c))\<rparr>) (Q(k := ys @ zs))"
        by (rule futex_rel_same_head [OF c]) (use u Cons.prems(1) False in auto)
      then show ?thesis
        using False True key u(3) Cons.prems(1) r by (subst unlink_walk.simps) (auto simp: Let_def)
    next
      case ys: True
      show ?thesis
      proof (cases zs)
        case Nil
        with c Q ys Cons.prems table_erase_rel [OF c, of k] obtain c1 where
          "table_erase k c = (Some t, c1)" "futex_rel c1 (Q(k := []))" by fastforce
        then show ?thesis using Nil ys True key Q r by (subst unlink_walk.simps) (auto simp: Let_def queue_ok_def)
      next
        case (Cons m zs')
        note u = unlink_head [OF c, of k t m zs']
        have "fc_nodes (snd (table_erase k c)) = fc_nodes c" by (simp add: table_erase_def split: option.split)
        then show ?thesis using u Cons ys True key Cons.prems r \<open>Q k = ys @ t # zs\<close>
          by (subst unlink_walk.simps) (auto simp: Let_def)
      qed
    qed
  next
    case False
    have "fn_next (fc_nodes c t) = first zs"
      using Q path_first by (fastforce simp: queue_ok_def path_append)
    then have "unlink_walk node k (hd (Q k)) (if ys = [] then None else Some (last ys)) (first (t # zs)) c =
        unlink_walk node k (hd (Q k)) (Some t) (first zs) c" using False key by (subst unlink_walk.simps) (simp add: Let_def)
    with Cons.IH [of "ys @ [t]"] Cons.prems False show ?thesis by simp
  qed
qed simp

lemma unlink_walk_missing:
  assumes "path (fc_nodes c) p xs None" "\<forall>x\<in>set xs. fn_hash_key (fc_nodes c x) = k" "node \<notin> set xs"
  shows "unlink_walk node k hd_node prev p c = Some None"
  using assms
proof (induction xs arbitrary: p prev)
  case (Cons x xs)
  then show ?case by (subst unlink_walk.simps) auto
qed (simp add: unlink_walk.simps)

section \<open>Properties\<close>

definition conds :: "futex_context \<Rightarrow> nat list \<Rightarrow> cond list" where
  "conds c ns = map (\<lambda>n. fn_condvar (fc_nodes c n)) ns"

lemma fc_nodes_upd: "fc_nodes (c\<lparr>fc_nodes := h\<rparr>) = h" "c\<lparr>fc_nodes := h\<rparr>\<lparr>fc_nodes := h'\<rparr> = c\<lparr>fc_nodes := h'\<rparr>"
  by simp_all

lemma detached_rel:
  assumes c: "futex_rel c Q" and c1: "futex_rel c1 (Q(k := []))" "fc_nodes c1 = fc_nodes c"
    and h: "\<And>x. x \<notin> set (Q k) \<Longrightarrow> h x = fc_nodes c x"
  shows "futex_rel (c1\<lparr>fc_nodes := h\<rparr>) (Q(k := []))"
proof (rule futex_rel_nodes [OF c1(1)])
  fix j x assume "x \<in> set ((Q(k := [])) j)"
  then have "x \<notin> set (Q k)" using futex_rel_disjoint [OF c, of x j k] by (auto split: if_splits)
  then show "h x = fc_nodes c1 x" using h c1(2) by simp
qed

lemma reinsert_rel:
  assumes c: "futex_rel c (Q(k := []))" and q: "queue_ok (fc_nodes c) k q" and k: "k \<noteq> 0"
  shows "\<exists>c'. put_back k (first q) c = Some c' \<and>
    futex_rel c' (Q(k := q)) \<and> fc_nodes c' = fc_nodes c"
proof (cases "q = []")
  case False
  then have "fn_hash_key (fc_nodes c (hd q)) = k" using q by (simp add: queue_ok_def)
  then show ?thesis using table_insert_rel [OF c _ q False k] False by (simp add: put_back_def first_nonempty table_insert_def)
qed (use c in \<open>simp add: put_back_def\<close>)

text \<open>
  C20: waking a futex is taking from the front of its queue. A wake of up to \<open>count\<close> threads signals the condition variables
  of exactly the first \<open>count\<close> nodes queued on the address, oldest first, and leaves the rest queued in
  order; every other address keeps its queue. The linked lists and the table represent the new queues, and no assertion of the futex
  code fails.
\<close>

theorem futex_wake_fifo:
  assumes "futex_rel c Q"
  shows "\<exists>c'. futex_rel c' (Q(k := drop count (Q k))) \<and>
    (\<forall>s. FutexWake e k count c s = map_option (\<lambda>s'. (NO_ERROR, c', s')) (signal_conds e (conds c (take count (Q k))) s))"
proof (cases "count = 0 \<or> Q k = []")
  case True
  then show ?thesis
    using assms table_find_rel [OF assms, of k]
    by (intro exI [of _ c]) (auto simp: FutexWake_def table_erase_def conds_def fun_upd_idem)
next
  case False
  have k: "k \<noteq> 0" using assms False unfolding futex_rel_def by metis
  from table_erase_rel [OF assms, of k] False obtain c1 where
    c1: "table_erase k c = (Some (hd (Q k)), c1)" "futex_rel c1 (Q(k := []))" "fc_nodes c1 = fc_nodes c" by auto
  have q: "queue_ok (fc_nodes c) k (Q k)" using assms by (simp add: futex_rel_def)
  from RemoveFromHead_ok [OF q, of count 0] False obtain h where
    h: "RemoveFromHead (hd (Q k)) count k 0 (fc_nodes c) = Some (first (drop count (Q k)), h)" "queue_ok h 0 (take count (Q k))"
      "queue_ok h k (drop count (Q k))" "\<And>x. x \<notin> set (Q k) \<Longrightarrow> h x = fc_nodes c x" "\<And>x. fn_condvar (h x) = fn_condvar (fc_nodes c x)"
    by auto
  have "futex_rel (c1\<lparr>fc_nodes := h\<rparr>) (Q(k := []))" by (rule detached_rel [OF assms c1(2,3) h(4)])
  from reinsert_rel [OF this, of "drop count (Q k)", unfolded fc_nodes_upd, OF h(3) k] obtain c' where
    c': "put_back k (first (drop count (Q k))) (c1\<lparr>fc_nodes := h\<rparr>) = Some c'"
      "futex_rel c' (Q(k := drop count (Q k)))" by blast
  have key: "fn_hash_key (fc_nodes c (hd (Q k))) = k" using q False by (simp add: queue_ok_def)
  have "path h (Some (hd (Q k))) (take count (Q k)) None"
    using h(2) False by (simp add: queue_ok_def first_nonempty hd_take)
  then have "WakeThreads e h (Some (hd (Q k))) s = signal_conds e (conds c (take count (Q k))) s" for s
    using WakeThreads_path h(5) by (simp add: conds_def)
  then have "FutexWake e k count c s = map_option (\<lambda>s'. (NO_ERROR, c', s')) (signal_conds e (conds c (take count (Q k))) s)" for s
    using False c1 h(1) c'(1) key by (simp add: FutexWake_def Let_def map_conv_bind_option comp_def)
  with c'(2) show ?thesis by blast
qed

text \<open>The two stages of a requeue on the detached queue.\<close>

lemma wake_stage:
  assumes q: "queue_ok h k q" "q \<noteq> []"
  shows "\<exists>h'. detach_wakes (hd q) n k h =
        Some (first (take n q), first (drop n q), h') \<and>
    queue_ok h' k (drop n q) \<and> path h' (first (take n q)) (take n q) None \<and>
    (\<forall>x. x \<notin> set q \<longrightarrow> h' x = h x) \<and> (\<forall>x. fn_condvar (h' x) = fn_condvar (h x))"
proof (cases "n = 0")
  case True
  then show ?thesis using q by (simp add: detach_wakes_def first_nonempty)
next
  case False
  with RemoveFromHead_ok [OF q, of n 0] obtain h' where
    h': "RemoveFromHead (hd q) n k 0 h = Some (first (drop n q), h')" "queue_ok h' 0 (take n q)" "queue_ok h' k (drop n q)"
      "\<forall>x. x \<notin> set q \<longrightarrow> h' x = h x" "\<forall>x. fn_condvar (h' x) = fn_condvar (h x)" by auto
  have "first (take n q) = Some (hd q)" using q(2) False by (cases q; cases n) auto
  with h' False show ?thesis by (auto simp: detach_wakes_def queue_ok_def)
qed

lemma requeue_stage:
  assumes c: "futex_rel c (Q(wk := []))" and q: "queue_ok (fc_nodes c) wk q" and d: "\<And>j. j \<noteq> wk \<Longrightarrow> set (Q j) \<inter> set q = {}"
    and k: "rk \<noteq> 0" "wk \<noteq> rk"
  shows "\<exists>c'. requeue_nodes n wk rk (first q) c = Some (first (drop n q), c') \<and>
    futex_rel c' (Q(wk := [], rk := Q rk @ take n q)) \<and> queue_ok (fc_nodes c') wk (drop n q) \<and>
    (\<forall>x. x \<notin> set q \<and> x \<notin> set (Q rk) \<longrightarrow> fc_nodes c' x = fc_nodes c x) \<and> (\<forall>x. fn_condvar (fc_nodes c' x) = fn_condvar (fc_nodes c x))"
proof (cases "q = [] \<or> n = 0")
  case True
  have "Q(wk := [], rk := Q rk) = Q(wk := [])" using k(2) by (auto simp: fun_eq_iff)
  then show ?thesis using True c q by (intro exI [of _ c]) (auto simp: requeue_nodes_def first_nonempty split: option.split)
next
  case False
  with RemoveFromHead_ok [OF q, of n rk] obtain h where
    h: "RemoveFromHead (hd q) n wk rk (fc_nodes c) = Some (first (drop n q), h)" "queue_ok h rk (take n q)" "queue_ok h wk (drop n q)"
      "\<And>x. x \<notin> set q \<Longrightarrow> h x = fc_nodes c x" "\<And>x. fn_condvar (h x) = fn_condvar (fc_nodes c x)" by auto
  have Q: "set ((Q(wk := [])) j) \<inter> set q = {}" for j using d by simp
  have t: "take n q \<noteq> []" "hd (take n q) = hd q" using False by (simp_all add: hd_take)
  have c2: "futex_rel (c\<lparr>fc_nodes := h\<rparr>) (Q(wk := []))"
    by (rule futex_rel_nodes [OF c]) (use h(4) Q in blast)
  have "set ((Q(wk := [])) j) \<inter> set (take n q) = {}" for j using Q [of j] set_take_subset [of n q] by blast
  with QueueNodesLocked_rel [OF c2 _ t(1) k(1)] h(2) t(2) k(2) obtain c' where
    c': "QueueNodesLocked (hd q) (c\<lparr>fc_nodes := h\<rparr>) = Some c'" "futex_rel c' (Q(wk := [], rk := Q rk @ take n q))"
      "\<And>x. x \<notin> set (Q rk) \<Longrightarrow> fc_nodes c' x = h x" "\<And>x. fn_condvar (fc_nodes c' x) = fn_condvar (h x)" by auto
  have "x \<notin> set (Q rk)" if "x \<in> set (drop n q)" for x using that d [of rk] k(2) set_drop_subset [of n q] by blast
  then have "queue_ok (fc_nodes c') wk (drop n q)" using h(3) c'(3) queue_ok_cong [of "drop n q" "fc_nodes c'" h] by blast
  moreover have "fn_hash_key (h (hd q)) = rk" using h(2) t hd_in_set [OF t(1)] by (simp add: queue_ok_def)
  ultimately show ?thesis using False h(1,4,5) c' by (auto simp: requeue_nodes_def first_nonempty)
qed

text \<open>
  C21: requeueing moves waiters without waking them. With the expected value in the futex word, the first \<open>wake_count\<close> waiters
  are woken, the next \<open>requeue_count\<close> are appended in order to the queue of the other address, and the rest stay;
  no thread is lost or queued twice, and no assertion of the futex code fails.
\<close>

theorem futex_requeue_moves:
  assumes "futex_rel c Q" "user_value wk = Inr cur" "rk \<noteq> 0" "wk \<noteq> rk"
  shows "\<exists>c'. futex_rel c' (Q(wk := drop (wake_count + requeue_count) (Q wk), rk := Q rk @ take requeue_count (drop wake_count (Q wk)))) \<and>
    (\<forall>s. FutexRequeue e user_value wk wake_count cur rk requeue_count c s =
      map_option (\<lambda>s'. (NO_ERROR, c', s')) (signal_conds e (conds c (take wake_count (Q wk))) s))"
proof (cases "Q wk = []")
  case True
  then have "Q(wk := drop (wake_count + requeue_count) (Q wk), rk := Q rk @ take requeue_count (drop wake_count (Q wk))) = Q" by (auto simp: fun_eq_iff)
  then show ?thesis
    using True assms table_find_rel [OF assms(1), of wk]
    by (intro exI [of _ c]) (auto simp: FutexRequeue_def table_erase_def conds_def)
next
  case False
  have k: "wk \<noteq> 0" using assms(1) False unfolding futex_rel_def by metis
  let ?q = "drop wake_count (Q wk)"
  from table_erase_rel [OF assms(1) False] obtain c1 where
    c1: "table_erase wk c = (Some (hd (Q wk)), c1)" "futex_rel c1 (Q(wk := []))" "fc_nodes c1 = fc_nodes c" by auto
  have q: "queue_ok (fc_nodes c) wk (Q wk)" using assms(1) by (simp add: futex_rel_def)
  from wake_stage [OF q False, of wake_count] obtain h where
    h: "detach_wakes (hd (Q wk)) wake_count wk (fc_nodes c) =
        Some (first (take wake_count (Q wk)), first ?q, h)" "queue_ok h wk ?q"
      "path h (first (take wake_count (Q wk))) (take wake_count (Q wk)) None"
      "\<And>x. x \<notin> set (Q wk) \<Longrightarrow> h x = fc_nodes c x" "\<And>x. fn_condvar (h x) = fn_condvar (fc_nodes c x)" by blast
  have c2: "futex_rel (c1\<lparr>fc_nodes := h\<rparr>) (Q(wk := []))" by (rule detached_rel [OF assms(1) c1(2,3) h(4)])
  have dis: "set (Q j) \<inter> set (Q wk) = {}" if "j \<noteq> wk" for j using that futex_rel_disjoint [OF assms(1)] by blast
  then have "set (Q j) \<inter> set ?q = {}" if "j \<noteq> wk" for j using that set_drop_subset [of wake_count "Q wk"] by blast
  from requeue_stage [OF c2, unfolded fc_nodes_upd, OF h(2) this assms(3,4), of requeue_count] obtain c3 where
    c3: "requeue_nodes requeue_count wk rk (first ?q) (c1\<lparr>fc_nodes := h\<rparr>) = Some (first (drop requeue_count ?q), c3)"
      "futex_rel c3 (Q(wk := [], rk := Q rk @ take requeue_count ?q))" "queue_ok (fc_nodes c3) wk (drop requeue_count ?q)"
      "\<And>x. x \<notin> set ?q \<Longrightarrow> x \<notin> set (Q rk) \<Longrightarrow> fc_nodes c3 x = h x" "\<And>x. fn_condvar (fc_nodes c3 x) = fn_condvar (h x)" by blast
  have "futex_rel c3 ((Q(rk := Q rk @ take requeue_count ?q))(wk := []))" using c3(2) assms(4) by (simp add: fun_upd_twist)
  from reinsert_rel [OF this c3(3) k] obtain c' where
    c': "put_back wk (first (drop requeue_count ?q)) c3 = Some c'"
      "futex_rel c' (Q(wk := drop (wake_count + requeue_count) (Q wk), rk := Q rk @ take requeue_count ?q))" "fc_nodes c' = fc_nodes c3"
    using assms(4) by (auto simp: fun_upd_twist add.commute)
  have "fc_nodes c3 x = h x" if "x \<in> set (take wake_count (Q wk))" for x
    using that c3(4) dis [OF assms(4) [symmetric]] q set_take_disj_set_drop_if_distinct [of "Q wk" wake_count wake_count]
    by (auto simp: queue_ok_def dest: in_set_takeD)
  then have "path (fc_nodes c') (first (take wake_count (Q wk))) (take wake_count (Q wk)) None"
    using h(3) c'(3) path_cong [of "take wake_count (Q wk)" "fc_nodes c'" h] by auto
  from WakeThreads_path [OF this] have "WakeThreads e (fc_nodes c') (first (take wake_count (Q wk))) s =
      signal_conds e (conds c (take wake_count (Q wk))) s" for s
    using c'(3) c3(5) h(5) by (simp add: conds_def)
  moreover have "FutexRequeue e user_value wk wake_count cur rk requeue_count c s =
      Option.bind (WakeThreads e (fc_nodes c') (first (take wake_count (Q wk))) s) (\<lambda>s. Some (NO_ERROR, c', s))" for s
    using assms c1 h(1) c3(1) c'(1) by (simp add: FutexRequeue_def)
  ultimately show ?thesis using c'(2) by (auto simp: map_conv_bind_option comp_def)
qed

text \<open>A context with the nodes 1, 2 and 3 queued on address 8 and node 4 on address 16.\<close>

definition futex_example :: futex_context where
  "futex_example =
     (let nd = (\<lambda>k n t. \<lparr>fn_hash_key = k, fn_condvar = \<lparr>c_magic = True, c_wait = Wq 0\<rparr>, fn_next = n, fn_tail = t\<rparr>) in
      \<lparr>fc_nodes = (\<lambda>_. nd 0 None None)(1 := nd 8 (Some 2) (Some 3), 2 := nd 8 (Some 3) None, 3 := nd 8 None None, 4 := nd 16 None (Some 4)),
       fc_table = [1, 4]\<rparr>)"

definition futex_queues :: "nat \<Rightarrow> nat list" where
  "futex_queues = (\<lambda>_. [])(8 := [1, 2, 3], 16 := [4])"

lemma futex_example_rel: "futex_rel futex_example futex_queues"
proof -
  have "queue_ok (fc_nodes futex_example) k (futex_queues k)" for k
    by (simp add: futex_example_def futex_queues_def Let_def queue_ok_def)
  moreover have "{n. \<exists>k. futex_queues k \<noteq> [] \<and> n = hd (futex_queues k)} = {1, 4}"
    by (auto simp: futex_queues_def split: if_splits) (rule exI [of _ 16], simp)
  ultimately show ?thesis by (simp add: futex_rel_def) (simp add: futex_example_def futex_queues_def Let_def)
qed

theorem futex_wake_fifo_witness:
  "\<exists>c'. futex_rel c' (futex_queues(8 := [3])) \<and>
    FutexWake (env0 0) 8 2 futex_example kstate0 =
      map_option (\<lambda>s'. (NO_ERROR, c', s')) (signal_conds (env0 0) (conds futex_example [1, 2]) kstate0)"
  using futex_wake_fifo [OF futex_example_rel, of 8 2 "env0 0"] by (auto simp: futex_queues_def numeral_2_eq_2)

theorem futex_requeue_moves_witness:
  "\<exists>c'. futex_rel c' (futex_queues(8 := [3], 16 := [4, 2])) \<and>
    FutexRequeue (env0 0) (\<lambda>_. Inr 7) 8 1 7 16 1 futex_example kstate0 =
      map_option (\<lambda>s'. (NO_ERROR, c', s')) (signal_conds (env0 0) (conds futex_example [1]) kstate0)"
  using futex_requeue_moves [OF futex_example_rel, of "\<lambda>_. Inr 7" 8 7 16 1 1 "env0 0"] by (auto simp: futex_queues_def)

text \<open>
  C22: a futex wait does not lose a wakeup. The check of the word and the queueing are one step: when the word has the expected
  value the thread joins the end of the queue of the address, and otherwise nothing changes. When the wait later ends
  without having been woken, by a timeout or a kill, the result tells the truth: if the node is still queued, on whatever address it
  was moved to, it is unlinked and the wait reports a timeout; if a wake has already taken it, the wait
  reports success and every queue is untouched.
\<close>

theorem futex_wait_no_lost_wakeup:
  assumes "futex_rel c Q" "\<forall>v. user_value 0 \<noteq> Inr v"
  shows "((\<forall>k. node \<notin> set (Q k)) \<longrightarrow>
      (\<exists>c'. FutexWait_enter user_value p cur node c =
          (case user_value p of Inl err \<Rightarrow> Some (Returned err, c)
           | Inr v \<Rightarrow> if v = cur then Some (Switched, c') else Some (Returned ERR_BUSY, c)) \<and>
        (user_value p = Inr cur \<longrightarrow> futex_rel c' (Q(p := Q p @ [node]))))) \<and>
    (result \<noteq> NO_ERROR \<longrightarrow>
      (\<forall>k. node \<in> set (Q k) \<longrightarrow> (\<exists>c'. FutexWait_return result node c = Some (ERR_TIMED_OUT, c') \<and>
          futex_rel c' (Q(k := remove1 node (Q k))))) \<and>
      ((\<forall>k. node \<notin> set (Q k)) \<longrightarrow> FutexWait_return result node c = Some (NO_ERROR, c)))"
proof (intro conjI impI allI)
  assume n: "\<forall>k. node \<notin> set (Q k)"
  show "\<exists>c'. FutexWait_enter user_value p cur node c =
      (case user_value p of Inl err \<Rightarrow> Some (Returned err, c)
       | Inr v \<Rightarrow> if v = cur then Some (Switched, c') else Some (Returned ERR_BUSY, c)) \<and>
      (user_value p = Inr cur \<longrightarrow> futex_rel c' (Q(p := Q p @ [node])))"
  proof (cases "user_value p = Inr cur")
    case True
    then have p: "p \<noteq> 0" using assms(2) by metis
    let ?h = "set_tail node (Some node) (set_next node None (set_hash_key node p (fc_nodes c)))"
    have c1: "futex_rel (c\<lparr>fc_nodes := ?h\<rparr>) Q"
      by (rule futex_rel_nodes [OF assms(1)]) (use n in \<open>auto simp: set_tail_def set_next_def set_hash_key_def\<close>)
    have "queue_ok ?h p [node]" by (simp add: queue_ok_def)
    with QueueNodesLocked_rel [OF c1, of p "[node]"] p n obtain c' where
      "QueueNodesLocked node (c\<lparr>fc_nodes := ?h\<rparr>) = Some c'" "futex_rel c' (Q(p := Q p @ [node]))" by auto
    with True show ?thesis by (auto simp: FutexWait_enter_def Let_def)
  qed (auto simp: FutexWait_enter_def split: sum.split)
next
  fix k assume r: "result \<noteq> NO_ERROR" "node \<in> set (Q k)"
  then have key: "fn_hash_key (fc_nodes c node) = k" "Q k \<noteq> []" using assms(1) by (auto simp: futex_rel_def queue_ok_def)
  from unlink_walk_found [OF assms(1), of k "[]" "Q k" node] r(2) obtain c' where
    "unlink_walk node k (hd (Q k)) None (first (Q k)) c = Some (Some c')" "futex_rel c' (Q(k := remove1 node (Q k)))" by auto
  then show "\<exists>c'. FutexWait_return result node c = Some (ERR_TIMED_OUT, c') \<and> futex_rel c' (Q(k := remove1 node (Q k)))"
    using r key table_find_rel [OF assms(1), of k] by (auto simp: FutexWait_return_def Let_def first_nonempty)
next
  assume r: "result \<noteq> NO_ERROR" and n: "\<forall>k. node \<notin> set (Q k)"
  define k where "k = fn_hash_key (fc_nodes c node)"
  have "path (fc_nodes c) (first (Q k)) (Q k) None" "\<forall>x\<in>set (Q k). fn_hash_key (fc_nodes c x) = k"
    using assms(1) by (auto simp: futex_rel_def queue_ok_def)
  then have "unlink_walk node k h None (first (Q k)) c = Some None" for h by (rule unlink_walk_missing) (use n in simp)
  then show "FutexWait_return result node c = Some (NO_ERROR, c)"
    using r table_find_rel [OF assms(1), of k] by (cases "Q k") (simp_all add: FutexWait_return_def Let_def flip: k_def)
qed

theorem futex_wait_no_lost_wakeup_witness:
  "(\<exists>c'. FutexWait_enter (\<lambda>p. if p = 0 then Inl ERR_INVALID_ARGS else Inr 7) 8 7 5 futex_example = Some (Switched, c') \<and>
      futex_rel c' (futex_queues(8 := [1, 2, 3, 5]))) \<and>
    (\<exists>c'. FutexWait_return ERR_TIMED_OUT 2 futex_example = Some (ERR_TIMED_OUT, c') \<and> futex_rel c' (futex_queues(8 := [1, 3]))) \<and>
    FutexWait_return ERR_TIMED_OUT 6 futex_example = Some (NO_ERROR, futex_example)"
proof -
  let ?u = "\<lambda>p. if p = 0 then Inl ERR_INVALID_ARGS else Inr (7 :: int)"
  have u: "\<forall>v. ?u (0 :: nat) \<noteq> Inr v" by simp
  have n: "\<forall>k. 5 \<notin> set (futex_queues k)" "\<forall>k. 6 \<notin> set (futex_queues k)" "2 \<in> set (futex_queues 8)"
    "remove1 2 (futex_queues 8) = [1, 3]" "futex_queues 8 = [1, 2, 3]"
    by (simp_all add: futex_queues_def)
  note t = futex_wait_no_lost_wakeup [where user_value = ?u, OF futex_example_rel u]
  have "\<exists>c'. FutexWait_return ERR_TIMED_OUT 2 futex_example = Some (ERR_TIMED_OUT, c') \<and> futex_rel c' (futex_queues(8 := [1, 3]))"
    using t [of 2 8 7 ERR_TIMED_OUT] n(3,4) by fastforce
  moreover have "FutexWait_return ERR_TIMED_OUT 6 futex_example = Some (NO_ERROR, futex_example)"
    using t [of 6 8 7 ERR_TIMED_OUT] n(2) by blast
  moreover have "\<exists>c'. FutexWait_enter ?u 8 7 5 futex_example = Some (Switched, c') \<and> futex_rel c' (futex_queues(8 := [1, 2, 3, 5]))"
    using t [of 5 8 7 NO_ERROR] n(1,5) by simp
  ultimately show ?thesis by blast
qed

end
