(* ===== verification/State_Tracker.thy ===== *)
theory State_Tracker
  imports Kernel_Sync
begin

unbundle bit_operations_syntax

text \<open>
  The state tracker of \<^verbatim>\<open>kernel/lib/magenta/state_tracker.cpp\<close>: the signals of a kernel object and the
  observers that are told about them. The virtual methods of \<^verbatim>\<open>StateObserver\<close> are a record of
  functions over the state \<open>'w\<close> the observers act on; \<^verbatim>\<open>thread_yield\<close> is a function on that state too.
  A section of code under the tracker's mutex is one definition.

  The locale \<open>state_observer\<close> is the contract between the tracker and its observers. Under it, an
  observer in the list is always informed of the current signals: no change is lost between adding an
  observer and removing it.
\<close>

section \<open>Signals and observers\<close>

record signals_state =
  satisfied :: mx_signals
  satisfiable :: mx_signals

type_synonym handle_ref = nat

record ('o, 'w) observer_ops =
  OnInitialize :: "'o \<Rightarrow> signals_state \<Rightarrow> 'w \<Rightarrow> (bool \<times> 'w) option"
  OnStateChange :: "'o \<Rightarrow> signals_state \<Rightarrow> 'w \<Rightarrow> (bool \<times> 'w) option"
  OnCancel :: "'o \<Rightarrow> handle_ref \<Rightarrow> 'w \<Rightarrow> (bool \<times> bool \<times> bool \<times> 'w) option"
  OnDidCancel :: "'o \<Rightarrow> 'w \<Rightarrow> 'w option"
  Thread_Yield :: "'w \<Rightarrow> 'w option"

record 'o state_tracker =
  st_is_waitable :: bool
  st_observers :: "'o list"
  st_signals :: signals_state

section \<open>The operations of the tracker\<close>

definition StateTracker :: "bool \<Rightarrow> signals_state \<Rightarrow> 'o state_tracker" where
  "StateTracker is_waitable signals_state =
     \<lparr>st_is_waitable = is_waitable, st_observers = [], st_signals = signals_state\<rparr>"

definition set_initial_signals_state :: "signals_state \<Rightarrow> 'o state_tracker \<Rightarrow> 'o state_tracker" where
  "set_initial_signals_state signals_state tr = tr\<lparr>st_signals := signals_state\<rparr>"

definition maybe_yield :: "('o, 'w) observer_ops \<Rightarrow> bool \<Rightarrow> 'w \<Rightarrow> 'w option" where
  "maybe_yield ops awoke_threads w = (if awoke_threads then Thread_Yield ops w else Some w)"

definition AddObserver ::
  "('o, 'w) observer_ops \<Rightarrow> 'o \<Rightarrow> 'o state_tracker \<Rightarrow> 'w \<Rightarrow> (status \<times> 'o state_tracker \<times> 'w) option" where
  "AddObserver ops ob tr w = do {
     let tr = tr\<lparr>st_observers := ob # st_observers tr\<rparr>;
     (awoke_threads, w) \<leftarrow> OnInitialize ops ob (st_signals tr) w;
     w \<leftarrow> maybe_yield ops awoke_threads w;
     Some (NO_ERROR, tr, w)
   }"

definition RemoveObserver :: "'o \<Rightarrow> 'o state_tracker \<Rightarrow> signals_state \<times> 'o state_tracker" where
  "RemoveObserver ob tr = (st_signals tr, tr\<lparr>st_observers := remove1 ob (st_observers tr)\<rparr>)"

fun notify_observers :: "('o, 'w) observer_ops \<Rightarrow> signals_state \<Rightarrow> 'o list \<Rightarrow> 'w \<Rightarrow> (bool \<times> 'w) option" where
  "notify_observers ops st [] w = Some (False, w)"
| "notify_observers ops st (ob # obs) w = do {
     (a, w) \<leftarrow> OnStateChange ops ob st w;
     (b, w) \<leftarrow> notify_observers ops st obs w;
     Some (a \<or> b, w)
   }"

definition update_signals :: "mx_signals \<Rightarrow> mx_signals \<Rightarrow> mx_signals \<Rightarrow> mx_signals \<Rightarrow> signals_state \<Rightarrow> signals_state" where
  "update_signals sat_set sat_clear able_set able_clear st =
     \<lparr>satisfied = satisfied st AND NOT sat_clear OR sat_set,
      satisfiable = satisfiable st AND NOT able_clear OR able_set\<rparr>"

definition UpdateState ::
  "('o, 'w) observer_ops \<Rightarrow> mx_signals \<Rightarrow> mx_signals \<Rightarrow> mx_signals \<Rightarrow> mx_signals \<Rightarrow>
   'o state_tracker \<Rightarrow> 'w \<Rightarrow> ('o state_tracker \<times> 'w) option" where
  "UpdateState ops sat_set sat_clear able_set able_clear tr w = do {
     let previous = st_signals tr;
     let tr = tr\<lparr>st_signals := update_signals sat_set sat_clear able_set able_clear previous\<rparr>;
     if satisfied previous = satisfied (st_signals tr) \<and> satisfiable previous = satisfiable (st_signals tr)
     then Some (tr, w)
     else do {
       (awoke_threads, w) \<leftarrow> notify_observers ops (st_signals tr) (st_observers tr) w;
       w \<leftarrow> maybe_yield ops awoke_threads w;
       Some (tr, w)
     }
   }"

definition UpdateSatisfied ::
  "('o, 'w) observer_ops \<Rightarrow> mx_signals \<Rightarrow> mx_signals \<Rightarrow> 'o state_tracker \<Rightarrow> 'w \<Rightarrow> ('o state_tracker \<times> 'w) option" where
  "UpdateSatisfied ops set_mask clear_mask tr w = UpdateState ops set_mask clear_mask 0 0 tr w"

text \<open>
  \<^verbatim>\<open>Cancel\<close> walks the list under the lock, taking out the observers that ask for it; those that ask to
  be told are pushed on the front of a second list, which is walked after the lock is released.
\<close>

fun cancel_observers ::
  "('o, 'w) observer_ops \<Rightarrow> handle_ref \<Rightarrow> 'o list \<Rightarrow> 'o list \<Rightarrow> 'w \<Rightarrow> (bool \<times> 'o list \<times> 'o list \<times> 'w) option" where
  "cancel_observers ops handle [] did_cancel w = Some (False, [], did_cancel, w)"
| "cancel_observers ops handle (ob # obs) did_cancel w = do {
     (a, should_remove, call_did_cancel, w) \<leftarrow> OnCancel ops ob handle w;
     let did_cancel = (if should_remove \<and> call_did_cancel then ob # did_cancel else did_cancel);
     (b, rest, did_cancel, w) \<leftarrow> cancel_observers ops handle obs did_cancel w;
     Some (a \<or> b, if should_remove then rest else ob # rest, did_cancel, w)
   }"

fun did_cancel_observers :: "('o, 'w) observer_ops \<Rightarrow> 'o list \<Rightarrow> 'w \<Rightarrow> 'w option" where
  "did_cancel_observers ops [] w = Some w"
| "did_cancel_observers ops (ob # obs) w = do { w \<leftarrow> OnDidCancel ops ob w; did_cancel_observers ops obs w }"

definition Cancel ::
  "('o, 'w) observer_ops \<Rightarrow> handle_ref \<Rightarrow> 'o state_tracker \<Rightarrow> 'w \<Rightarrow> ('o state_tracker \<times> 'w) option" where
  "Cancel ops handle tr w = do {
     (awoke_threads, obs, did_cancel, w) \<leftarrow> cancel_observers ops handle (st_observers tr) [] w;
     let tr = tr\<lparr>st_observers := obs\<rparr>;
     w \<leftarrow> did_cancel_observers ops did_cancel w;
     w \<leftarrow> maybe_yield ops awoke_threads w;
     Some (tr, w)
   }"

section \<open>The contract of the observers\<close>

text \<open>
  \<open>attached ob w\<close>: the tracker may call the observer. \<open>informed ob st w\<close>: the observer has acted on the
  signals \<open>st\<close>. An observer keeps what the others know.
\<close>

definition keeps_observer ::
  "('o \<Rightarrow> 'w \<Rightarrow> bool) \<Rightarrow> ('o \<Rightarrow> signals_state \<Rightarrow> 'w \<Rightarrow> bool) \<Rightarrow> 'o \<Rightarrow> 'w \<Rightarrow> 'w \<Rightarrow> bool" where
  "keeps_observer attached informed p w w' \<longleftrightarrow>
     (attached p w \<longrightarrow> attached p w') \<and> (attached p w \<longrightarrow> (\<forall>st. informed p st w \<longrightarrow> informed p st w'))"

lemma keeps_observer_refl [simp]: "keeps_observer att infd p w w"
  by (simp add: keeps_observer_def)

lemma keeps_observer_trans:
  "keeps_observer att infd p w w' \<Longrightarrow> keeps_observer att infd p w' w'' \<Longrightarrow> keeps_observer att infd p w w''"
  by (simp add: keeps_observer_def)

definition tracker_ok ::
  "('o \<Rightarrow> 'w \<Rightarrow> bool) \<Rightarrow> ('o \<Rightarrow> signals_state \<Rightarrow> 'w \<Rightarrow> bool) \<Rightarrow> 'o state_tracker \<Rightarrow> 'w \<Rightarrow> bool" where
  "tracker_ok attached informed tr w \<longleftrightarrow> distinct (st_observers tr) \<and>
     (\<forall>ob\<in>set (st_observers tr). attached ob w \<and> informed ob (st_signals tr) w)"

lemma tracker_ok_keeps:
  assumes "tracker_ok att infd tr w" "\<And>p. p \<in> set (st_observers tr) \<Longrightarrow> keeps_observer att infd p w w'"
  shows "tracker_ok att infd tr w'"
  using assms by (auto simp: tracker_ok_def keeps_observer_def)

locale state_observer =
  fixes ops :: "('o, 'w) observer_ops"
    and inv :: "'w \<Rightarrow> bool"
    and fresh :: "'o \<Rightarrow> 'w \<Rightarrow> bool"
    and attached :: "'o \<Rightarrow> 'w \<Rightarrow> bool"
    and informed :: "'o \<Rightarrow> signals_state \<Rightarrow> 'w \<Rightarrow> bool"
  assumes on_initialize: "\<And>w ob st. inv w \<Longrightarrow> fresh ob w \<Longrightarrow> \<exists>a w'. OnInitialize ops ob st w = Some (a, w') \<and> inv w' \<and>
        attached ob w' \<and> informed ob st w' \<and> (\<forall>p. p \<noteq> ob \<longrightarrow> keeps_observer attached informed p w w')"
    and on_state_change: "\<And>w ob st. inv w \<Longrightarrow> attached ob w \<Longrightarrow> \<exists>a w'. OnStateChange ops ob st w = Some (a, w') \<and> inv w' \<and>
        attached ob w' \<and> informed ob st w' \<and> (\<forall>p. p \<noteq> ob \<longrightarrow> keeps_observer attached informed p w w')"
    and on_cancel: "\<And>w ob h. inv w \<Longrightarrow> attached ob w \<Longrightarrow> \<exists>a r d w'. OnCancel ops ob h w = Some (a, r, d, w') \<and> inv w' \<and>
        (\<not> r \<longrightarrow> keeps_observer attached informed ob w w') \<and> (\<forall>p. p \<noteq> ob \<longrightarrow> keeps_observer attached informed p w w')"
    and on_did_cancel: "\<And>w ob. inv w \<Longrightarrow> \<exists>w'. OnDidCancel ops ob w = Some w' \<and> inv w' \<and>
        (\<forall>p. p \<noteq> ob \<longrightarrow> keeps_observer attached informed p w w')"
    and yield: "\<And>w. inv w \<Longrightarrow> \<exists>w'. Thread_Yield ops w = Some w' \<and> inv w' \<and>
        (\<forall>p. keeps_observer attached informed p w w')"
begin

abbreviation keeps :: "'o \<Rightarrow> 'w \<Rightarrow> 'w \<Rightarrow> bool" where "keeps \<equiv> keeps_observer attached informed"
abbreviation tracked :: "'o state_tracker \<Rightarrow> 'w \<Rightarrow> bool" where "tracked \<equiv> tracker_ok attached informed"

lemma maybe_yield_ok:
  assumes "inv w"
  shows "\<exists>w'. maybe_yield ops b w = Some w' \<and> inv w' \<and> (\<forall>p. keeps p w w')"
  using yield [OF assms] assms by (auto simp: maybe_yield_def)

lemma notify_observers_ok:
  assumes "inv w" "distinct obs" "\<forall>ob\<in>set obs. attached ob w"
  shows "\<exists>a w'. notify_observers ops st obs w = Some (a, w') \<and> inv w' \<and>
    (\<forall>ob\<in>set obs. attached ob w' \<and> informed ob st w') \<and> (\<forall>p. p \<notin> set obs \<longrightarrow> keeps p w w')"
  using assms
proof (induction obs arbitrary: w)
  case (Cons ob obs)
  from on_state_change [of w ob st] Cons.prems obtain a w1 where
    w1: "OnStateChange ops ob st w = Some (a, w1)" "inv w1" "attached ob w1" "informed ob st w1"
      "\<And>p. p \<noteq> ob \<Longrightarrow> keeps p w w1" by auto
  have "attached p w1" if "p \<in> set obs" for p using that w1(5) [of p] Cons.prems by (auto simp: keeps_observer_def)
  with Cons.IH [of w1] w1(2) Cons.prems obtain b w2 where
    w2: "notify_observers ops st obs w1 = Some (b, w2)" "inv w2"
      "\<forall>p\<in>set obs. attached p w2 \<and> informed p st w2" "\<And>p. p \<notin> set obs \<Longrightarrow> keeps p w1 w2" by auto
  have "keeps ob w1 w2" using w2(4) Cons.prems by simp
  then have "attached ob w2 \<and> informed ob st w2" using w1(3,4) by (simp add: keeps_observer_def)
  moreover have "keeps p w w2" if "p \<notin> set (ob # obs)" for p
    using that keeps_observer_trans [OF w1(5) w2(4)] by simp
  ultimately show ?case using w1(1) w2 by auto
qed (auto intro: exI [of _ False])

lemma AddObserver_tracked:
  assumes "inv w" "fresh ob w" "tracked tr w" "ob \<notin> set (st_observers tr)"
  shows "\<exists>tr' w'. AddObserver ops ob tr w = Some (NO_ERROR, tr', w') \<and> inv w' \<and> tracked tr' w' \<and>
    st_observers tr' = ob # st_observers tr \<and> st_signals tr' = st_signals tr \<and>
    (\<forall>p. p \<noteq> ob \<longrightarrow> keeps p w w')"
proof -
  from on_initialize [OF assms(1,2), of "st_signals tr"] obtain a w1 where
    w1: "OnInitialize ops ob (st_signals tr) w = Some (a, w1)" "inv w1" "attached ob w1" "informed ob (st_signals tr) w1"
      "\<And>p. p \<noteq> ob \<Longrightarrow> keeps p w w1" by blast
  from maybe_yield_ok [OF w1(2), of a] obtain w2 where
    w2: "maybe_yield ops a w1 = Some w2" "inv w2" "\<And>p. keeps p w1 w2" by blast
  let ?tr = "tr\<lparr>st_observers := ob # st_observers tr\<rparr>"
  have "tracked tr w1" using assms(3,4) w1(5) by (metis tracker_ok_keeps)
  then have "tracked ?tr w1" using w1(3,4) assms(4) by (simp add: tracker_ok_def)
  then have "tracked ?tr w2" using w2(3) by (metis tracker_ok_keeps)
  then show ?thesis
    using w1(1) w2(1,2) keeps_observer_trans [OF w1(5) w2(3)] by (auto simp: AddObserver_def Let_def)
qed

lemma UpdateState_tracked:
  assumes "inv w" "tracked tr w"
  shows "\<exists>tr' w'. UpdateState ops a b c d tr w = Some (tr', w') \<and> inv w' \<and> tracked tr' w' \<and>
    st_observers tr' = st_observers tr \<and> st_signals tr' = update_signals a b c d (st_signals tr) \<and>
    st_is_waitable tr' = st_is_waitable tr \<and> (\<forall>p. p \<notin> set (st_observers tr) \<longrightarrow> keeps p w w')"
proof -
  let ?st = "update_signals a b c d (st_signals tr)"
  let ?tr = "tr\<lparr>st_signals := ?st\<rparr>"
  show ?thesis
  proof (cases "satisfied (st_signals tr) = satisfied ?st \<and> satisfiable (st_signals tr) = satisfiable ?st")
    case True
    then have st: "?st = st_signals tr" by simp
    then have "?tr = tr" by simp
    with st assms show ?thesis by (simp add: UpdateState_def Let_def)
  next
    case False
    from notify_observers_ok [OF assms(1), of "st_observers tr" ?st] assms(2) obtain aw w1 where
      w1: "notify_observers ops ?st (st_observers tr) w = Some (aw, w1)" "inv w1"
        "\<forall>ob\<in>set (st_observers tr). attached ob w1 \<and> informed ob ?st w1"
        "\<And>p. p \<notin> set (st_observers tr) \<Longrightarrow> keeps p w w1" by (auto simp: tracker_ok_def)
    from maybe_yield_ok [OF w1(2), of aw] obtain w2 where
      w2: "maybe_yield ops aw w1 = Some w2" "inv w2" "\<And>p. keeps p w1 w2" by blast
    have "tracked ?tr w1" using w1(3) assms(2) by (simp add: tracker_ok_def)
    then have "tracked ?tr w2" using w2(3) by (metis tracker_ok_keeps)
    moreover have "\<forall>p. p \<notin> set (st_observers tr) \<longrightarrow> keeps p w w2"
      using keeps_observer_trans [OF w1(4) w2(3)] by blast
    ultimately show ?thesis using False w1(1) w2 by (auto simp: UpdateState_def Let_def)
  qed
qed

lemma RemoveObserver_tracked:
  "tracked tr w \<Longrightarrow> tracked (snd (RemoveObserver ob tr)) w"
  by (auto simp: RemoveObserver_def tracker_ok_def)

lemma cancel_observers_ok:
  assumes "inv w" "distinct obs" "\<forall>ob\<in>set obs. attached ob w"
  shows "\<exists>a rest did w'. cancel_observers ops h obs acc w = Some (a, rest, did, w') \<and> inv w' \<and>
    set rest \<subseteq> set obs \<and> distinct rest \<and> set did \<subseteq> set acc \<union> (set obs - set rest) \<and>
    (\<forall>p. p \<notin> set obs - set rest \<longrightarrow> keeps p w w')"
  using assms
proof (induction obs arbitrary: w acc)
  case (Cons ob obs)
  from on_cancel [of w ob h] Cons.prems obtain a r d w1 where
    w1: "OnCancel ops ob h w = Some (a, r, d, w1)" "inv w1" "\<not> r \<Longrightarrow> keeps ob w w1"
      "\<And>p. p \<noteq> ob \<Longrightarrow> keeps p w w1" by auto
  let ?acc = "if r \<and> d then ob # acc else acc"
  have "attached p w1" if "p \<in> set obs" for p using that w1(4) [of p] Cons.prems by (auto simp: keeps_observer_def)
  with Cons.IH [of w1 ?acc] w1(2) Cons.prems obtain b rest did w2 where
    w2: "cancel_observers ops h obs ?acc w1 = Some (b, rest, did, w2)" "inv w2" "set rest \<subseteq> set obs" "distinct rest"
      "set did \<subseteq> set ?acc \<union> (set obs - set rest)" "\<And>p. p \<notin> set obs - set rest \<Longrightarrow> keeps p w1 w2" by auto
  let ?rest = "if r then rest else ob # rest"
  have ob: "ob \<notin> set obs" "ob \<notin> set rest" using Cons.prems w2(3) by auto
  have "keeps p w w2" if "p \<notin> set (ob # obs) - set ?rest" for p
  proof -
    have "keeps p w w1" using that ob w1(3,4) by (cases "p = ob") (auto split: if_splits)
    moreover have "keeps p w1 w2" using that ob w2(6) by (auto split: if_splits)
    ultimately show ?thesis by (rule keeps_observer_trans)
  qed
  moreover have "cancel_observers ops h (ob # obs) acc w = Some (a \<or> b, ?rest, did, w2)"
    using w1(1) w2(1) by (simp add: Let_def)
  moreover have "set ?rest \<subseteq> set (ob # obs)" "distinct ?rest" "set did \<subseteq> set acc \<union> (set (ob # obs) - set ?rest)"
    using w2(3-5) ob by (auto split: if_splits)
  ultimately show ?case using w2(2) by blast
qed (auto intro: exI [of _ False])

lemma did_cancel_observers_ok:
  assumes "inv w"
  shows "\<exists>w'. did_cancel_observers ops obs w = Some w' \<and> inv w' \<and> (\<forall>p. p \<notin> set obs \<longrightarrow> keeps p w w')"
  using assms
proof (induction obs arbitrary: w)
  case (Cons ob obs)
  from on_did_cancel [OF Cons.prems, of ob] obtain w1 where
    w1: "OnDidCancel ops ob w = Some w1" "inv w1" "\<And>p. p \<noteq> ob \<Longrightarrow> keeps p w w1" by blast
  from Cons.IH [OF w1(2)] obtain w2 where
    w2: "did_cancel_observers ops obs w1 = Some w2" "inv w2" "\<And>p. p \<notin> set obs \<Longrightarrow> keeps p w1 w2" by blast
  show ?case using w1(1) w2(1,2) keeps_observer_trans [OF w1(3) w2(3)] by auto
qed simp

lemma Cancel_tracked:
  assumes "inv w" "tracked tr w"
  shows "\<exists>tr' w'. Cancel ops h tr w = Some (tr', w') \<and> inv w' \<and> tracked tr' w' \<and>
    set (st_observers tr') \<subseteq> set (st_observers tr) \<and> st_signals tr' = st_signals tr \<and>
    (\<forall>p. p \<notin> set (st_observers tr) - set (st_observers tr') \<longrightarrow> keeps p w w')"
proof -
  let ?obs = "st_observers tr"
  have "distinct ?obs" "\<forall>ob\<in>set ?obs. attached ob w" using assms(2) by (auto simp: tracker_ok_def)
  from cancel_observers_ok [OF assms(1) this, of h "[]"] obtain a rest did w1 where
    w1: "cancel_observers ops h ?obs [] w = Some (a, rest, did, w1)" "inv w1" "set rest \<subseteq> set ?obs" "distinct rest"
      "set did \<subseteq> set ?obs - set rest" "\<And>p. p \<notin> set ?obs - set rest \<Longrightarrow> keeps p w w1" by auto
  from did_cancel_observers_ok [OF w1(2), of did] obtain w2 where
    w2: "did_cancel_observers ops did w1 = Some w2" "inv w2" "\<And>p. p \<notin> set did \<Longrightarrow> keeps p w1 w2" by blast
  from maybe_yield_ok [OF w2(2), of a] obtain w3 where
    w3: "maybe_yield ops a w2 = Some w3" "inv w3" "\<And>p. keeps p w2 w3" by blast
  let ?tr = "tr\<lparr>st_observers := rest\<rparr>"
  have kp: "keeps p w w3" if "p \<notin> set ?obs - set rest" for p
    using that w1(5,6) w2(3) w3(3) keeps_observer_trans by (metis subsetD)
  have "tracked ?tr w" using assms(2) w1(3,4) by (auto simp: tracker_ok_def)
  then have "tracked ?tr w3" using kp by (rule tracker_ok_keeps) simp
  then show ?thesis using w1(1,3) w2(1) w3(1,2) kp by (auto simp: Cancel_def Let_def)
qed

end

end
