(* ===== verification/Wait_Event.thy ===== *)
theory Wait_Event
  imports State_Tracker
begin

unbundle bit_operations_syntax

text \<open>
  Waiting on handles: \<^verbatim>\<open>kernel/lib/magenta/wait_event.cpp\<close>, the one-shot event a thread waits on, and
  \<^verbatim>\<open>wait_state_observer.cpp\<close>, the observer that signals it. Wait events and observers live on the stacks
  of the waiting threads; the state has them by address, over the state of the kernel.
\<close>

section \<open>The state observers act on\<close>

text \<open>The four classes that derive from \<^verbatim>\<open>StateObserver\<close>, by address.\<close>

datatype observer = Wait_Obs nat | Set_Entry nat | Set_Self nat | Port_Obs nat

datatype we_result = WE_INVALID | WE_INTERRUPTED | WE_TIMED_OUT | WE_CANCELLED | WE_SATISFIED | WE_UNSATISFIABLE

fun ResultToStatus :: "we_result \<Rightarrow> status" where
  "ResultToStatus WE_INVALID = ERR_INTERNAL"
| "ResultToStatus WE_INTERRUPTED = ERR_INTERRUPTED"
| "ResultToStatus WE_TIMED_OUT = ERR_TIMED_OUT"
| "ResultToStatus WE_CANCELLED = ERR_CANCELLED"
| "ResultToStatus WE_SATISFIED = NO_ERROR"
| "ResultToStatus WE_UNSATISFIABLE = ERR_BAD_STATE"

record wait_event =
  we_signaled :: bool
  we_result :: we_result
  we_context :: u64
  we_event :: event

record wait_observer =
  wo_event :: nat
  wo_handle :: handle_ref
  wo_watched_signals :: mx_signals
  wo_context :: u64
  wo_dispatcher :: "nat option"

record wait_state =
  w_kernel :: kstate
  w_events :: "nat \<Rightarrow> wait_event"
  w_observers :: "nat \<Rightarrow> wait_observer"

section \<open>Wait events\<close>

fun HaveContextForResult :: "we_result \<Rightarrow> bool" where
  "HaveContextForResult WE_INVALID = False"
| "HaveContextForResult WE_INTERRUPTED = False"
| "HaveContextForResult WE_TIMED_OUT = False"
| "HaveContextForResult _ = True"

definition WaitEvent :: "wq_ref \<Rightarrow> kstate \<Rightarrow> wait_event \<times> kstate" where
  "WaitEvent q s = (let (ev, s) = event_init q False 0 s
     in (\<lparr>we_signaled = False, we_result = WE_INVALID, we_context = 0, we_event = ev\<rparr>, s))"

text \<open>The part of \<^verbatim>\<open>Wait\<close> after the wait on the event: the result and the context that are returned.\<close>

definition wait_event_result :: "status \<Rightarrow> wait_event \<Rightarrow> (we_result \<times> u64 option) option" where
  "wait_event_result status we =
     (if status = ERR_INTERRUPTED then Some (WE_INTERRUPTED, None)
      else if status = ERR_TIMED_OUT then Some (WE_TIMED_OUT, None)
      else do {
        kassert (status = NO_ERROR);
        kassert (we_signaled we);
        kassert (we_result we \<noteq> WE_INVALID);
        kassert (HaveContextForResult (we_result we));
        Some (we_result we, Some (we_context we))
      })"

definition WaitEvent_Wait_enter ::
  "cpu_env \<Rightarrow> lk_time \<Rightarrow> wait_event \<Rightarrow> kstate \<Rightarrow> ((we_result \<times> u64 option) outcome \<times> wait_event \<times> kstate) option" where
  "WaitEvent_Wait_enter e timeout we s = do {
     (r, ev, s) \<leftarrow> event_wait_enter e timeout True (we_event we) s;
     let we = we\<lparr>we_event := ev\<rparr>;
     case r of
       Returned status \<Rightarrow> do { res \<leftarrow> wait_event_result status we; Some (Returned res, we, s) }
     | Switched \<Rightarrow> Some (Switched, we, s)
   }"

definition WaitEvent_Wait_return ::
  "cpu_env \<Rightarrow> lk_time \<Rightarrow> wait_event \<Rightarrow> kstate \<Rightarrow> ((we_result \<times> u64 option) \<times> kstate) option" where
  "WaitEvent_Wait_return e timeout we s = do {
     let (status, s) = event_wait_return e timeout s;
     res \<leftarrow> wait_event_result status we;
     Some (res, s)
   }"

definition WaitEvent_Signal ::
  "cpu_env \<Rightarrow> we_result \<Rightarrow> u64 \<Rightarrow> wait_event \<Rightarrow> kstate \<Rightarrow> (bool \<times> wait_event \<times> kstate) option" where
  "WaitEvent_Signal e result context we s = do {
     kassert (result \<noteq> WE_INVALID \<and> result \<noteq> WE_INTERRUPTED \<and> result \<noteq> WE_TIMED_OUT);
     if we_signaled we then Some (False, we, s)
     else do {
       let we = we\<lparr>we_signaled := True, we_result := result, we_context := context\<rparr>;
       (n, ev, s) \<leftarrow> event_signal_etc e False NO_ERROR (we_event we) s;
       Some (n \<noteq> 0, we\<lparr>we_event := ev\<rparr>, s)
     }
   }"

section \<open>Wait state observers\<close>

definition signal_wait_event ::
  "cpu_env \<Rightarrow> nat \<Rightarrow> we_result \<Rightarrow> u64 \<Rightarrow> 'a wait_state_scheme \<Rightarrow> (bool \<times> 'a wait_state_scheme) option" where
  "signal_wait_event e i result context w = do {
     (b, we, s) \<leftarrow> WaitEvent_Signal e result context (w_events w i) (w_kernel w);
     Some (b, w\<lparr>w_kernel := s, w_events := (w_events w)(i := we)\<rparr>)
   }"

definition WaitStateObserver_MaybeSignal ::
  "cpu_env \<Rightarrow> nat \<Rightarrow> signals_state \<Rightarrow> 'a wait_state_scheme \<Rightarrow> (bool \<times> 'a wait_state_scheme) option" where
  "WaitStateObserver_MaybeSignal e i st w = do {
     let ob = w_observers w i;
     kassert (wo_dispatcher ob \<noteq> None);
     if satisfied st AND wo_watched_signals ob \<noteq> 0
     then signal_wait_event e (wo_event ob) WE_SATISFIED (wo_context ob) w
     else if satisfiable st AND wo_watched_signals ob = 0
     then signal_wait_event e (wo_event ob) WE_UNSATISFIABLE (wo_context ob) w
     else Some (False, w)
   }"

definition WaitStateObserver_OnInitialize ::
  "cpu_env \<Rightarrow> nat \<Rightarrow> signals_state \<Rightarrow> 'a wait_state_scheme \<Rightarrow> (bool \<times> 'a wait_state_scheme) option" where
  "WaitStateObserver_OnInitialize e i st w = WaitStateObserver_MaybeSignal e i st w"

definition WaitStateObserver_OnStateChange ::
  "cpu_env \<Rightarrow> nat \<Rightarrow> signals_state \<Rightarrow> 'a wait_state_scheme \<Rightarrow> (bool \<times> 'a wait_state_scheme) option" where
  "WaitStateObserver_OnStateChange e i st w = WaitStateObserver_MaybeSignal e i st w"

definition WaitStateObserver_OnCancel ::
  "cpu_env \<Rightarrow> nat \<Rightarrow> handle_ref \<Rightarrow> 'a wait_state_scheme \<Rightarrow> (bool \<times> bool \<times> bool \<times> 'a wait_state_scheme) option" where
  "WaitStateObserver_OnCancel e i handle w = do {
     let ob = w_observers w i;
     kassert (wo_dispatcher ob \<noteq> None);
     if handle = wo_handle ob
     then do {
       (b, w) \<leftarrow> signal_wait_event e (wo_event ob) WE_CANCELLED (wo_context ob) w;
       Some (b, False, False, w)
     }
     else Some (False, False, False, w)
   }"

text \<open>
  \<^verbatim>\<open>Begin\<close> and \<^verbatim>\<open>End\<close>: the tracker is that of the dispatcher of the handle, None when it has none.
\<close>

definition WaitStateObserver_Begin ::
  "(observer, 'a wait_state_scheme) observer_ops \<Rightarrow> nat \<Rightarrow> nat \<Rightarrow> handle_ref \<Rightarrow> mx_signals \<Rightarrow> u64 \<Rightarrow> nat \<Rightarrow>
   observer state_tracker option \<Rightarrow> 'a wait_state_scheme \<Rightarrow>
   (status \<times> observer state_tracker option \<times> 'a wait_state_scheme) option" where
  "WaitStateObserver_Begin ops i event handle watched context disp tracker w = do {
     kassert (wo_dispatcher (w_observers w i) = None);
     let w = w\<lparr>w_observers := (w_observers w)(i := \<lparr>wo_event = event, wo_handle = handle,
                 wo_watched_signals = watched, wo_context = context, wo_dispatcher = Some disp\<rparr>)\<rparr>;
     (result, tracker, w) \<leftarrow>
       (case tracker of
          Some tr \<Rightarrow> if st_is_waitable tr
                     then map_option (\<lambda>(r, tr, w). (r, Some tr, w)) (AddObserver ops (Wait_Obs i) tr w)
                     else Some (ERR_NOT_SUPPORTED, tracker, w)
        | None \<Rightarrow> Some (ERR_NOT_SUPPORTED, tracker, w));
     let w = (if result \<noteq> NO_ERROR
              then w\<lparr>w_observers := (w_observers w)(i := (w_observers w i)\<lparr>wo_dispatcher := None\<rparr>)\<rparr> else w);
     Some (result, tracker, w)
   }"

definition WaitStateObserver_End ::
  "nat \<Rightarrow> observer state_tracker \<Rightarrow> 'a wait_state_scheme \<Rightarrow>
   (signals_state \<times> observer state_tracker \<times> 'a wait_state_scheme) option" where
  "WaitStateObserver_End i tr w = do {
     kassert (wo_dispatcher (w_observers w i) \<noteq> None);
     let (st, tr) = RemoveObserver (Wait_Obs i) tr;
     Some (st, tr, w\<lparr>w_observers := (w_observers w)(i := (w_observers w i)\<lparr>wo_dispatcher := None\<rparr>)\<rparr>)
   }"

section \<open>The invariant of wait events\<close>

definition wait_event_inv :: "wait_event \<Rightarrow> kstate \<Rightarrow> bool" where
  "wait_event_inv we s \<longleftrightarrow> (ev_magic (we_event we) \<longrightarrow> event_ok (we_event we) s \<and> \<not> bit (ev_flags (we_event we)) 0 \<and>
     (we_signaled we \<longleftrightarrow> ev_signalled (we_event we)) \<and> (we_signaled we \<longrightarrow> HaveContextForResult (we_result we)))"

definition wait_events_inv :: "'a wait_state_scheme \<Rightarrow> bool" where
  "wait_events_inv w \<longleftrightarrow> (\<forall>i. wait_event_inv (w_events w i) (w_kernel w))"

lemma wait_event_inv_frame: "wq_frame s s' \<Longrightarrow> wait_event_inv we s' = wait_event_inv we s"
  by (simp add: wait_event_inv_def event_ok_frame)

lemma have_context_iff: "HaveContextForResult r \<longleftrightarrow> r \<noteq> WE_INVALID \<and> r \<noteq> WE_INTERRUPTED \<and> r \<noteq> WE_TIMED_OUT"
  by (cases r) simp_all

lemma WaitEvent_Signal_ok:
  assumes k: "kernel_ok base e s" and we: "wait_event_inv we s" "ev_magic (we_event we)" and r: "HaveContextForResult r"
  shows "\<exists>b we' s'. WaitEvent_Signal e r c we s = Some (b, we', s') \<and> kernel_ok base e s' \<and> wq_frame s s' \<and>
    wait_event_inv we' s' \<and> ev_magic (we_event we') \<and> we_signaled we' \<and>
    we_result we' = (if we_signaled we then we_result we else r) \<and>
    we_context we' = (if we_signaled we then we_context we else c)"
proof (cases "we_signaled we")
  case True
  then show ?thesis using assms by (auto simp: WaitEvent_Signal_def have_context_iff)
next
  case False
  have ok: "event_ok (we_event we) s" using we by (simp add: wait_event_inv_def)
  from event_signal_ok [OF k this, of NO_ERROR] obtain n ev' s' where
    s': "event_signal_etc e False NO_ERROR (we_event we) s = Some (n, ev', s')" "kernel_ok base e s'" "wq_frame s s'"
      "event_ok ev' s'" "ev_flags ev' = ev_flags (we_event we)" by blast
  have "ev_signalled ev'"
    using s'(1) we ok False by (auto simp: event_signal_etc_def wait_event_inv_def event_ok_def split: bind_splits)
  then show ?thesis
    using s' we r False by (auto simp: WaitEvent_Signal_def have_context_iff wait_event_inv_def event_ok_def)
qed

end
