(* ===== verification/Wait_Set.thy ===== *)
theory Wait_Set
  imports Wait_Event
begin

unbundle bit_operations_syntax

text \<open>
  Wait sets: \<^verbatim>\<open>kernel/lib/magenta/wait_set_dispatcher.cpp\<close>. An entry is an observer of the object it
  watches; the wait set keeps the entries by cookie and lists the triggered ones in the order in which
  they triggered. The hash table of the entries is the list of its elements, searched by their key. A section under the wait set's mutex is one definition, so \<^verbatim>\<open>AddEntry\<close> and
  \<^verbatim>\<open>RemoveEntry\<close>, which call the watched object's tracker outside the mutex, are two steps each.
  Entries and wait sets are heap objects, by address. The count of triggered entries is a natural number: it
  counts distinct heap objects.
\<close>

section \<open>Data\<close>

datatype entry_state = UNINITIALIZED | ADD_PENDING | ADDED | REMOVED

record wait_set_entry =
  en_watched_signals :: mx_signals
  en_cookie :: u64
  en_state :: entry_state
  en_wait_set :: "nat option"
  en_handle :: "handle_ref option"
  en_dispatcher :: "nat option"
  en_is_triggered :: bool
  en_signals_state :: signals_state

record wait_set =
  ws_cv :: cond
  ws_waiter_count :: nat
  ws_cancelled :: bool
  ws_entries :: "nat list"
  ws_triggered_entries :: "nat list"
  ws_num_triggered_entries :: nat

record set_state = wait_state +
  w_sets :: "nat \<Rightarrow> wait_set"
  w_entries :: "nat \<Rightarrow> wait_set_entry"

definition upd_set :: "nat \<Rightarrow> (wait_set \<Rightarrow> wait_set) \<Rightarrow> 'a set_state_scheme \<Rightarrow> 'a set_state_scheme" where
  "upd_set s f w = w\<lparr>w_sets := (w_sets w)(s := f (w_sets w s))\<rparr>"

definition upd_entry :: "nat \<Rightarrow> (wait_set_entry \<Rightarrow> wait_set_entry) \<Rightarrow> 'a set_state_scheme \<Rightarrow> 'a set_state_scheme" where
  "upd_entry i f w = w\<lparr>w_entries := (w_entries w)(i := f (w_entries w i))\<rparr>"

definition find_entry :: "nat \<Rightarrow> u64 \<Rightarrow> 'a set_state_scheme \<Rightarrow> nat option" where
  "find_entry s cookie w = find (\<lambda>i. en_cookie (w_entries w i) = cookie) (ws_entries (w_sets w s))"

section \<open>Entries\<close>

definition Entry :: "mx_signals \<Rightarrow> u64 \<Rightarrow> wait_set_entry" where
  "Entry watched_signals cookie =
     \<lparr>en_watched_signals = watched_signals, en_cookie = cookie, en_state = UNINITIALIZED, en_wait_set = None,
      en_handle = None, en_dispatcher = None, en_is_triggered = False, en_signals_state = \<lparr>satisfied = 0, satisfiable = 0\<rparr>\<rparr>"

definition Init_NoLock :: "nat \<Rightarrow> handle_ref \<Rightarrow> nat \<Rightarrow> wait_set_entry \<Rightarrow> wait_set_entry option" where
  "Init_NoLock wait_set handle disp en = do {
     kassert (en_state en = UNINITIALIZED);
     kassert (en_wait_set en = None);
     kassert (en_handle en = None);
     kassert (en_dispatcher en = None);
     Some (en\<lparr>en_state := ADD_PENDING, en_wait_set := Some wait_set, en_handle := Some handle, en_dispatcher := Some disp\<rparr>)
   }"

definition Trigger_NoLock :: "cpu_env \<Rightarrow> nat \<Rightarrow> 'a set_state_scheme \<Rightarrow> (bool \<times> 'a set_state_scheme) option" where
  "Trigger_NoLock e i w = do {
     s \<leftarrow> en_wait_set (w_entries w i);
     kassert (\<not> en_is_triggered (w_entries w i));
     let w = upd_entry i (\<lambda>en. en\<lparr>en_is_triggered := True\<rparr>) w;
     let was_empty = (ws_triggered_entries (w_sets w s) = []);
     let w = upd_set s (\<lambda>ws. ws\<lparr>ws_triggered_entries := ws_triggered_entries ws @ [i],
                               ws_num_triggered_entries := ws_num_triggered_entries ws + 1\<rparr>) w;
     if was_empty
     then do {
       k \<leftarrow> cond_broadcast e (ws_cv (w_sets w s)) (w_kernel w);
       Some (ws_waiter_count (w_sets w s) \<noteq> 0, w\<lparr>w_kernel := k\<rparr>)
     }
     else Some (False, w)
   }"

definition entry_ready :: "mx_signals \<Rightarrow> signals_state \<Rightarrow> bool" where
  "entry_ready watched st \<longleftrightarrow> watched AND satisfied st \<noteq> 0 \<or> watched AND satisfiable st = 0"

definition Entry_OnInitialize ::
  "cpu_env \<Rightarrow> nat \<Rightarrow> signals_state \<Rightarrow> 'a set_state_scheme \<Rightarrow> (bool \<times> 'a set_state_scheme) option" where
  "Entry_OnInitialize e i initial_state w = do {
     kassert (en_state (w_entries w i) = ADD_PENDING);
     let w = upd_entry i (\<lambda>en. en\<lparr>en_state := ADDED, en_signals_state := initial_state\<rparr>) w;
     if entry_ready (en_watched_signals (w_entries w i)) (en_signals_state (w_entries w i))
     then Trigger_NoLock e i w
     else Some (False, w)
   }"

definition Entry_OnStateChange ::
  "cpu_env \<Rightarrow> nat \<Rightarrow> signals_state \<Rightarrow> 'a set_state_scheme \<Rightarrow> (bool \<times> 'a set_state_scheme) option" where
  "Entry_OnStateChange e i new_state w =
     (if en_state (w_entries w i) = REMOVED then Some (False, w)
      else do {
        kassert (en_state (w_entries w i) = ADDED);
        let w = upd_entry i (\<lambda>en. en\<lparr>en_signals_state := new_state\<rparr>) w;
        if entry_ready (en_watched_signals (w_entries w i)) (en_signals_state (w_entries w i))
        then if en_is_triggered (w_entries w i) then Some (False, w) else Trigger_NoLock e i w
        else if en_is_triggered (w_entries w i)
        then do {
          s \<leftarrow> en_wait_set (w_entries w i);
          kassert (i \<in> set (ws_triggered_entries (w_sets w s)));
          let w = upd_entry i (\<lambda>en. en\<lparr>en_is_triggered := False\<rparr>) w;
          kassert (ws_num_triggered_entries (w_sets w s) > 0);
          Some (False, upd_set s (\<lambda>ws. ws\<lparr>ws_triggered_entries := remove1 i (ws_triggered_entries ws),
                                         ws_num_triggered_entries := ws_num_triggered_entries ws - 1\<rparr>) w)
        }
        else Some (False, w)
      })"

definition Entry_OnCancel ::
  "cpu_env \<Rightarrow> nat \<Rightarrow> handle_ref \<Rightarrow> 'a set_state_scheme \<Rightarrow> (bool \<times> bool \<times> bool \<times> 'a set_state_scheme) option" where
  "Entry_OnCancel e i handle w =
     (if en_state (w_entries w i) = REMOVED then Some (False, False, False, w)
      else do {
        kassert (en_state (w_entries w i) = ADDED);
        kassert (en_handle (w_entries w i) \<noteq> None);
        if en_handle (w_entries w i) \<noteq> Some handle then Some (False, False, False, w)
        else do {
          let w = upd_entry i (\<lambda>en. en\<lparr>en_handle := None, en_dispatcher := None\<rparr>) w;
          if \<not> en_is_triggered (w_entries w i)
          then do { (b, w) \<leftarrow> Trigger_NoLock e i w; Some (b, True, False, w) }
          else Some (False, True, False, w)
        }
      })"

section \<open>The wait set\<close>

text \<open>
  \<^verbatim>\<open>AddEntry\<close>: the section under the mutex, and the whole call. The watched dispatcher is given by its
  address and its tracker.
\<close>

definition AddEntry_locked ::
  "nat \<Rightarrow> nat \<Rightarrow> handle_ref \<Rightarrow> nat \<Rightarrow> 'a set_state_scheme \<Rightarrow> (status \<times> 'a set_state_scheme) option" where
  "AddEntry_locked s i handle disp w =
     (if find_entry s (en_cookie (w_entries w i)) w \<noteq> None then Some (ERR_ALREADY_EXISTS, w)
      else do {
        en \<leftarrow> Init_NoLock s handle disp (w_entries w i);
        Some (NO_ERROR, upd_set s (\<lambda>ws. ws\<lparr>ws_entries := i # ws_entries ws\<rparr>)
                          (upd_entry i (\<lambda>_. en) w))
      })"

definition AddEntry ::
  "(observer, 'a set_state_scheme) observer_ops \<Rightarrow> nat \<Rightarrow> nat \<Rightarrow> handle_ref \<Rightarrow> nat \<Rightarrow> observer state_tracker option \<Rightarrow>
   'a set_state_scheme \<Rightarrow> (status \<times> observer state_tracker option \<times> 'a set_state_scheme) option" where
  "AddEntry ops s i handle disp tracker w =
     (case tracker of
        None \<Rightarrow> Some (ERR_NOT_SUPPORTED, tracker, w)
      | Some tr \<Rightarrow>
          if \<not> st_is_waitable tr then Some (ERR_NOT_SUPPORTED, tracker, w)
          else do {
            (st, w) \<leftarrow> AddEntry_locked s i handle disp w;
            if st \<noteq> NO_ERROR then Some (st, tracker, w)
            else do {
              (result, tr, w) \<leftarrow> AddObserver ops (Set_Entry i) tr w;
              if result \<noteq> NO_ERROR
              then do {
                kassert (en_state (w_entries w i) = ADD_PENDING);
                Some (result, Some tr, upd_set s (\<lambda>ws. ws\<lparr>ws_entries := remove1 i (ws_entries ws)\<rparr>) w)
              }
              else Some (NO_ERROR, Some tr, w)
            }
          })"

text \<open>
  \<^verbatim>\<open>RemoveEntry\<close>: the section under the mutex returns the entry that the call goes on to detach from the
  tracker of its dispatcher, when it has one.
\<close>

definition RemoveEntry_locked ::
  "nat \<Rightarrow> u64 \<Rightarrow> 'a set_state_scheme \<Rightarrow> (status \<times> (nat \<times> nat) option \<times> 'a set_state_scheme) option" where
  "RemoveEntry_locked s cookie w =
     (case find_entry s cookie w of
        None \<Rightarrow> Some (ERR_NOT_FOUND, None, w)
      | Some i \<Rightarrow> do {
          let w = upd_set s (\<lambda>ws. ws\<lparr>ws_entries := remove1 i (ws_entries ws)\<rparr>) w;
          w \<leftarrow> (if en_is_triggered (w_entries w i)
                then do {
                  kassert (i \<in> set (ws_triggered_entries (w_sets w s)));
                  kassert (ws_num_triggered_entries (w_sets w s) > 0);
                  Some (upd_set s (\<lambda>ws. ws\<lparr>ws_triggered_entries := remove1 i (ws_triggered_entries ws),
                                          ws_num_triggered_entries := ws_num_triggered_entries ws - 1\<rparr>) w)
                }
                else Some w);
          if en_state (w_entries w i) = ADD_PENDING
          then Some (NO_ERROR, None, upd_set s (\<lambda>ws. ws\<lparr>ws_entries := i # ws_entries ws\<rparr>) w)
          else do {
            kassert (en_state (w_entries w i) = ADDED);
            Some (NO_ERROR, map_option (\<lambda>d. (i, d)) (en_dispatcher (w_entries w i)),
                  upd_entry i (\<lambda>en. en\<lparr>en_state := REMOVED\<rparr>) w)
          }
        })"

text \<open>
  The destructor: every entry is marked as removed under the mutex; those that still have a dispatcher are
  returned, for the caller to detach them from its tracker.
\<close>

fun remove_all :: "nat list \<Rightarrow> (nat \<Rightarrow> wait_set_entry) \<Rightarrow> (nat \<Rightarrow> wait_set_entry) option" where
  "remove_all [] tab = Some tab"
| "remove_all (i # is) tab = do {
     kassert (en_state (tab i) = ADDED);
     remove_all is (tab(i := (tab i)\<lparr>en_state := REMOVED\<rparr>))
   }"

definition WaitSet_destroy_locked :: "nat \<Rightarrow> 'a set_state_scheme \<Rightarrow> ((nat \<times> nat) list \<times> 'a set_state_scheme) option" where
  "WaitSet_destroy_locked s w = do {
     tab \<leftarrow> remove_all (ws_entries (w_sets w s)) (w_entries w);
     let w = upd_set s (\<lambda>ws. ws\<lparr>ws_triggered_entries := []\<rparr>) (w\<lparr>w_entries := tab\<rparr>);
     Some (List.map_filter (\<lambda>i. map_option (\<lambda>d. (i, d)) (en_dispatcher (tab i))) (ws_entries (w_sets w s)), w)
   }"

definition WaitSet_OnCancel ::
  "cpu_env \<Rightarrow> nat \<Rightarrow> handle_ref \<Rightarrow> 'a set_state_scheme \<Rightarrow> (bool \<times> bool \<times> bool \<times> 'a set_state_scheme) option" where
  "WaitSet_OnCancel e s handle w = do {
     let w = upd_set s (\<lambda>ws. ws\<lparr>ws_cancelled := True\<rparr>) w;
     k \<leftarrow> cond_broadcast e (ws_cv (w_sets w s)) (w_kernel w);
     Some (ws_waiter_count (w_sets w s) > 0, False, False, w\<lparr>w_kernel := k\<rparr>)
   }"

text \<open>
  \<^verbatim>\<open>Wait\<close>: whether the caller waits on the condition variable at all, what each return of
  \<^verbatim>\<open>cond_wait_timeout\<close> leads to (None: the loop waits again), and the results.
\<close>

definition wait_needed :: "wait_set \<Rightarrow> bool" where
  "wait_needed ws \<longleftrightarrow> ws_num_triggered_entries ws = 0 \<and> \<not> ws_cancelled ws"

definition DoWaitInfinite_step :: "status \<Rightarrow> wait_set \<Rightarrow> status option" where
  "DoWaitInfinite_step result ws =
     (if ws_num_triggered_entries ws \<noteq> 0 \<or> ws_cancelled ws \<or> result \<noteq> NO_ERROR then Some result else None)"

definition DoWaitTimeout_step :: "lk_time \<Rightarrow> lk_time \<Rightarrow> status \<Rightarrow> wait_set \<Rightarrow> status option" where
  "DoWaitTimeout_step deadline now result ws =
     (if ws_num_triggered_entries ws \<noteq> 0 \<or> ws_cancelled ws \<or> result \<noteq> NO_ERROR then Some result
      else if now \<ge> deadline then Some ERR_TIMED_OUT else None)"

record wait_set_result =
  wr_cookie :: u64
  wr_reserved :: u32
  wr_wait_result :: status
  wr_signals_state :: signals_state

definition entry_result :: "wait_set_entry \<Rightarrow> wait_set_result option" where
  "entry_result en =
     (case en_handle en of
        Some _ \<Rightarrow> do {
          let st = en_signals_state en;
          res \<leftarrow> (if satisfied st AND en_watched_signals en \<noteq> 0 then Some NO_ERROR
                 else do { kassert (satisfiable st AND en_watched_signals en = 0); Some ERR_BAD_STATE });
          Some \<lparr>wr_cookie = en_cookie en, wr_reserved = 0, wr_wait_result = res, wr_signals_state = st\<rparr>
        }
      | None \<Rightarrow> Some \<lparr>wr_cookie = en_cookie en, wr_reserved = 0, wr_wait_result = ERR_CANCELLED,
                       wr_signals_state = \<lparr>satisfied = 0, satisfiable = 0\<rparr>\<rparr>)"

fun wait_results :: "(nat \<Rightarrow> wait_set_entry) \<Rightarrow> nat \<Rightarrow> nat list \<Rightarrow> wait_set_result list option" where
  "wait_results tab 0 is = Some []"
| "wait_results tab (Suc n) [] = None"
| "wait_results tab (Suc n) (i # is) = do {
     r \<leftarrow> entry_result (tab i);
     rs \<leftarrow> wait_results tab n is;
     Some (r # rs)
   }"

definition Wait_finish ::
  "status \<Rightarrow> nat \<Rightarrow> nat \<Rightarrow> 'a set_state_scheme \<Rightarrow> (status \<times> wait_set_result list \<times> nat) option" where
  "Wait_finish result num_results s w =
     (let ws = w_sets w s in
      if result \<noteq> NO_ERROR \<and> result \<noteq> ERR_TIMED_OUT
      then do { kassert (result = ERR_INTERRUPTED); Some (result, [], 0) }
      else if ws_cancelled ws then Some (ERR_CANCELLED, [], 0)
      else if ws_num_triggered_entries ws = 0
      then do { kassert (result = ERR_TIMED_OUT); Some (ERR_TIMED_OUT, [], 0) }
      else do {
        let num_results = (if ws_num_triggered_entries ws < num_results then ws_num_triggered_entries ws else num_results);
        rs \<leftarrow> wait_results (w_entries w) num_results (ws_triggered_entries ws);
        Some (NO_ERROR, rs, ws_num_triggered_entries ws)
      })"

section \<open>The invariant\<close>

definition set_alive :: "nat \<Rightarrow> 'a set_state_scheme \<Rightarrow> bool" where
  "set_alive s w \<longleftrightarrow> c_magic (ws_cv (w_sets w s))"

definition entry_inv :: "nat \<Rightarrow> wait_set_entry \<Rightarrow> bool" where
  "entry_inv s en \<longleftrightarrow> en_wait_set en = Some s \<and> en_state en \<in> {ADD_PENDING, ADDED} \<and>
     (en_state en = ADD_PENDING \<longrightarrow> \<not> en_is_triggered en) \<and>
     (en_is_triggered en \<and> en_handle en \<noteq> None \<longrightarrow> entry_ready (en_watched_signals en) (en_signals_state en))"

definition wait_set_inv :: "nat \<Rightarrow> 'a set_state_scheme \<Rightarrow> bool" where
  "wait_set_inv s w \<longleftrightarrow>
     wq_magic (wait_queues (w_kernel w) (c_wait (ws_cv (w_sets w s)))) \<and>
     distinct (ws_entries (w_sets w s)) \<and> inj_on (\<lambda>i. en_cookie (w_entries w i)) (set (ws_entries (w_sets w s))) \<and>
     (\<forall>i\<in>set (ws_entries (w_sets w s)). entry_inv s (w_entries w i)) \<and>
     distinct (ws_triggered_entries (w_sets w s)) \<and>
     ws_num_triggered_entries (w_sets w s) = length (ws_triggered_entries (w_sets w s)) \<and>
     (\<forall>i. i \<in> set (ws_triggered_entries (w_sets w s)) \<longleftrightarrow>
        i \<in> set (ws_entries (w_sets w s)) \<and> en_is_triggered (w_entries w i))"

definition sets_inv :: "'a set_state_scheme \<Rightarrow> bool" where
  "sets_inv w \<longleftrightarrow> (\<forall>s. set_alive s w \<longrightarrow> wait_set_inv s w)"

lemma upd_set_sel [simp]:
  "w_sets (upd_set s f w) t = (if t = s then f (w_sets w s) else w_sets w t)" "w_entries (upd_set s f w) = w_entries w"
  "w_kernel (upd_set s f w) = w_kernel w" "w_events (upd_set s f w) = w_events w" "w_observers (upd_set s f w) = w_observers w"
  by (simp_all add: upd_set_def)

lemma upd_entry_sel [simp]:
  "w_entries (upd_entry i f w) j = (if j = i then f (w_entries w i) else w_entries w j)" "w_sets (upd_entry i f w) = w_sets w"
  "w_kernel (upd_entry i f w) = w_kernel w" "w_events (upd_entry i f w) = w_events w" "w_observers (upd_entry i f w) = w_observers w"
  by (simp_all add: upd_entry_def)

lemma sets_inv_entry:
  assumes "sets_inv w" "set_alive s w" "i \<in> set (ws_entries (w_sets w s))" "set_alive t w" "i \<in> set (ws_entries (w_sets w t))"
  shows "t = s"
proof -
  have "entry_inv s (w_entries w i)" "entry_inv t (w_entries w i)" using assms by (simp_all add: sets_inv_def wait_set_inv_def)
  then show ?thesis by (simp add: entry_inv_def)
qed

text \<open>Every step of an entry changes the entry and its place on the triggered list, together.\<close>

lemma sets_inv_step:
  assumes inv: "sets_inv w" and i: "set_alive s w" "i \<in> set (ws_entries (w_sets w s))"
    and en: "en_cookie en = en_cookie (w_entries w i)" "entry_inv s en"
    and tr: "distinct trig" "set trig = (if en_is_triggered en then insert i else (\<lambda>A. A - {i})) (set (ws_triggered_entries (w_sets w s)))"
    and w': "w_sets w' = (w_sets w)(s := (w_sets w s)\<lparr>ws_triggered_entries := trig, ws_num_triggered_entries := length trig\<rparr>)"
      "w_entries w' = (w_entries w)(i := en)" "wq_frame (w_kernel w) (w_kernel w')"
  shows "sets_inv w'"
  unfolding sets_inv_def
proof (intro allI impI)
  fix t assume "set_alive t w'"
  then have t: "set_alive t w" by (auto simp: set_alive_def w'(1) split: if_splits)
  then have wi: "wait_set_inv t w" using inv by (simp add: sets_inv_def)
  have "i \<in> set (ws_entries (w_sets w t)) \<longleftrightarrow> t = s" using sets_inv_entry [OF inv i t] i by auto
  note it = this
  have wq: "wq_magic (wait_queues (w_kernel w') v) = wq_magic (wait_queues (w_kernel w) v)" for v
    using w'(3) by (simp add: wq_frame_def)
  have inj: "inj_on (\<lambda>j. en_cookie (w_entries w' j)) A = inj_on (\<lambda>j. en_cookie (w_entries w j)) A" for A
    using en(1) by (intro inj_on_cong) (simp add: w'(2))
  show "wait_set_inv t w'"
  proof (cases "t = s")
    case True
    have "j \<in> set trig \<longleftrightarrow> j \<in> set (ws_entries (w_sets w s)) \<and> en_is_triggered (w_entries w' j)" for j
      using wi tr(2) i(2) True by (cases "j = i") (auto simp: wait_set_inv_def w'(2))
    moreover have "entry_inv s (w_entries w' j)" if "j \<in> set (ws_entries (w_sets w s))" for j
      using that wi True en(2) by (simp add: wait_set_inv_def w'(2))
    ultimately show ?thesis
      using wi tr(1) True unfolding wait_set_inv_def inj wq by (simp add: w'(1))
  next
    case False
    then have ne: "w_entries w' j = w_entries w j" if "j \<in> set (ws_entries (w_sets w t))" for j
      using that it by (auto simp: w'(2))
    show ?thesis
      using wi False unfolding wait_set_inv_def inj wq by (auto simp: w'(1) ne)
  qed
qed

section \<open>The entries as observers\<close>

definition entry_frame :: "'a set_state_scheme \<Rightarrow> 'a set_state_scheme \<Rightarrow> bool" where
  "entry_frame w w' \<longleftrightarrow> (\<forall>s. ws_cv (w_sets w' s) = ws_cv (w_sets w s) \<and> ws_entries (w_sets w' s) = ws_entries (w_sets w s)) \<and>
     w_events w' = w_events w \<and> w_observers w' = w_observers w \<and> wq_frame (w_kernel w) (w_kernel w') \<and>
     set_state.more w' = set_state.more w"

lemma entry_frame_upd [simp]:
  "entry_frame w (upd_entry i f w)"
  "(\<And>ws. ws_cv (g ws) = ws_cv ws \<and> ws_entries (g ws) = ws_entries ws) \<Longrightarrow> entry_frame w (upd_set s g w)"
  "wq_frame (w_kernel w) k \<Longrightarrow> entry_frame w (w\<lparr>w_kernel := k\<rparr>)"
  by (auto simp: entry_frame_def upd_entry_def upd_set_def)

lemma entry_frame_trans: "entry_frame w w' \<Longrightarrow> entry_frame w' w'' \<Longrightarrow> entry_frame w w''"
  by (auto simp: entry_frame_def intro: wq_frame_trans)

definition entry_attached :: "nat \<Rightarrow> 'a set_state_scheme \<Rightarrow> bool" where
  "entry_attached i w \<longleftrightarrow> en_state (w_entries w i) = REMOVED \<or>
     en_state (w_entries w i) = ADDED \<and> en_handle (w_entries w i) \<noteq> None \<and>
     (\<exists>s. set_alive s w \<and> i \<in> set (ws_entries (w_sets w s)))"

definition entry_informed :: "nat \<Rightarrow> signals_state \<Rightarrow> 'a set_state_scheme \<Rightarrow> bool" where
  "entry_informed i st w \<longleftrightarrow> (en_state (w_entries w i) = ADDED \<longrightarrow> en_signals_state (w_entries w i) = st \<and>
     (en_is_triggered (w_entries w i) \<longleftrightarrow> entry_ready (en_watched_signals (w_entries w i)) st))"

lemma entry_attached_frame:
  assumes "entry_frame w w'" "w_entries w' i = w_entries w i"
  shows "entry_attached i w' = entry_attached i w"
  using assms by (simp add: entry_attached_def entry_frame_def set_alive_def)

lemma Trigger_ok:
  assumes k: "kernel_ok base e (w_kernel w)" and inv: "sets_inv w" and i: "set_alive s w" "i \<in> set (ws_entries (w_sets w s))"
    and en: "en_cookie en = en_cookie (w_entries w i)" "entry_inv s (en\<lparr>en_is_triggered := True\<rparr>)"
    and nt: "\<not> en_is_triggered en" "\<not> en_is_triggered (w_entries w i)"
  shows "\<exists>b w'. Trigger_NoLock e i (upd_entry i (\<lambda>_. en) w) = Some (b, w') \<and> kernel_ok base e (w_kernel w') \<and> sets_inv w' \<and>
    w_entries w' = (w_entries w)(i := en\<lparr>en_is_triggered := True\<rparr>) \<and> entry_frame w w'"
proof -
  let ?ws = "w_sets w s" let ?trig = "ws_triggered_entries ?ws @ [i]"
  let ?w = "upd_set s (\<lambda>ws. ws\<lparr>ws_triggered_entries := ws_triggered_entries ws @ [i],
      ws_num_triggered_entries := ws_num_triggered_entries ws + 1\<rparr>) (upd_entry i (\<lambda>_. en\<lparr>en_is_triggered := True\<rparr>) w)"
  have wi: "wait_set_inv s w" using inv i by (simp add: sets_inv_def)
  then have tr: "distinct ?trig" "i \<notin> set (ws_triggered_entries ?ws)" "ws_num_triggered_entries ?ws = length (ws_triggered_entries ?ws)"
    using nt(2) by (auto simp: wait_set_inv_def)
  have ws: "en_wait_set en = Some s" using en(2) by (simp add: entry_inv_def)
  have fr: "entry_frame w ?w" by (rule entry_frame_trans [OF entry_frame_upd(1) entry_frame_upd(2)]) simp
  have inv': "sets_inv (?w\<lparr>w_kernel := k'\<rparr>)" if "wq_frame (w_kernel w) k'" for k'
    using that tr en(1) by (intro sets_inv_step [OF inv i _ en(2), where trig = ?trig]) (auto simp: upd_set_def upd_entry_def fun_eq_iff)
  have cv: "wq_magic (wait_queues (w_kernel w) (c_wait (ws_cv ?ws)))" "c_magic (ws_cv ?ws)"
    using wi i by (auto simp: wait_set_inv_def set_alive_def)
  from cond_broadcast_ok [OF k cv(2,1)] obtain k' where
    k': "cond_broadcast e (ws_cv ?ws) (w_kernel w) = Some k'" "kernel_ok base e k'" "wq_frame (w_kernel w) k'" by blast
  have up: "upd_entry i (\<lambda>en. en\<lparr>en_is_triggered := True\<rparr>) (upd_entry i (\<lambda>_. en) w) = upd_entry i (\<lambda>_. en\<lparr>en_is_triggered := True\<rparr>) w"
    by (simp add: upd_entry_def)
  show ?thesis
  proof (cases "ws_triggered_entries ?ws = []")
    case True
    then have "Trigger_NoLock e i (upd_entry i (\<lambda>_. en) w) = Some (ws_waiter_count ?ws \<noteq> 0, ?w\<lparr>w_kernel := k'\<rparr>)"
      using ws nt(1) k'(1) by (simp add: Trigger_NoLock_def Let_def up)
    moreover have "entry_frame w (?w\<lparr>w_kernel := k'\<rparr>)"
      using entry_frame_trans [OF fr entry_frame_upd(3)] k'(3) by simp
    ultimately show ?thesis using k' inv' [of k'] by (auto simp: fun_eq_iff)
  next
    case False
    then have "Trigger_NoLock e i (upd_entry i (\<lambda>_. en) w) = Some (False, ?w)"
      using ws nt(1) by (simp add: Trigger_NoLock_def Let_def up)
    moreover have eq: "?w\<lparr>w_kernel := w_kernel w\<rparr> = ?w" by (cases w) (simp add: upd_set_def upd_entry_def)
    have "sets_inv ?w" using inv' [OF wq_frame_refl] unfolding eq .
    ultimately show ?thesis using k fr by (auto simp: fun_eq_iff)
  qed
qed

lemma sets_inv_upd_entry:
  assumes inv: "sets_inv w" and i: "set_alive s w" "i \<in> set (ws_entries (w_sets w s))"
    and en: "en_cookie en = en_cookie (w_entries w i)" "entry_inv s en" "en_is_triggered en = en_is_triggered (w_entries w i)"
  shows "sets_inv (upd_entry i (\<lambda>_. en) w)"
proof -
  let ?trig = "ws_triggered_entries (w_sets w s)"
  have "wait_set_inv s w" using inv i by (simp add: sets_inv_def)
  then have "distinct ?trig" "i \<in> set ?trig \<longleftrightarrow> en_is_triggered en" "ws_num_triggered_entries (w_sets w s) = length ?trig"
    using i en(3) by (auto simp: wait_set_inv_def)
  then show ?thesis
    using en by (intro sets_inv_step [OF inv i, where en = en and trig = ?trig]) (auto simp: upd_entry_def)
qed

lemma Entry_OnInitialize_ok:
  assumes k: "kernel_ok base e (w_kernel w)" and inv: "sets_inv w" and i: "set_alive s w" "i \<in> set (ws_entries (w_sets w s))"
    and en: "en_state (w_entries w i) = ADD_PENDING" "en_handle (w_entries w i) \<noteq> None"
  shows "\<exists>b w'. Entry_OnInitialize e i st w = Some (b, w') \<and> kernel_ok base e (w_kernel w') \<and> sets_inv w' \<and>
    entry_attached i w' \<and> entry_informed i st w' \<and> (\<forall>j. j \<noteq> i \<longrightarrow> w_entries w' j = w_entries w j) \<and> entry_frame w w'"
proof -
  let ?en = "(w_entries w i)\<lparr>en_state := ADDED, en_signals_state := st\<rparr>"
  let ?w = "upd_entry i (\<lambda>_. ?en) w"
  have ei: "entry_inv s (w_entries w i)" using inv i by (simp add: sets_inv_def wait_set_inv_def)
  then have nt: "\<not> en_is_triggered (w_entries w i)" using en by (simp add: entry_inv_def)
  have up: "upd_entry i (\<lambda>en. en\<lparr>en_state := ADDED, en_signals_state := st\<rparr>) w = ?w" by (simp add: upd_entry_def)
  have at: "entry_attached i w'" if "w_entries w' i = ?en\<lparr>en_is_triggered := b\<rparr>" "entry_frame w w'" for w' b
    using that i en(2) by (auto simp: entry_attached_def entry_frame_def set_alive_def)
  show ?thesis
  proof (cases "entry_ready (en_watched_signals (w_entries w i)) st")
    case True
    with ei have "entry_inv s (?en\<lparr>en_is_triggered := True\<rparr>)" by (auto simp: entry_inv_def)
    from Trigger_ok [OF k inv i _ this] nt obtain b w' where
      w': "Trigger_NoLock e i ?w = Some (b, w')" "kernel_ok base e (w_kernel w')" "sets_inv w'"
        "w_entries w' = (w_entries w)(i := ?en\<lparr>en_is_triggered := True\<rparr>)" "entry_frame w w'" by auto
    have "entry_attached i w'" using w'(4,5) by (intro at [of _ True]) simp_all
    with w' True en show ?thesis by (auto simp: Entry_OnInitialize_def up entry_informed_def)
  next
    case False
    have "sets_inv ?w" using ei nt by (intro sets_inv_upd_entry [OF inv i]) (auto simp: entry_inv_def)
    moreover have "entry_attached i ?w" using nt by (intro at [of _ False]) simp_all
    moreover have "entry_informed i st ?w" using False nt by (simp add: entry_informed_def)
    ultimately show ?thesis using False en k by (auto simp: Entry_OnInitialize_def up)
  qed
qed

lemma Entry_OnStateChange_ok:
  assumes k: "kernel_ok base e (w_kernel w)" and inv: "sets_inv w" and at: "entry_attached i w"
  shows "\<exists>b w'. Entry_OnStateChange e i st w = Some (b, w') \<and> kernel_ok base e (w_kernel w') \<and> sets_inv w' \<and>
    entry_attached i w' \<and> entry_informed i st w' \<and> (\<forall>j. j \<noteq> i \<longrightarrow> w_entries w' j = w_entries w j) \<and> entry_frame w w'"
proof (cases "en_state (w_entries w i) = REMOVED")
  case True
  then show ?thesis
    using assms by (intro exI [of _ False] exI [of _ w]) (simp add: Entry_OnStateChange_def entry_informed_def entry_frame_def)
next
  case False
  let ?en = "(w_entries w i)\<lparr>en_signals_state := st\<rparr>" let ?w = "upd_entry i (\<lambda>_. ?en) w"
  from at False obtain s where en: "en_state (w_entries w i) = ADDED" "en_handle (w_entries w i) \<noteq> None"
    and i: "set_alive s w" "i \<in> set (ws_entries (w_sets w s))" by (auto simp: entry_attached_def)
  have wi: "wait_set_inv s w" and ei: "entry_inv s (w_entries w i)" using inv i by (auto simp: sets_inv_def wait_set_inv_def)
  have up: "upd_entry i (\<lambda>en. en\<lparr>en_signals_state := st\<rparr>) w = ?w" by (simp add: upd_entry_def)
  have at': "entry_attached i w'" if "w_entries w' i = ?en\<lparr>en_is_triggered := b\<rparr>" "entry_frame w w'" for w' b
    using that i en by (auto simp: entry_attached_def entry_frame_def set_alive_def)
  let ?r = "entry_ready (en_watched_signals (w_entries w i)) st" let ?t = "en_is_triggered (w_entries w i)"
  consider (on) "?r" "\<not> ?t" | (same) "?r = ?t" | (off) "\<not> ?r" "?t" by blast
  then show ?thesis
  proof cases
    case same
    have "sets_inv ?w" using ei same by (intro sets_inv_upd_entry [OF inv i]) (auto simp: entry_inv_def)
    moreover have "entry_attached i ?w" using i en by (auto simp: entry_attached_def set_alive_def)
    moreover have "entry_informed i st ?w" using same by (simp add: entry_informed_def)
    moreover have "Entry_OnStateChange e i st w = Some (False, ?w)" using same en by (simp add: Entry_OnStateChange_def up Let_def)
    ultimately show ?thesis using k by auto
  next
    case on
    with ei en have "entry_inv s (?en\<lparr>en_is_triggered := True\<rparr>)" by (auto simp: entry_inv_def)
    from Trigger_ok [OF k inv i _ this] on obtain b w' where
      w': "Trigger_NoLock e i ?w = Some (b, w')" "kernel_ok base e (w_kernel w')" "sets_inv w'"
        "w_entries w' = (w_entries w)(i := ?en\<lparr>en_is_triggered := True\<rparr>)" "entry_frame w w'" by auto
    have "entry_attached i w'" using w'(4,5) by (intro at' [of _ True]) simp_all
    with w' on en show ?thesis by (auto simp: Entry_OnStateChange_def up entry_informed_def)
  next
    case off
    let ?e2 = "?en\<lparr>en_is_triggered := False\<rparr>"
    let ?w2 = "upd_set s (\<lambda>ws. ws\<lparr>ws_triggered_entries := remove1 i (ws_triggered_entries ws),
       ws_num_triggered_entries := ws_num_triggered_entries ws - 1\<rparr>) (upd_entry i (\<lambda>_. ?e2) w)"
    have tr: "i \<in> set (ws_triggered_entries (w_sets w s))" "distinct (ws_triggered_entries (w_sets w s))"
      "ws_num_triggered_entries (w_sets w s) = length (ws_triggered_entries (w_sets w s))"
      using wi i off by (auto simp: wait_set_inv_def)
    then have "ws_triggered_entries (w_sets w s) \<noteq> []" by auto
    have up2: "upd_entry i (\<lambda>en. en\<lparr>en_is_triggered := False\<rparr>) ?w = upd_entry i (\<lambda>_. ?e2) w" by (simp add: upd_entry_def)
    have "Entry_OnStateChange e i st w = Some (False, ?w2)"
      using off en ei tr \<open>ws_triggered_entries (w_sets w s) \<noteq> []\<close>
      by (auto simp: Entry_OnStateChange_def up up2 entry_inv_def Let_def)
    moreover have "sets_inv ?w2"
      using tr ei by (intro sets_inv_step [OF inv i, where en = ?e2 and trig = "remove1 i (ws_triggered_entries (w_sets w s))"])
        (auto simp: entry_inv_def upd_set_def upd_entry_def length_remove1 set_remove1_eq)
    moreover have fr: "entry_frame w ?w2" by (rule entry_frame_trans [OF entry_frame_upd(1) entry_frame_upd(2)]) simp
    moreover have "entry_attached i ?w2" using fr by (intro at' [of _ False]) simp_all
    ultimately show ?thesis using off k by (auto simp: entry_informed_def)
  qed
qed

lemma Entry_OnCancel_ok:
  assumes k: "kernel_ok base e (w_kernel w)" and inv: "sets_inv w" and at: "entry_attached i w"
  shows "\<exists>b r w'. Entry_OnCancel e i h w = Some (b, r, False, w') \<and> kernel_ok base e (w_kernel w') \<and> sets_inv w' \<and>
    (\<not> r \<longrightarrow> w' = w) \<and> (r \<longrightarrow> en_is_triggered (w_entries w' i) \<and> en_handle (w_entries w' i) = None) \<and>
    (\<forall>j. j \<noteq> i \<longrightarrow> w_entries w' j = w_entries w j) \<and> entry_frame w w'"
proof (cases "en_state (w_entries w i) = REMOVED \<or> en_handle (w_entries w i) \<noteq> Some h")
  case True
  then show ?thesis
    using assms by (auto simp: Entry_OnCancel_def entry_frame_def entry_attached_def)
next
  case False
  let ?en = "(w_entries w i)\<lparr>en_handle := None, en_dispatcher := None\<rparr>" let ?w = "upd_entry i (\<lambda>_. ?en) w"
  from at False obtain s where en: "en_state (w_entries w i) = ADDED"
    and i: "set_alive s w" "i \<in> set (ws_entries (w_sets w s))" by (auto simp: entry_attached_def)
  have ei: "entry_inv s (w_entries w i)" using inv i by (auto simp: sets_inv_def wait_set_inv_def)
  have up: "upd_entry i (\<lambda>en. en\<lparr>en_handle := None, en_dispatcher := None\<rparr>) w = ?w" by (simp add: upd_entry_def)
  show ?thesis
  proof (cases "en_is_triggered (w_entries w i)")
    case True
    have "sets_inv ?w" using ei by (intro sets_inv_upd_entry [OF inv i]) (auto simp: entry_inv_def)
    moreover have "Entry_OnCancel e i h w = Some (False, True, False, ?w)"
      using True False en by (simp add: Entry_OnCancel_def up Let_def)
    ultimately show ?thesis using True k by auto
  next
    case nt: False
    with ei en have "entry_inv s (?en\<lparr>en_is_triggered := True\<rparr>)" by (auto simp: entry_inv_def)
    from Trigger_ok [OF k inv i _ this] nt obtain b w' where
      w': "Trigger_NoLock e i ?w = Some (b, w')" "kernel_ok base e (w_kernel w')" "sets_inv w'"
        "w_entries w' = (w_entries w)(i := ?en\<lparr>en_is_triggered := True\<rparr>)" "entry_frame w w'" by auto
    moreover have "Entry_OnCancel e i h w = Some (b, True, False, w')"
      using nt False en w'(1) by (simp add: Entry_OnCancel_def up Let_def)
    ultimately show ?thesis by auto
  qed
qed

end
