(* ===== verification/Io_Port.thy ===== *)
theory Io_Port
  imports Wait_Set
begin

unbundle bit_operations_syntax

text \<open>
  IO ports: \<^verbatim>\<open>kernel/lib/magenta/io_port_dispatcher.cpp\<close> and \<^verbatim>\<open>io_port_observer.cpp\<close>. A port is a queue of
  packets with an auto-reset event; an observer bound to a handle sends a packet for each change of the
  signals it watches. Packets are byte lists. Allocation may fail: the outcome is an argument. The
  bytes read from user memory are an argument too, None when the copy faults.
\<close>

section \<open>Data\<close>

datatype port_observer_state = PO_NEW | PO_CANCELLED | PO_UNBOUND

record port_observer =
  po_state :: port_observer_state
  po_handle :: "handle_ref option"
  po_watched_signals :: mx_signals
  po_key :: u64
  po_io_port :: nat

type_synonym iop_packet = "u8 list"

record io_port =
  ip_options :: u32
  ip_no_clients :: bool
  ip_observers :: "nat list"
  ip_packets :: "iop_packet list"
  ip_event :: event

record world = set_state +
  w_ports :: "nat \<Rightarrow> io_port"
  w_port_obs :: "nat \<Rightarrow> port_observer"

definition upd_port :: "nat \<Rightarrow> (io_port \<Rightarrow> io_port) \<Rightarrow> 'a world_scheme \<Rightarrow> 'a world_scheme" where
  "upd_port p f w = w\<lparr>w_ports := (w_ports w)(p := f (w_ports w p))\<rparr>"

definition upd_port_obs :: "nat \<Rightarrow> (port_observer \<Rightarrow> port_observer) \<Rightarrow> 'a world_scheme \<Rightarrow> 'a world_scheme" where
  "upd_port_obs i f w = w\<lparr>w_port_obs := (w_port_obs w)(i := f (w_port_obs w i))\<rparr>"

section \<open>Packets\<close>

definition MX_IO_PORT_PKT_TYPE_IOSN :: u32 where "MX_IO_PORT_PKT_TYPE_IOSN = 1"
definition MX_IO_PORT_PKT_TYPE_USER :: u32 where "MX_IO_PORT_PKT_TYPE_USER = 2"

text \<open>A machine word in memory, least significant byte first.\<close>

definition le_bytes :: "nat \<Rightarrow> 'a :: len word \<Rightarrow> u8 list" where
  "le_bytes n x = map (\<lambda>k. ucast (drop_bit (8 * k) x)) [0..<n]"

record mx_packet_header =
  ph_key :: u64
  ph_type :: u32
  ph_extra :: u32

record mx_io_packet =
  io_hdr :: mx_packet_header
  io_timestamp :: mx_time
  io_bytes :: mx_size
  io_signals :: mx_signals
  io_reserved :: u32

definition header_bytes :: "mx_packet_header \<Rightarrow> u8 list" where
  "header_bytes h = le_bytes 8 (ph_key h) @ le_bytes 4 (ph_type h) @ le_bytes 4 (ph_extra h)"

definition io_packet_bytes :: "mx_io_packet \<Rightarrow> u8 list" where
  "io_packet_bytes pk = header_bytes (io_hdr pk) @ le_bytes 8 (io_timestamp pk) @ le_bytes 8 (io_bytes pk) @
     le_bytes 4 (io_signals pk) @ le_bytes 4 (io_reserved pk)"

definition IOP_Packet_Make :: "bool \<Rightarrow> u8 list \<Rightarrow> iop_packet option" where
  "IOP_Packet_Make alloc_ok data = (if alloc_ok then Some data else None)"

text \<open>The type in the header of a user's packet is overwritten; the header is part of what was copied.\<close>

definition IOP_Packet_MakeFromUser :: "bool \<Rightarrow> u8 list option \<Rightarrow> iop_packet option" where
  "IOP_Packet_MakeFromUser alloc_ok data =
     (if \<not> alloc_ok then None
      else case data of
        None \<Rightarrow> None
      | Some bytes \<Rightarrow> Some (take 8 bytes @ le_bytes 4 MX_IO_PORT_PKT_TYPE_USER @ drop 12 bytes))"

text \<open>
  \<^verbatim>\<open>CopyToUser\<close> is declared to return \<^verbatim>\<open>bool\<close>: the error code \<^verbatim>\<open>ERR_NOT_ENOUGH_BUFFER\<close> it returns for a
  buffer that is too small converts to true. The result has the value, the size that is stored and the
  bytes that reach the user.
\<close>

definition IOP_Packet_CopyToUser :: "bool \<Rightarrow> nat \<Rightarrow> iop_packet \<Rightarrow> bool \<times> nat \<times> u8 list" where
  "IOP_Packet_CopyToUser copy_ok sz packet =
     (if sz < length packet then (status_value ERR_NOT_ENOUGH_BUFFER \<noteq> 0, sz, [])
      else if copy_ok then (True, length packet, packet) else (False, length packet, []))"

section \<open>The port\<close>

definition IOPortDispatcher :: "u32 \<Rightarrow> wq_ref \<Rightarrow> kstate \<Rightarrow> io_port \<times> kstate" where
  "IOPortDispatcher options q s = (let (ev, s) = event_init q False EVENT_FLAG_AUTOUNSIGNAL s
     in (\<lparr>ip_options = options, ip_no_clients = False, ip_observers = [], ip_packets = [], ip_event = ev\<rparr>, s))"

definition FreePackets_NoLock :: "io_port \<Rightarrow> io_port" where
  "FreePackets_NoLock port = port\<lparr>ip_packets := []\<rparr>"

definition IOPort_on_zero_handles :: "io_port \<Rightarrow> io_port" where
  "IOPort_on_zero_handles port = FreePackets_NoLock (port\<lparr>ip_no_clients := True\<rparr>)"

definition IOPort_Queue :: "cpu_env \<Rightarrow> nat \<Rightarrow> iop_packet \<Rightarrow> 'a world_scheme \<Rightarrow> (status \<times> 'a world_scheme) option" where
  "IOPort_Queue e p packet w =
     (if ip_no_clients (w_ports w p) then Some (ERR_NOT_AVAILABLE, w)
      else do {
        let w = upd_port p (\<lambda>port. port\<lparr>ip_packets := ip_packets port @ [packet]\<rparr>) w;
        (wake_count, ev, k) \<leftarrow> event_signal_etc e False NO_ERROR (ip_event (w_ports w p)) (w_kernel w);
        let w = upd_port p (\<lambda>port. port\<lparr>ip_event := ev\<rparr>) (w\<lparr>w_kernel := k\<rparr>);
        w \<leftarrow> (if wake_count \<noteq> 0 then map_option (\<lambda>k. w\<lparr>w_kernel := k\<rparr>) (thread_yield e (w_kernel w)) else Some w);
        Some (NO_ERROR, w)
      })"

text \<open>
  \<^verbatim>\<open>Wait\<close> up to the point where the thread has a packet, fails or blocks on the event. The loop goes
  round without blocking when the event was left signalled by packets that are gone.
\<close>

partial_function (option) IOPort_Wait_enter ::
  "cpu_env \<Rightarrow> nat \<Rightarrow> 'a world_scheme \<Rightarrow> ((status \<times> iop_packet option) outcome \<times> 'a world_scheme) option" where
  "IOPort_Wait_enter e p w =
     (case ip_packets (w_ports w p) of
        packet # rest \<Rightarrow> Some (Returned (NO_ERROR, Some packet), upd_port p (\<lambda>port. port\<lparr>ip_packets := rest\<rparr>) w)
      | [] \<Rightarrow>
          Option.bind (event_wait_enter e INFINITE_TIME True (ip_event (w_ports w p)) (w_kernel w)) (\<lambda>(r, ev, k).
            let w = upd_port p (\<lambda>port. port\<lparr>ip_event := ev\<rparr>) (w\<lparr>w_kernel := k\<rparr>) in
            case r of
              Switched \<Rightarrow> Some (Switched, w)
            | Returned st \<Rightarrow> if st \<noteq> NO_ERROR then Some (Returned (st, None), w) else IOPort_Wait_enter e p w))"

definition IOPort_Wait_return ::
  "cpu_env \<Rightarrow> nat \<Rightarrow> 'a world_scheme \<Rightarrow> ((status \<times> iop_packet option) outcome \<times> 'a world_scheme) option" where
  "IOPort_Wait_return e p w =
     (let (st, k) = event_wait_return e INFINITE_TIME (w_kernel w); w = w\<lparr>w_kernel := k\<rparr>
      in if st \<noteq> NO_ERROR then Some (Returned (st, None), w) else IOPort_Wait_enter e p w)"

section \<open>Observers of the port\<close>

definition IOPortObserver :: "nat \<Rightarrow> handle_ref \<Rightarrow> mx_signals \<Rightarrow> u64 \<Rightarrow> port_observer" where
  "IOPortObserver p handle watched_signals key =
     \<lparr>po_state = PO_NEW, po_handle = Some handle, po_watched_signals = watched_signals, po_key = key, po_io_port = p\<rparr>"

definition SendIOPortPacket ::
  "cpu_env \<Rightarrow> bool \<Rightarrow> nat \<Rightarrow> u64 \<Rightarrow> mx_signals \<Rightarrow> 'a world_scheme \<Rightarrow> (bool \<times> 'a world_scheme) option" where
  "SendIOPortPacket e alloc_ok p key signals w =
     (let payload = \<lparr>io_hdr = \<lparr>ph_key = key, ph_type = MX_IO_PORT_PKT_TYPE_IOSN, ph_extra = 0\<rparr>,
                     io_timestamp = e_now_hires e, io_bytes = 0, io_signals = signals, io_reserved = 0\<rparr>
      in case IOP_Packet_Make alloc_ok (io_packet_bytes payload) of
           None \<Rightarrow> Some (False, w)
         | Some packet \<Rightarrow> map_option (\<lambda>(st, w). (st = NO_ERROR, w)) (IOPort_Queue e p packet w))"

definition IOPortObserver_MaybeSignal ::
  "cpu_env \<Rightarrow> bool \<Rightarrow> nat \<Rightarrow> signals_state \<Rightarrow> 'a world_scheme \<Rightarrow> (bool \<times> 'a world_scheme) option" where
  "IOPortObserver_MaybeSignal e alloc_ok i st w =
     (let ob = w_port_obs w i; match = satisfied st AND po_watched_signals ob
      in if match \<noteq> 0 then SendIOPortPacket e alloc_ok (po_io_port ob) (po_key ob) match w else Some (False, w))"

definition IOPortObserver_OnStateChange ::
  "cpu_env \<Rightarrow> bool \<Rightarrow> nat \<Rightarrow> signals_state \<Rightarrow> 'a world_scheme \<Rightarrow> (bool \<times> 'a world_scheme) option" where
  "IOPortObserver_OnStateChange e alloc_ok i st w = IOPortObserver_MaybeSignal e alloc_ok i st w"

definition IOPortObserver_OnCancel ::
  "nat \<Rightarrow> handle_ref \<Rightarrow> 'a world_scheme \<Rightarrow> bool \<times> bool \<times> bool \<times> 'a world_scheme" where
  "IOPortObserver_OnCancel i handle w =
     (if po_handle (w_port_obs w i) \<noteq> Some handle then (False, False, False, w)
      else let w = upd_port_obs i (\<lambda>ob. ob\<lparr>po_handle := None\<rparr>) w
        in if po_state (w_port_obs w i) \<noteq> PO_NEW then (False, False, False, w)
           else (False, True, True, upd_port_obs i (\<lambda>ob. ob\<lparr>po_state := PO_CANCELLED\<rparr>) w))"

definition CancelObserver :: "nat \<Rightarrow> nat \<Rightarrow> 'a world_scheme \<Rightarrow> 'a world_scheme" where
  "CancelObserver p i w = upd_port p (\<lambda>port. port\<lparr>ip_observers := remove1 i (ip_observers port)\<rparr>) w"

definition IOPortObserver_OnDidCancel :: "nat \<Rightarrow> 'a world_scheme \<Rightarrow> 'a world_scheme" where
  "IOPortObserver_OnDidCancel i w = CancelObserver (po_io_port (w_port_obs w i)) i w"

text \<open>\<^verbatim>\<open>Bind\<close>: the observer is allocated at address \<open>i\<close>.\<close>

definition IOPort_Bind ::
  "(observer, 'a world_scheme) observer_ops \<Rightarrow> bool \<Rightarrow> nat \<Rightarrow> nat \<Rightarrow> handle_ref \<Rightarrow> mx_signals \<Rightarrow> u64 \<Rightarrow>
   observer state_tracker option \<Rightarrow> 'a world_scheme \<Rightarrow> (status \<times> observer state_tracker option \<times> 'a world_scheme) option" where
  "IOPort_Bind ops alloc_ok p i handle signals key tracker w =
     (case tracker of
        None \<Rightarrow> Some (ERR_NOT_SUPPORTED, tracker, w)
      | Some tr \<Rightarrow>
          if \<not> st_is_waitable tr then Some (ERR_NOT_SUPPORTED, tracker, w)
          else if \<not> alloc_ok then Some (ERR_NO_MEMORY, tracker, w)
          else do {
            let w = upd_port_obs i (\<lambda>_. IOPortObserver p handle signals key) w;
            let w = upd_port p (\<lambda>port. port\<lparr>ip_observers := i # ip_observers port\<rparr>) w;
            (result, tr, w) \<leftarrow> AddObserver ops (Port_Obs i) tr w;
            if result \<noteq> NO_ERROR then Some (result, Some tr, CancelObserver p i w)
            else Some (NO_ERROR, Some tr, w)
          })"

text \<open>
  \<^verbatim>\<open>Unbind\<close>: the section under the lock, which returns the observer to detach; the rest of the call detaches it
  from the tracker of the handle's dispatcher.
\<close>

definition IOPort_Unbind_locked ::
  "nat \<Rightarrow> handle_ref \<Rightarrow> u64 \<Rightarrow> 'a world_scheme \<Rightarrow> status \<times> nat option \<times> 'a world_scheme" where
  "IOPort_Unbind_locked p handle key w =
     (case find (\<lambda>i. po_handle (w_port_obs w i) = Some handle \<and> po_key (w_port_obs w i) = key) (ip_observers (w_ports w p)) of
        None \<Rightarrow> (ERR_BAD_HANDLE, None, w)
      | Some i \<Rightarrow>
          let old = po_state (w_port_obs w i);
              w = upd_port_obs i (\<lambda>ob. ob\<lparr>po_state := PO_UNBOUND\<rparr>) w
          in if old \<noteq> PO_NEW then (NO_ERROR, None, w)
             else (NO_ERROR, Some i, upd_port p (\<lambda>port. port\<lparr>ip_observers := remove1 i (ip_observers port)\<rparr>) w))"

definition IOPort_Unbind ::
  "nat \<Rightarrow> handle_ref \<Rightarrow> u64 \<Rightarrow> observer state_tracker \<Rightarrow> 'a world_scheme \<Rightarrow> status \<times> observer state_tracker \<times> 'a world_scheme" where
  "IOPort_Unbind p handle key tr w =
     (let (st, ob, w) = IOPort_Unbind_locked p handle key w
      in case ob of None \<Rightarrow> (st, tr, w) | Some i \<Rightarrow> (st, snd (RemoveObserver (Port_Obs i) tr), w))"

section \<open>The invariant of ports\<close>

definition port_ok :: "io_port \<Rightarrow> kstate \<Rightarrow> bool" where
  "port_ok port k \<longleftrightarrow> event_ok (ip_event port) k \<and> bit (ev_flags (ip_event port)) 0"

definition ports_inv :: "'a world_scheme \<Rightarrow> bool" where
  "ports_inv w \<longleftrightarrow> (\<forall>p. ev_magic (ip_event (w_ports w p)) \<longrightarrow> port_ok (w_ports w p) (w_kernel w))"

lemma upd_port_sel [simp]:
  "w_ports (upd_port p f w) q = (if q = p then f (w_ports w p) else w_ports w q)" "w_port_obs (upd_port p f w) = w_port_obs w"
  "w_kernel (upd_port p f w) = w_kernel w" "w_events (upd_port p f w) = w_events w" "w_observers (upd_port p f w) = w_observers w"
  "w_sets (upd_port p f w) = w_sets w" "w_entries (upd_port p f w) = w_entries w"
  by (simp_all add: upd_port_def)

lemma upd_port_obs_sel [simp]:
  "w_port_obs (upd_port_obs i g w) j = (if j = i then g (w_port_obs w i) else w_port_obs w j)"
  "w_ports (upd_port_obs i g w) = w_ports w"
  "w_kernel (upd_port_obs i g w) = w_kernel w" "w_events (upd_port_obs i g w) = w_events w" "w_observers (upd_port_obs i g w) = w_observers w"
  "w_sets (upd_port_obs i g w) = w_sets w" "w_entries (upd_port_obs i g w) = w_entries w"
  by (simp_all add: upd_port_obs_def)

lemma port_ok_frame: "wq_frame k k' \<Longrightarrow> port_ok port k' = port_ok port k"
  by (simp add: port_ok_def event_ok_frame)

text \<open>
  Queueing a packet on a port with clients appends it, and wakes the first waiter or leaves the event
  signalled.
\<close>

lemma IOPort_Queue_ok:
  assumes k: "kernel_ok base e (w_kernel w)" and p: "port_ok (w_ports w p) (w_kernel w)"
  shows "\<exists>w'. IOPort_Queue e p packet w = Some (if ip_no_clients (w_ports w p) then ERR_NOT_AVAILABLE else NO_ERROR, w') \<and>
    kernel_ok base e (w_kernel w') \<and> wq_frame (w_kernel w) (w_kernel w') \<and> port_ok (w_ports w' p) (w_kernel w') \<and>
    (\<exists>ev. w_ports w' = (w_ports w)(p := (w_ports w p)\<lparr>ip_packets := ip_packets (w_ports w p) @
        (if ip_no_clients (w_ports w p) then [] else [packet]), ip_event := ev\<rparr>)) \<and>
    w_events w' = w_events w \<and> w_observers w' = w_observers w \<and> w_sets w' = w_sets w \<and> w_entries w' = w_entries w \<and>
    w_port_obs w' = w_port_obs w \<and> world.more w' = world.more w"
proof (cases "ip_no_clients (w_ports w p)")
  case True
  have "w_ports w = (w_ports w)(p := (w_ports w p)\<lparr>ip_event := ip_event (w_ports w p)\<rparr>)" by simp
  then have "\<exists>ev. w_ports w = (w_ports w)(p := (w_ports w p)\<lparr>ip_event := ev\<rparr>)" by (rule exI)
  with True show ?thesis using k p by (simp add: IOPort_Queue_def)
next
  case False
  let ?port = "(w_ports w p)\<lparr>ip_packets := ip_packets (w_ports w p) @ [packet]\<rparr>"
  from event_signal_ok [OF k, of "ip_event (w_ports w p)" NO_ERROR] p obtain n ev' k1 where
    k1: "event_signal_etc e False NO_ERROR (ip_event (w_ports w p)) (w_kernel w) = Some (n, ev', k1)"
      "kernel_ok base e k1" "wq_frame (w_kernel w) k1" "event_ok ev' k1" "ev_flags ev' = ev_flags (ip_event (w_ports w p))"
    by (auto simp: port_ok_def)
  from thread_yield_ok [OF k1(2)] obtain k2 where
    k2: "thread_yield e k1 = Some k2" "kernel_ok base e k2" "wq_frame k1 k2" by blast
  let ?k = "if n \<noteq> 0 then k2 else k1"
  let ?w = "upd_port p (\<lambda>port. port\<lparr>ip_packets := ip_packets port @ [packet], ip_event := ev'\<rparr>) w\<lparr>w_kernel := ?k\<rparr>"
  have "IOPort_Queue e p packet w = Some (NO_ERROR, ?w)"
    using False k1(1) k2(1) by (cases w) (simp add: IOPort_Queue_def Let_def upd_port_def)
  moreover have "kernel_ok base e ?k" "wq_frame (w_kernel w) ?k" "port_ok (?port\<lparr>ip_event := ev'\<rparr>) ?k"
    using k1 k2 p wq_frame_trans [OF k1(3) k2(3)] by (auto simp: port_ok_def event_ok_frame)
  ultimately show ?thesis using False by (auto simp: upd_port_def port_ok_def)
qed

end
