(* ===== verification/Observers.thy ===== *)
theory Observers
  imports Io_Port
begin

unbundle bit_operations_syntax

text \<open>
  The virtual calls of the state tracker, dispatched to the four classes of observers, and the proof that
  they honour the tracker's contract. The properties at the end say what this gives the threads that
  wait: a thread that waits on a handle, a wait set or an IO port is told of every change it watches.
\<close>

section \<open>Dispatch\<close>

definition world_yield :: "cpu_env \<Rightarrow> 'a world_scheme \<Rightarrow> 'a world_scheme option" where
  "world_yield e w = map_option (\<lambda>k. w\<lparr>w_kernel := k\<rparr>) (thread_yield e (w_kernel w))"

fun world_OnInitialize :: "cpu_env \<Rightarrow> observer \<Rightarrow> signals_state \<Rightarrow> 'a world_scheme \<Rightarrow> (bool \<times> 'a world_scheme) option" where
  "world_OnInitialize e (Wait_Obs i) st w = WaitStateObserver_OnInitialize e i st w"
| "world_OnInitialize e (Set_Entry i) st w = Entry_OnInitialize e i st w"
| "world_OnInitialize e (Set_Self s) st w = Some (False, w)"
| "world_OnInitialize e (Port_Obs i) st w = Some (False, w)"

fun world_OnStateChange ::
  "cpu_env \<Rightarrow> bool \<Rightarrow> observer \<Rightarrow> signals_state \<Rightarrow> 'a world_scheme \<Rightarrow> (bool \<times> 'a world_scheme) option" where
  "world_OnStateChange e alloc_ok (Wait_Obs i) st w = WaitStateObserver_OnStateChange e i st w"
| "world_OnStateChange e alloc_ok (Set_Entry i) st w = Entry_OnStateChange e i st w"
| "world_OnStateChange e alloc_ok (Set_Self s) st w = Some (False, w)"
| "world_OnStateChange e alloc_ok (Port_Obs i) st w = IOPortObserver_OnStateChange e alloc_ok i st w"

fun world_OnCancel ::
  "cpu_env \<Rightarrow> observer \<Rightarrow> handle_ref \<Rightarrow> 'a world_scheme \<Rightarrow> (bool \<times> bool \<times> bool \<times> 'a world_scheme) option" where
  "world_OnCancel e (Wait_Obs i) h w = WaitStateObserver_OnCancel e i h w"
| "world_OnCancel e (Set_Entry i) h w = Entry_OnCancel e i h w"
| "world_OnCancel e (Set_Self s) h w = WaitSet_OnCancel e s h w"
| "world_OnCancel e (Port_Obs i) h w = Some (IOPortObserver_OnCancel i h w)"

fun world_OnDidCancel :: "observer \<Rightarrow> 'a world_scheme \<Rightarrow> 'a world_scheme" where
  "world_OnDidCancel (Port_Obs i) w = IOPortObserver_OnDidCancel i w"
| "world_OnDidCancel _ w = w"

definition world_ops :: "cpu_env \<Rightarrow> bool \<Rightarrow> (observer, 'a world_scheme) observer_ops" where
  "world_ops e alloc_ok = \<lparr>OnInitialize = world_OnInitialize e, OnStateChange = world_OnStateChange e alloc_ok,
     OnCancel = world_OnCancel e, OnDidCancel = (\<lambda>ob w. Some (world_OnDidCancel ob w)), Thread_Yield = world_yield e\<rparr>"

section \<open>The contract\<close>

definition world_inv :: "lk_time \<Rightarrow> cpu_env \<Rightarrow> 'a world_scheme \<Rightarrow> bool" where
  "world_inv base e w \<longleftrightarrow> kernel_ok base e (w_kernel w) \<and> wait_events_inv w \<and> sets_inv w \<and> ports_inv w"

definition wait_attached :: "nat \<Rightarrow> 'a world_scheme \<Rightarrow> bool" where
  "wait_attached i w \<longleftrightarrow> wo_dispatcher (w_observers w i) \<noteq> None \<and> ev_magic (we_event (w_events w (wo_event (w_observers w i))))"

definition wait_informed :: "nat \<Rightarrow> signals_state \<Rightarrow> 'a world_scheme \<Rightarrow> bool" where
  "wait_informed i st w \<longleftrightarrow>
     (satisfied st AND wo_watched_signals (w_observers w i) \<noteq> 0 \<or> satisfiable st AND wo_watched_signals (w_observers w i) = 0
      \<longrightarrow> we_signaled (w_events w (wo_event (w_observers w i))))"

fun obs_fresh :: "observer \<Rightarrow> 'a world_scheme \<Rightarrow> bool" where
  "obs_fresh (Wait_Obs i) w = wait_attached i w"
| "obs_fresh (Set_Entry i) w = (en_state (w_entries w i) = ADD_PENDING \<and> en_handle (w_entries w i) \<noteq> None \<and>
     (\<exists>s. set_alive s w \<and> i \<in> set (ws_entries (w_sets w s))))"
| "obs_fresh (Set_Self s) w = set_alive s w"
| "obs_fresh (Port_Obs i) w = ev_magic (ip_event (w_ports w (po_io_port (w_port_obs w i))))"

fun obs_attached :: "observer \<Rightarrow> 'a world_scheme \<Rightarrow> bool" where
  "obs_attached (Wait_Obs i) w = wait_attached i w"
| "obs_attached (Set_Entry i) w = entry_attached i w"
| "obs_attached (Set_Self s) w = set_alive s w"
| "obs_attached (Port_Obs i) w = ev_magic (ip_event (w_ports w (po_io_port (w_port_obs w i))))"

fun obs_informed :: "observer \<Rightarrow> signals_state \<Rightarrow> 'a world_scheme \<Rightarrow> bool" where
  "obs_informed (Wait_Obs i) st w = wait_informed i st w"
| "obs_informed (Set_Entry i) st w = entry_informed i st w"
| "obs_informed _ st w = True"

abbreviation obs_keeps :: "observer \<Rightarrow> 'a world_scheme \<Rightarrow> 'a world_scheme \<Rightarrow> bool" where
  "obs_keeps \<equiv> keeps_observer obs_attached obs_informed"

text \<open>What a step keeps of the parts of the world it does not touch.\<close>

lemma sets_inv_frame:
  assumes "sets_inv w" "w_sets w' = w_sets w" "w_entries w' = w_entries w" "wq_frame (w_kernel w) (w_kernel w')"
  shows "sets_inv w'"
  using assms by (simp add: sets_inv_def wait_set_inv_def set_alive_def wq_frame_def)

lemma ports_inv_frame:
  assumes "ports_inv w" "w_ports w' = w_ports w" "wq_frame (w_kernel w) (w_kernel w')"
  shows "ports_inv w'"
  using assms by (simp add: ports_inv_def port_ok_frame)

lemma wait_events_inv_frame:
  assumes "wait_events_inv w" "w_events w' = w_events w" "wq_frame (w_kernel w) (w_kernel w')"
  shows "wait_events_inv w'"
  using assms by (simp add: wait_events_inv_def wait_event_inv_frame)

lemma wait_keeps:
  assumes "w_observers w' = w_observers w"
    and "\<And>k. ev_magic (we_event (w_events w k)) \<Longrightarrow> ev_magic (we_event (w_events w' k)) \<and> (we_signaled (w_events w k) \<longrightarrow> we_signaled (w_events w' k))"
  shows "obs_keeps (Wait_Obs i) w w'"
  using assms by (simp add: keeps_observer_def wait_attached_def wait_informed_def)

lemma entry_keeps:
  assumes "entry_frame w w'" "w_entries w' i = w_entries w i"
  shows "obs_keeps (Set_Entry i) w w'"
  using assms entry_attached_frame [OF assms] by (simp add: keeps_observer_def entry_informed_def)

lemma wait_obs_signal:
  assumes inv: "world_inv base e w" and at: "ev_magic (we_event (w_events w j))" and r: "HaveContextForResult r"
  shows "\<exists>b w'. signal_wait_event e j r c w = Some (b, w') \<and> world_inv base e w' \<and> w_observers w' = w_observers w \<and>
    we_signaled (w_events w' j) \<and> (\<forall>p. obs_keeps p w w')"
proof -
  have k: "kernel_ok base e (w_kernel w)" and we: "wait_event_inv (w_events w j) (w_kernel w)"
    using inv by (auto simp: world_inv_def wait_events_inv_def)
  from WaitEvent_Signal_ok [OF k we at r, of c] obtain b we' k' where
    s: "WaitEvent_Signal e r c (w_events w j) (w_kernel w) = Some (b, we', k')" "kernel_ok base e k'" "wq_frame (w_kernel w) k'"
      "wait_event_inv we' k'" "ev_magic (we_event we')" "we_signaled we'" by blast
  let ?w = "w\<lparr>w_kernel := k', w_events := (w_events w)(j := we')\<rparr>"
  have "wait_events_inv ?w"
    using inv s(4) by (auto simp: world_inv_def wait_events_inv_def wait_event_inv_frame [OF s(3)])
  moreover have "sets_inv ?w" "ports_inv ?w"
    using inv sets_inv_frame [of w ?w] ports_inv_frame [of w ?w] s(3) by (simp_all add: world_inv_def)
  moreover have "obs_keeps p w ?w" for p
  proof (cases p)
    case (Wait_Obs i)
    then show ?thesis using s(5,6) wait_keeps [of ?w w i] by simp
  qed (simp_all add: keeps_observer_def entry_attached_def entry_informed_def set_alive_def)
  ultimately show ?thesis
    using s(1,2,6) by (auto simp: signal_wait_event_def world_inv_def)
qed

lemma MaybeSignal_ok:
  assumes inv: "world_inv base e w" and at: "wait_attached i w"
  shows "\<exists>b w'. WaitStateObserver_MaybeSignal e i st w = Some (b, w') \<and> world_inv base e w' \<and>
    wait_attached i w' \<and> wait_informed i st w' \<and> (\<forall>p. obs_keeps p w w')"
proof -
  let ?ob = "w_observers w i"
  have at': "wo_dispatcher ?ob \<noteq> None" "ev_magic (we_event (w_events w (wo_event ?ob)))" using at by (auto simp: wait_attached_def)
  have keep: "wait_attached i w'" if "obs_keeps (Wait_Obs i) w w'" for w'
    using at that by (simp add: keeps_observer_def)
  consider (sat) "satisfied st AND wo_watched_signals ?ob \<noteq> 0"
    | (unsat) "satisfied st AND wo_watched_signals ?ob = 0" "satisfiable st AND wo_watched_signals ?ob = 0"
    | (none) "satisfied st AND wo_watched_signals ?ob = 0" "satisfiable st AND wo_watched_signals ?ob \<noteq> 0" by blast
  then show ?thesis
  proof cases
    case sat
    from wait_obs_signal [OF inv at'(2), of WE_SATISFIED "wo_context ?ob"] obtain b w' where
      w': "signal_wait_event e (wo_event ?ob) WE_SATISFIED (wo_context ?ob) w = Some (b, w')" "world_inv base e w'"
        "w_observers w' = w_observers w" "we_signaled (w_events w' (wo_event ?ob))" "\<forall>p. obs_keeps p w w'" by auto
    then show ?thesis using sat at' keep by (auto simp: WaitStateObserver_MaybeSignal_def wait_informed_def)
  next
    case unsat
    from wait_obs_signal [OF inv at'(2), of WE_UNSATISFIABLE "wo_context ?ob"] obtain b w' where
      w': "signal_wait_event e (wo_event ?ob) WE_UNSATISFIABLE (wo_context ?ob) w = Some (b, w')" "world_inv base e w'"
        "w_observers w' = w_observers w" "we_signaled (w_events w' (wo_event ?ob))" "\<forall>p. obs_keeps p w w'" by auto
    then show ?thesis using unsat at' keep by (auto simp: WaitStateObserver_MaybeSignal_def wait_informed_def)
  next
    case none
    then show ?thesis using inv at at' by (auto simp: WaitStateObserver_MaybeSignal_def wait_informed_def)
  qed
qed

lemma wait_cancel_ok:
  assumes inv: "world_inv base e w" and at: "wait_attached i w"
  shows "\<exists>b w'. WaitStateObserver_OnCancel e i h w = Some (b, False, False, w') \<and> world_inv base e w' \<and> (\<forall>p. obs_keeps p w w')"
proof (cases "h = wo_handle (w_observers w i)")
  case True
  have at': "wo_dispatcher (w_observers w i) \<noteq> None" "ev_magic (we_event (w_events w (wo_event (w_observers w i))))"
    using at by (auto simp: wait_attached_def)
  from wait_obs_signal [OF inv at'(2), of WE_CANCELLED "wo_context (w_observers w i)"] at'(1) True show ?thesis
    by (auto simp: WaitStateObserver_OnCancel_def)
next
  case False
  then show ?thesis using inv at by (auto simp: WaitStateObserver_OnCancel_def wait_attached_def)
qed

lemma entry_frame_world:
  assumes "entry_frame w w'"
  shows "w_ports w' = w_ports w" "w_port_obs w' = w_port_obs w"
  using assms by (cases w; cases w'; simp add: entry_frame_def)+

lemma entry_step_world:
  assumes inv: "world_inv base e w" and fr: "entry_frame w w'" and k: "kernel_ok base e (w_kernel w')" and s: "sets_inv w'"
    and o: "\<forall>j. j \<noteq> i \<longrightarrow> w_entries w' j = w_entries w j"
  shows "world_inv base e w'" "\<And>p. p \<noteq> Set_Entry i \<Longrightarrow> obs_keeps p w w'"
proof -
  have f: "w_events w' = w_events w" "w_observers w' = w_observers w" "wq_frame (w_kernel w) (w_kernel w')"
    "\<And>t. ws_cv (w_sets w' t) = ws_cv (w_sets w t)"
    using fr by (auto simp: entry_frame_def)
  note g = entry_frame_world [OF fr]
  show "world_inv base e w'"
    using inv k s wait_events_inv_frame [of w w'] ports_inv_frame [of w w'] f g by (simp add: world_inv_def)
  fix p assume p: "p \<noteq> Set_Entry i"
  show "obs_keeps p w w'"
  proof (cases p)
    case (Set_Entry j)
    then show ?thesis using p o entry_keeps [OF fr, of j] by simp
  qed (use f g in \<open>simp_all add: keeps_observer_def wait_attached_def wait_informed_def set_alive_def\<close>)
qed

lemma set_self_cancel_ok:
  assumes inv: "world_inv base e w" and at: "set_alive s w"
  shows "\<exists>b w'. WaitSet_OnCancel e s h w = Some (b, False, False, w') \<and> world_inv base e w' \<and> (\<forall>p. obs_keeps p w w') \<and>
    ws_cancelled (w_sets w' s)"
proof -
  have k: "kernel_ok base e (w_kernel w)" and si: "sets_inv w" using inv by (auto simp: world_inv_def)
  have wi: "wait_set_inv s w" using si at by (simp add: sets_inv_def)
  from cond_broadcast_ok [OF k, of "ws_cv (w_sets w s)"] wi at obtain k' where
    k': "cond_broadcast e (ws_cv (w_sets w s)) (w_kernel w) = Some k'" "kernel_ok base e k'" "wq_frame (w_kernel w) k'"
    by (auto simp: wait_set_inv_def set_alive_def)
  let ?w = "(upd_set s (\<lambda>ws. ws\<lparr>ws_cancelled := True\<rparr>) w)\<lparr>w_kernel := k'\<rparr>"
  have "sets_inv ?w" using si k'(3) by (auto simp: sets_inv_def wait_set_inv_def set_alive_def wq_frame_def)
  moreover have fr: "entry_frame w ?w"
    using k'(3) by (intro entry_frame_trans [OF entry_frame_upd(2) entry_frame_upd(3)]) auto
  ultimately have w: "world_inv base e ?w" "p \<noteq> Set_Entry i \<Longrightarrow> obs_keeps p w ?w" for p i
    using entry_step_world [OF inv fr] k'(2) by simp_all
  have "obs_keeps p w ?w" for p
    using w(2) [of p 0] w(2) [of p 1] by (cases "p = Set_Entry 0") auto
  with w(1) k'(1) show ?thesis by (auto simp: WaitSet_OnCancel_def)
qed

lemma port_change_ok:
  assumes inv: "world_inv base e w" and at: "ev_magic (ip_event (w_ports w (po_io_port (w_port_obs w i))))"
  shows "\<exists>b w'. IOPortObserver_OnStateChange e alloc_ok i st w = Some (b, w') \<and> world_inv base e w' \<and> (\<forall>p. obs_keeps p w w')"
proof -
  let ?ob = "w_port_obs w i" let ?p = "po_io_port ?ob"
  show ?thesis
  proof (cases "satisfied st AND po_watched_signals ?ob \<noteq> 0 \<and> alloc_ok")
    case True
    have k: "kernel_ok base e (w_kernel w)" and p: "port_ok (w_ports w ?p) (w_kernel w)"
      using inv at by (auto simp: world_inv_def ports_inv_def)
    obtain packet where s: "SendIOPortPacket e alloc_ok ?p (po_key ?ob) (satisfied st AND po_watched_signals ?ob) w =
        map_option (\<lambda>(st, w). (st = NO_ERROR, w)) (IOPort_Queue e ?p packet w)"
      using True by (simp add: SendIOPortPacket_def IOP_Packet_Make_def Let_def)
    from IOPort_Queue_ok [OF k p, of packet] obtain st' w' ev' pks where
      w': "IOPort_Queue e ?p packet w = Some (st', w')" "kernel_ok base e (w_kernel w')" "wq_frame (w_kernel w) (w_kernel w')"
        "port_ok (w_ports w' ?p) (w_kernel w')" "w_ports w' = (w_ports w)(?p := (w_ports w ?p)\<lparr>ip_packets := pks, ip_event := ev'\<rparr>)"
        "w_events w' = w_events w" "w_observers w' = w_observers w" "w_sets w' = w_sets w" "w_entries w' = w_entries w"
        "w_port_obs w' = w_port_obs w" by blast
    have "ports_inv w'"
      using inv w'(3-5) by (auto simp: world_inv_def ports_inv_def port_ok_frame)
    then have "world_inv base e w'"
      using inv w' sets_inv_frame [of w w'] wait_events_inv_frame [of w w'] by (simp add: world_inv_def)
    moreover have "obs_keeps p w w'" for p
      using w' by (cases p) (auto simp: keeps_observer_def wait_attached_def wait_informed_def entry_attached_def
          entry_informed_def set_alive_def port_ok_def event_ok_def)
    ultimately show ?thesis
      using True s w'(1) by (auto simp: IOPortObserver_OnStateChange_def IOPortObserver_MaybeSignal_def Let_def)
  next
    case False
    then show ?thesis
      using inv by (auto simp: IOPortObserver_OnStateChange_def IOPortObserver_MaybeSignal_def SendIOPortPacket_def IOP_Packet_Make_def Let_def)
  qed
qed

lemma port_obs_quiet:
  assumes "world_inv base e w" "w_kernel w' = w_kernel w" "w_events w' = w_events w" "w_observers w' = w_observers w"
    "w_sets w' = w_sets w" "w_entries w' = w_entries w" "\<And>p. ip_event (w_ports w' p) = ip_event (w_ports w p)"
    "\<And>i. po_io_port (w_port_obs w' i) = po_io_port (w_port_obs w i)"
  shows "world_inv base e w'" "obs_keeps p w w'"
  using assms sets_inv_frame [of w w'] wait_events_inv_frame [of w w']
   apply (simp add: world_inv_def ports_inv_def port_ok_def)
  using assms by (cases p) (auto simp: keeps_observer_def wait_attached_def wait_informed_def entry_attached_def
          entry_informed_def set_alive_def)

lemma world_yield_ok:
  assumes inv: "world_inv base e w"
  shows "\<exists>w'. world_yield e w = Some w' \<and> world_inv base e w' \<and> (\<forall>p. obs_keeps p w w')"
proof -
  have "kernel_ok base e (w_kernel w)" using inv by (simp add: world_inv_def)
  from thread_yield_ok [OF this] obtain k' where
    k': "thread_yield e (w_kernel w) = Some k'" "kernel_ok base e k'" "wq_frame (w_kernel w) k'" by blast
  let ?w = "w\<lparr>w_kernel := k'\<rparr>"
  have "world_inv base e ?w"
    using inv k' sets_inv_frame [of w ?w] wait_events_inv_frame [of w ?w] ports_inv_frame [of w ?w] by (simp add: world_inv_def)
  moreover have "obs_keeps p w ?w" for p
    by (cases p) (auto simp: keeps_observer_def wait_attached_def wait_informed_def entry_attached_def entry_informed_def set_alive_def)
  ultimately show ?thesis using k'(1) by (auto simp: world_yield_def)
qed

interpretation obs: state_observer "world_ops e alloc_ok" "world_inv base e" obs_fresh obs_attached obs_informed
  for e alloc_ok base
proof
  fix w :: "'a world_scheme" and ob st h
  assume inv: "world_inv base e w"
  then have k: "kernel_ok base e (w_kernel w)" and si: "sets_inv w" by (auto simp: world_inv_def)
  show "\<exists>a w'. OnInitialize (world_ops e alloc_ok) ob st w = Some (a, w') \<and> world_inv base e w' \<and> obs_attached ob w' \<and>
      obs_informed ob st w' \<and> (\<forall>p. p \<noteq> ob \<longrightarrow> obs_keeps p w w')" if f: "obs_fresh ob w"
  proof (cases ob)
    case (Wait_Obs i)
    with MaybeSignal_ok [OF inv, of i st] f show ?thesis by (auto simp: world_ops_def WaitStateObserver_OnInitialize_def)
  next
    case (Set_Entry i)
    with f obtain s where "set_alive s w" "i \<in> set (ws_entries (w_sets w s))" "en_state (w_entries w i) = ADD_PENDING"
      "en_handle (w_entries w i) \<noteq> None" by auto
    from Entry_OnInitialize_ok [OF k si this, of st] Set_Entry entry_step_world [OF inv] show ?thesis
      by (auto simp: world_ops_def)
  qed (use f inv in \<open>auto simp: world_ops_def\<close>)
  show "\<exists>a w'. OnStateChange (world_ops e alloc_ok) ob st w = Some (a, w') \<and> world_inv base e w' \<and> obs_attached ob w' \<and>
      obs_informed ob st w' \<and> (\<forall>p. p \<noteq> ob \<longrightarrow> obs_keeps p w w')" if f: "obs_attached ob w"
  proof (cases ob)
    case (Wait_Obs i)
    with MaybeSignal_ok [OF inv, of i st] f show ?thesis by (auto simp: world_ops_def WaitStateObserver_OnStateChange_def)
  next
    case (Set_Entry i)
    with Entry_OnStateChange_ok [OF k si, of i st] f entry_step_world [OF inv] show ?thesis by (auto simp: world_ops_def)
  next
    case (Port_Obs i)
    with port_change_ok [OF inv, of i alloc_ok st] f obtain b w' where
      "IOPortObserver_OnStateChange e alloc_ok i st w = Some (b, w')" "world_inv base e w'" "\<forall>p. obs_keeps p w w'" by auto
    moreover from this(3) have "obs_keeps ob w w'" by blast
    then have "obs_attached ob w'" using f by (simp add: keeps_observer_def)
    ultimately show ?thesis using Port_Obs by (simp add: world_ops_def)
  qed (use f inv in \<open>auto simp: world_ops_def\<close>)
  show "\<exists>a r d w'. OnCancel (world_ops e alloc_ok) ob h w = Some (a, r, d, w') \<and> world_inv base e w' \<and>
      (\<not> r \<longrightarrow> obs_keeps ob w w') \<and> (\<forall>p. p \<noteq> ob \<longrightarrow> obs_keeps p w w')" if f: "obs_attached ob w"
  proof (cases ob)
    case (Wait_Obs i)
    with wait_cancel_ok [OF inv, of i h] f show ?thesis by (auto simp: world_ops_def)
  next
    case (Set_Entry i)
    with Entry_OnCancel_ok [OF k si, of i h] f entry_step_world [OF inv] show ?thesis by (auto simp: world_ops_def)
  next
    case (Set_Self s)
    with set_self_cancel_ok [OF inv, of s h] f show ?thesis by (auto simp: world_ops_def)
  next
    case (Port_Obs i)
    let ?r = "IOPortObserver_OnCancel i h w" let ?w = "snd (snd (snd ?r))"
    have w: "world_inv base e ?w" "obs_keeps p w ?w" for p
      by (rule port_obs_quiet [OF inv]; auto simp: IOPortObserver_OnCancel_def Let_def)+
    then show ?thesis using Port_Obs by (cases ?r) (auto simp: world_ops_def)
  qed
  show "\<exists>w'. OnDidCancel (world_ops e alloc_ok) ob w = Some w' \<and> world_inv base e w' \<and> (\<forall>p. p \<noteq> ob \<longrightarrow> obs_keeps p w w')"
  proof (cases ob)
    case (Port_Obs i)
    have w: "world_inv base e (IOPortObserver_OnDidCancel i w)" "obs_keeps p w (IOPortObserver_OnDidCancel i w)" for p
      by (rule port_obs_quiet [OF inv]; simp add: IOPortObserver_OnDidCancel_def CancelObserver_def)+
    then show ?thesis using Port_Obs by (simp add: world_ops_def)
  qed (use inv in \<open>simp_all add: world_ops_def\<close>)
  show "\<exists>w'. Thread_Yield (world_ops e alloc_ok) w = Some w' \<and> world_inv base e w' \<and> (\<forall>p. obs_keeps p w w')"
    using world_yield_ok [OF inv] by (simp add: world_ops_def)
qed

section \<open>A small world\<close>

text \<open>
  A thread waits on a handle through wait event 0, entry 0 of wait set 0 and an observer of port 0 watch the
  same object; nothing is signalled yet.
\<close>

definition world0 :: world where
  "world0 =
     \<lparr>w_kernel = kstate0,
      w_events = (\<lambda>_. \<lparr>we_signaled = False, we_result = WE_INVALID, we_context = 0,
          we_event = \<lparr>ev_magic = False, ev_signalled = False, ev_flags = 0, ev_wait = Wq 0\<rparr>\<rparr>)
        (0 := \<lparr>we_signaled = False, we_result = WE_INVALID, we_context = 0,
          we_event = \<lparr>ev_magic = True, ev_signalled = False, ev_flags = 0, ev_wait = Wq 5\<rparr>\<rparr>),
      w_observers = (\<lambda>_. \<lparr>wo_event = 0, wo_handle = 9, wo_watched_signals = 0, wo_context = 0, wo_dispatcher = None\<rparr>)
        (0 := \<lparr>wo_event = 0, wo_handle = 9, wo_watched_signals = 1, wo_context = 77, wo_dispatcher = Some 1\<rparr>),
      w_sets = (\<lambda>_. \<lparr>ws_cv = \<lparr>c_magic = False, c_wait = Wq 0\<rparr>, ws_waiter_count = 0, ws_cancelled = False, ws_entries = [],
          ws_triggered_entries = [], ws_num_triggered_entries = 0\<rparr>)
        (0 := \<lparr>ws_cv = \<lparr>c_magic = True, c_wait = Wq 7\<rparr>, ws_waiter_count = 0, ws_cancelled = False, ws_entries = [0, 1],
          ws_triggered_entries = [1], ws_num_triggered_entries = 1\<rparr>),
      w_entries = (\<lambda>_. Entry 0 0)
        (0 := (Entry 1 42)\<lparr>en_state := ADDED, en_wait_set := Some 0, en_handle := Some 9, en_dispatcher := Some 1,
          en_signals_state := \<lparr>satisfied = 0, satisfiable = 7\<rparr>\<rparr>,
         1 := (Entry 8 43)\<lparr>en_state := ADDED, en_wait_set := Some 0, en_handle := Some 10, en_dispatcher := Some 2,
          en_is_triggered := True, en_signals_state := \<lparr>satisfied = 8, satisfiable = 8\<rparr>\<rparr>),
      w_ports = (\<lambda>_. \<lparr>ip_options = 0, ip_no_clients = False, ip_observers = [], ip_packets = [],
          ip_event = \<lparr>ev_magic = False, ev_signalled = False, ev_flags = 1, ev_wait = Wq 0\<rparr>\<rparr>)
        (0 := \<lparr>ip_options = 0, ip_no_clients = False, ip_observers = [0], ip_packets = [],
          ip_event = \<lparr>ev_magic = True, ev_signalled = True, ev_flags = 1, ev_wait = Wq 8\<rparr>\<rparr>),
      w_port_obs = (\<lambda>_. IOPortObserver 0 9 1 5)\<rparr>"

definition tracker0 :: "observer state_tracker" where
  "tracker0 = \<lparr>st_is_waitable = True, st_observers = [Wait_Obs 0, Set_Entry 0, Port_Obs 0],
     st_signals = \<lparr>satisfied = 0, satisfiable = 7\<rparr>\<rparr>"

lemma world0_inv: "world_inv 0 (env0 0) world0"
proof -
  have m: "wq_magic (wait_queues kstate0 q)" for q by (simp add: kstate0_simps)
  have "sets_inv world0"
    by (auto simp: sets_inv_def set_alive_def wait_set_inv_def world0_def m entry_inv_def Entry_def entry_ready_def inj_on_def)
  moreover have "wait_events_inv world0" "ports_inv world0"
    by (auto simp: wait_events_inv_def wait_event_inv_def ports_inv_def port_ok_def event_ok_def world0_def m)
  moreover have "w_kernel world0 = kstate0" by (simp add: world0_def)
  ultimately show ?thesis by (simp add: world_inv_def)
qed

lemma tracker0_ok: "tracker_ok obs_attached obs_informed tracker0 world0"
proof -
  have "entry_attached 0 world0"
    by (auto simp: entry_attached_def world0_def set_alive_def Entry_def intro: exI [of _ 0])
  then show ?thesis
    by (simp add: tracker_ok_def tracker0_def wait_attached_def wait_informed_def entry_informed_def entry_ready_def)
      (simp add: world0_def Entry_def IOPortObserver_def)
qed

section \<open>What the waiters are told\<close>

text \<open>
  C12: a change of an object's signals reaches everyone who watches it. \<^verbatim>\<open>UpdateState\<close> returns, and then every
  thread waiting through a wait state observer whose watched signals are satisfied, or can no longer
  be, has its wait event signalled; and every added wait set entry is triggered exactly when its
  watched signals are satisfied or no longer satisfiable. No assertion of an observer fails and the
  invariants of the scheduler, the wait events, the wait sets and the ports hold again.
\<close>

theorem signals_reach_every_waiter:
  assumes "world_inv base e w" "tracker_ok obs_attached obs_informed tr w"
  shows "\<exists>tr' w'. UpdateState (world_ops e alloc_ok) a b c d tr w = Some (tr', w') \<and>
    world_inv base e w' \<and> tracker_ok obs_attached obs_informed tr' w' \<and>
    st_observers tr' = st_observers tr \<and> st_signals tr' = update_signals a b c d (st_signals tr) \<and>
    (\<forall>i. Wait_Obs i \<in> set (st_observers tr) \<and>
        (satisfied (st_signals tr') AND wo_watched_signals (w_observers w' i) \<noteq> 0 \<or>
         satisfiable (st_signals tr') AND wo_watched_signals (w_observers w' i) = 0) \<longrightarrow>
        we_signaled (w_events w' (wo_event (w_observers w' i)))) \<and>
    (\<forall>i. Set_Entry i \<in> set (st_observers tr) \<and> en_state (w_entries w' i) = ADDED \<longrightarrow>
        (en_is_triggered (w_entries w' i) \<longleftrightarrow> entry_ready (en_watched_signals (w_entries w' i)) (st_signals tr')))"
proof -
  from obs.UpdateState_tracked [OF assms, of alloc_ok a b c d] obtain tr' w' where
    u: "UpdateState (world_ops e alloc_ok) a b c d tr w = Some (tr', w')" "world_inv base e w'"
      "tracker_ok obs_attached obs_informed tr' w'" "st_observers tr' = st_observers tr"
      "st_signals tr' = update_signals a b c d (st_signals tr)" by blast
  have "obs_informed p (st_signals tr') w'" if "p \<in> set (st_observers tr)" for p
    using u(3) that by (simp add: tracker_ok_def u(4))
  from this [of "Wait_Obs _"] this [of "Set_Entry _"] show ?thesis
    by (intro exI [of _ tr'] exI [of _ w'] conjI u) (auto simp: wait_informed_def entry_informed_def)
qed

theorem signals_reach_every_waiter_witness:
  "\<exists>tr' w'. UpdateState (world_ops (env0 0) True) MX_SIGNAL_READABLE 0 0 0 tracker0 world0 = Some (tr', w') \<and>
    world_inv 0 (env0 0) w' \<and> satisfied (st_signals tr') = MX_SIGNAL_READABLE"
  using signals_reach_every_waiter [OF world0_inv tracker0_ok, of True MX_SIGNAL_READABLE 0 0 0]
  by (auto simp: update_signals_def tracker0_def)

text \<open>
  C13: there is no window between looking at an object and waiting for it. Beginning a wait on a waitable
  object adds the observer and, when the watched signals are already satisfied or can no longer be,
  signals the wait event before \<^verbatim>\<open>Begin\<close> returns; every observer that was there stays informed.
\<close>

theorem wait_begin_sees_current_signals:
  assumes "world_inv base e w" "tracker_ok obs_attached obs_informed tr w" "st_is_waitable tr"
    and "Wait_Obs i \<notin> set (st_observers tr)" "wo_dispatcher (w_observers w i) = None" "ev_magic (we_event (w_events w ev))"
  shows "\<exists>tr' w'. WaitStateObserver_Begin (world_ops e alloc_ok) i ev h watched ctx disp (Some tr) w = Some (NO_ERROR, Some tr', w') \<and>
    world_inv base e w' \<and> tracker_ok obs_attached obs_informed tr' w' \<and> st_observers tr' = Wait_Obs i # st_observers tr \<and>
    wait_informed i (st_signals tr) w'"
proof -
  let ?w = "w\<lparr>w_observers := (w_observers w)(i := \<lparr>wo_event = ev, wo_handle = h, wo_watched_signals = watched,
       wo_context = ctx, wo_dispatcher = Some disp\<rparr>)\<rparr>"
  have "world_inv base e ?w"
    using assms(1) sets_inv_frame [of w ?w] wait_events_inv_frame [of w ?w] ports_inv_frame [of w ?w] by (simp add: world_inv_def)
  moreover have "obs_keeps p w ?w" if "p \<noteq> Wait_Obs i" for p
    using that by (cases p) (auto simp: keeps_observer_def wait_attached_def wait_informed_def entry_attached_def entry_informed_def set_alive_def)
  then have "tracker_ok obs_attached obs_informed tr ?w"
    using assms(2,4) by (metis tracker_ok_keeps)
  moreover have "obs_fresh (Wait_Obs i) ?w" using assms(6) by (simp add: wait_attached_def)
  ultimately obtain tr' w' where
    a: "AddObserver (world_ops e alloc_ok) (Wait_Obs i) tr ?w = Some (NO_ERROR, tr', w')" "world_inv base e w'"
      "tracker_ok obs_attached obs_informed tr' w'" "st_observers tr' = Wait_Obs i # st_observers tr" "st_signals tr' = st_signals tr"
    using obs.AddObserver_tracked [of base e ?w "Wait_Obs i" tr alloc_ok] assms(4) by blast
  moreover have "wait_informed i (st_signals tr) w'" using a(3-5) by (simp add: tracker_ok_def)
  ultimately show ?thesis using assms(3,5) by (simp add: WaitStateObserver_Begin_def Let_def)
qed

theorem wait_begin_sees_current_signals_witness:
  "\<exists>tr' w'. WaitStateObserver_Begin (world_ops (env0 0) True) 3 0 9 8 4 1 (Some tracker0) world0 = Some (NO_ERROR, Some tr', w') \<and>
    world_inv 0 (env0 0) w' \<and> wait_informed 3 (st_signals tracker0) w'"
proof -
  have "st_is_waitable tracker0" "Wait_Obs 3 \<notin> set (st_observers tracker0)" "wo_dispatcher (w_observers world0 3) = None"
    "ev_magic (we_event (w_events world0 0))" by (simp_all add: tracker0_def world0_def)
  from wait_begin_sees_current_signals [OF world0_inv tracker0_ok this, of True 9 8 4 1] show ?thesis by blast
qed

section \<open>Wait sets and ports\<close>

lemma entry_result_ok:
  assumes "entry_inv s en" "en_is_triggered en"
  shows "\<exists>r. entry_result en = Some r \<and> wr_cookie r = en_cookie en \<and>
    wr_wait_result r = (if en_handle en = None then ERR_CANCELLED
      else if satisfied (en_signals_state en) AND en_watched_signals en \<noteq> 0 then NO_ERROR else ERR_BAD_STATE)"
  using assms by (cases "en_handle en")
    (auto simp: entry_result_def entry_inv_def entry_ready_def and.commute Let_def)

lemma wait_results_ok:
  assumes "n \<le> length is" "\<And>i. i \<in> set is \<Longrightarrow> \<exists>r. entry_result (tab i) = Some r \<and> P (tab i) r"
  shows "\<exists>rs. wait_results tab n is = Some rs \<and> length rs = n \<and> (\<forall>k<n. P (tab (is ! k)) (rs ! k))"
  using assms
proof (induction tab n "is" rule: wait_results.induct)
  case (3 tab n i "is")
  from 3(3) [of i] obtain r where r: "entry_result (tab i) = Some r" "P (tab i) r" by auto
  from 3 r(1) obtain rs where "wait_results tab n is = Some rs" "length rs = n" "\<forall>k<n. P (tab (is ! k)) (rs ! k)" by auto
  with r show ?case by (auto simp: nth_Cons split: nat.split)
qed auto

text \<open>
  C14: a wait on a wait set that is not cancelled reports the triggered entries in the order in which they
  triggered, as many as fit, and how many there are; each with the reason: cancelled, satisfied, or no
  longer satisfiable. It does so even when the wait timed out, and none of its assertions fails.
\<close>

theorem wait_set_reports_triggered_entries:
  assumes "wait_set_inv s w" "\<not> ws_cancelled (w_sets w s)" "ws_triggered_entries (w_sets w s) = trig" "trig \<noteq> []"
    and "result = NO_ERROR \<or> result = ERR_TIMED_OUT"
  shows "\<exists>rs. Wait_finish result n s w = Some (NO_ERROR, rs, length trig) \<and> length rs = min n (length trig) \<and>
    (\<forall>k<length rs. let en = w_entries w (trig ! k) in wr_cookie (rs ! k) = en_cookie en \<and>
       wr_wait_result (rs ! k) = (if en_handle en = None then ERR_CANCELLED
         else if satisfied (en_signals_state en) AND en_watched_signals en \<noteq> 0 then NO_ERROR else ERR_BAD_STATE))"
proof -
  let ?P = "\<lambda>en r. wr_cookie r = en_cookie en \<and> wr_wait_result r = (if en_handle en = None then ERR_CANCELLED
      else if satisfied (en_signals_state en) AND en_watched_signals en \<noteq> 0 then NO_ERROR else ERR_BAD_STATE)"
  have "\<exists>r. entry_result (w_entries w i) = Some r \<and> ?P (w_entries w i) r" if "i \<in> set trig" for i
    using that assms(1,3) by (intro entry_result_ok [of s]) (auto simp: wait_set_inv_def)
  from wait_results_ok [of "min n (length trig)" trig "w_entries w" ?P] this obtain rs where
    rs: "wait_results (w_entries w) (min n (length trig)) trig = Some rs" "length rs = min n (length trig)"
      "\<forall>k<min n (length trig). ?P (w_entries w (trig ! k)) (rs ! k)" by auto
  have num: "ws_num_triggered_entries (w_sets w s) = length trig" "length trig \<noteq> 0" using assms(1,3,4) by (auto simp: wait_set_inv_def)
  have "(if length trig < n then length trig else n) = min n (length trig)" by simp
  then have "Wait_finish result n s w = Some (NO_ERROR, rs, length trig)"
    using assms(2,3,5) rs(1) num by (auto simp: Wait_finish_def Let_def)
  then show ?thesis using rs(2,3) by (simp add: Let_def)
qed

theorem wait_set_reports_triggered_entries_witness:
  "\<exists>rs. Wait_finish ERR_TIMED_OUT 10 0 world0 = Some (NO_ERROR, rs, 1) \<and> length rs = 1 \<and>
    wr_cookie (rs ! 0) = 43 \<and> wr_wait_result (rs ! 0) = NO_ERROR"
proof -
  have "wait_set_inv 0 world0" using world0_inv by (simp add: world_inv_def sets_inv_def) (simp add: set_alive_def world0_def)
  moreover have "\<not> ws_cancelled (w_sets world0 0)" "ws_triggered_entries (w_sets world0 0) = [1]" by (simp_all add: world0_def)
  ultimately have "\<exists>rs. Wait_finish ERR_TIMED_OUT 10 0 world0 = Some (NO_ERROR, rs, length [1 :: nat]) \<and> length rs = min 10 (length [1 :: nat]) \<and>
    (\<forall>k<length rs. let en = w_entries world0 ([1] ! k) in wr_cookie (rs ! k) = en_cookie en \<and>
       wr_wait_result (rs ! k) = (if en_handle en = None then ERR_CANCELLED
         else if satisfied (en_signals_state en) AND en_watched_signals en \<noteq> 0 then NO_ERROR else ERR_BAD_STATE))"
    by (intro wait_set_reports_triggered_entries) simp_all
  moreover have "en_cookie (w_entries world0 (Suc 0)) = 43" "en_handle (w_entries world0 (Suc 0)) = Some 10"
    "satisfied (en_signals_state (w_entries world0 (Suc 0))) AND en_watched_signals (w_entries world0 (Suc 0)) \<noteq> 0"
    by (simp_all add: world0_def Entry_def)
  ultimately show ?thesis by (auto simp: Let_def)
qed

text \<open>
  An entry whose \<^verbatim>\<open>AddEntry\<close> is still in progress cannot be removed, but \<^verbatim>\<open>RemoveEntry\<close> reports success: the
  entry stays in the wait set under its cookie. The comment in the header says that the removal fails.
\<close>

lemma wait_set_remove_pending_succeeds:
  assumes "wait_set_inv s w" "find_entry s cookie w = Some i" "en_state (w_entries w i) = ADD_PENDING"
  shows "\<exists>w'. RemoveEntry_locked s cookie w = Some (NO_ERROR, None, w') \<and> find_entry s cookie w' = Some i \<and>
    w_entries w' = w_entries w"
proof -
  have i: "i \<in> set (ws_entries (w_sets w s))" "en_cookie (w_entries w i) = cookie"
    using assms(2) by (auto simp: find_entry_def find_Some_iff)
  then have nt: "\<not> en_is_triggered (w_entries w i)" using assms(1,3) by (auto simp: wait_set_inv_def entry_inv_def)
  show ?thesis
    using assms(2,3) nt i by (simp add: RemoveEntry_locked_def Let_def find_entry_def)
qed

lemma wait_set_remove_pending_succeeds_witness:
  "\<exists>w'. RemoveEntry_locked 0 42 (upd_entry 0 (\<lambda>en. en\<lparr>en_state := ADD_PENDING\<rparr>) world0) = Some (NO_ERROR, None, w') \<and>
    find_entry 0 42 w' = Some 0"
proof -
  let ?w = "upd_entry 0 (\<lambda>en. en\<lparr>en_state := ADD_PENDING\<rparr>) world0"
  have "wait_set_inv 0 ?w"
    by (auto simp: wait_set_inv_def world0_def entry_inv_def Entry_def entry_ready_def inj_on_def kstate0_simps)
  moreover have "find_entry 0 42 ?w = Some 0" "en_state (w_entries ?w 0) = ADD_PENDING" by (simp_all add: find_entry_def world0_def Entry_def)
  ultimately show ?thesis using wait_set_remove_pending_succeeds [of 0 ?w 42 0] by blast
qed

text \<open>
  C15: a wait on a port always ends up with a packet, with a kill or blocked. When a packet is queued it is the
  oldest one; otherwise the loop goes round at most once more, for a signal left behind by packets that
  are gone, and the thread is queued on the port's event.
\<close>

theorem io_port_wait_returns:
  assumes "kernel_ok base e (w_kernel w)" "event_inv (ip_event (w_ports w p)) (w_kernel w)" "bit (ev_flags (ip_event (w_ports w p))) 0"
    and "ct = current_thread (w_kernel w) (e_cpu e)" "Stack_Timer ct \<notin> all_queued (w_kernel w)"
  shows "\<exists>r w'. IOPort_Wait_enter e p w = Some (r, w') \<and>
    (case ip_packets (w_ports w p) of
       pk # pks \<Rightarrow> r = Returned (NO_ERROR, Some pk) \<and> ip_packets (w_ports w' p) = pks
     | [] \<Rightarrow> if bit (t_signals (threads (w_kernel w) ct)) 0 then r = Returned (ERR_INTERRUPTED, None)
             else r = Switched \<and> ct \<in> set (waiters (ip_event (w_ports w' p)) (w_kernel w')))"
proof (cases "ip_packets (w_ports w p)")
  case (Cons pk pks)
  then show ?thesis by (simp add: IOPort_Wait_enter.simps)
next
  case Nil
  have blk: "\<exists>ev' k'. event_wait_enter e INFINITE_TIME True ev k = Some (Switched, ev', k') \<and> ct \<in> set (waiters ev' k')"
    if "kernel_inv base (e_cpus e) k" "event_inv ev k" "\<not> ev_signalled ev" "\<not> bit (t_signals (threads k ct)) 0"
      "ct = current_thread k (e_cpu e)" "\<not> thread_is_idle (threads k ct)" "Stack_Timer ct \<notin> all_queued k" for ev k
    using event_wait_enter_inv [OF that(1) _ refl that(2,5,6) _ _ that(7), of INFINITE_TIME True] that(3,4) assms(1)
    by (auto simp: kernel_ok_def timeout_ok_def INFINITE_TIME_def)
  have k: "kernel_inv base (e_cpus e) (w_kernel w)" "env_ok base e" "\<not> thread_is_idle (threads (w_kernel w) ct)"
    using assms(1,4) by (auto simp: kernel_ok_def running_ok_def)
  let ?ev = "ip_event (w_ports w p)"
  have m: "ev_magic ?ev" using assms(2) by (simp add: event_inv_def)
  consider (killed) "bit (t_signals (threads (w_kernel w) ct)) 0" | (sig) "\<not> bit (t_signals (threads (w_kernel w) ct)) 0" "ev_signalled ?ev"
    | (wait) "\<not> bit (t_signals (threads (w_kernel w) ct)) 0" "\<not> ev_signalled ?ev" by blast
  then show ?thesis
  proof cases
    case killed
    then show ?thesis using Nil m assms(4) by (simp add: IOPort_Wait_enter.simps event_wait_enter_def Let_def)
  next
    case wait
    from blk [OF k(1) assms(2) wait(2,1) assms(4) k(3) assms(5)] Nil wait(1) show ?thesis
      by (auto simp: IOPort_Wait_enter.simps Let_def)
  next
    case sig
    let ?ev' = "?ev\<lparr>ev_signalled := False\<rparr>" let ?k = "set_interruptable ct False (set_interruptable ct True (w_kernel w))"
    have s: "event_wait_enter e INFINITE_TIME True ?ev (w_kernel w) = Some (Returned NO_ERROR, ?ev', ?k)"
      using sig m assms(3,4) by (simp add: event_wait_enter_def Let_def)
    have "t_signals (threads ?k ct) = t_signals (threads (w_kernel w) ct)" by (simp add: set_interruptable_def)
    then obtain ev2 k2 where b: "event_wait_enter e INFINITE_TIME True ?ev' ?k = Some (Switched, ev2, k2)" "ct \<in> set (waiters ev2 k2)"
      using blk [of ?k ?ev'] kernel_inv_set_interruptable k assms(2,4,5) sig(1) by (auto simp: event_inv_def)
    let ?w = "upd_port p (\<lambda>port. port\<lparr>ip_event := ?ev'\<rparr>) (w\<lparr>w_kernel := ?k\<rparr>)"
    have "IOPort_Wait_enter e p w = IOPort_Wait_enter e p ?w"
      using Nil s by (subst IOPort_Wait_enter.simps) (simp add: Let_def)
    also have "\<dots> = Some (Switched, upd_port p (\<lambda>port. port\<lparr>ip_event := ev2\<rparr>) (?w\<lparr>w_kernel := k2\<rparr>))"
      using Nil b by (subst IOPort_Wait_enter.simps) (simp add: Let_def)
    finally show ?thesis using Nil sig(1) b(2) by auto
  qed
qed

theorem io_port_wait_returns_witness:
  "\<exists>w'. IOPort_Wait_enter (env0 0) 0 world0 = Some (Switched, w') \<and> Thread 1 \<in> set (waiters (ip_event (w_ports w' 0)) (w_kernel w'))"
proof -
  have w: "w_kernel world0 = kstate0" by (simp add: world0_def)
  have h: "event_inv (ip_event (w_ports world0 0)) (w_kernel world0)" "bit (ev_flags (ip_event (w_ports world0 0))) 0"
    by (simp_all add: world0_def event_inv_def kstate0_simps)
  have c: "Thread 1 = current_thread (w_kernel world0) (e_cpu (env0 0))" "Stack_Timer (Thread 1) \<notin> all_queued (w_kernel world0)"
    unfolding w kstate0_timers(3) by (simp_all add: kstate0_simps env0_def)
  have "ip_packets (w_ports world0 0) = []" "\<not> bit (t_signals (threads (w_kernel world0) (Thread 1))) 0"
    by (simp_all add: world0_def kstate0_simps)
  with io_port_wait_returns [OF kstate0_ok [folded w] h c] show ?thesis by auto
qed

end
