(* ===== verification/Msg_Pipe.thy ===== *)
theory Msg_Pipe
  imports Observers
begin

unbundle bit_operations_syntax

text \<open>
  Message pipes: \<^verbatim>\<open>kernel/lib/magenta/msg_pipe.cpp\<close> and \<^verbatim>\<open>msg_pipe_dispatcher.cpp\<close>. A pipe has two sides, each
  with a queue of packets and a state tracker. The operations run under the pipe's lock, so each is one
  definition. The step relation \<open>pipe_reach\<close> is a pipe used by its two dispatchers and its observers in any
  order; its invariant says that the signals of a side are exactly what the queues and the peer make them.
\<close>

section \<open>Data\<close>

record message_packet =
  pk_data :: "u8 list"
  pk_handles :: "handle_ref list"

record 'o msg_pipe =
  mp_koid :: mx_koid
  mp_dispatcher_alive :: "nat \<Rightarrow> bool"
  mp_messages :: "nat \<Rightarrow> message_packet list"
  mp_state_tracker :: "nat \<Rightarrow> 'o state_tracker"

definition other_side :: "nat \<Rightarrow> nat" where
  "other_side side = (if side \<noteq> 0 then 0 else 1)"

definition upd_tracker :: "nat \<Rightarrow> 'o state_tracker \<Rightarrow> 'o msg_pipe \<Rightarrow> 'o msg_pipe" where
  "upd_tracker side tr p = p\<lparr>mp_state_tracker := (mp_state_tracker p)(side := tr)\<rparr>"

section \<open>The pipe\<close>

definition ReturnHandles :: "message_packet \<Rightarrow> message_packet" where
  "ReturnHandles msg = msg\<lparr>pk_handles := []\<rparr>"

definition MessagePipe :: "mx_koid \<Rightarrow> 'o msg_pipe" where
  "MessagePipe koid =
     (let st = \<lparr>satisfied = MX_SIGNAL_WRITABLE,
                satisfiable = MX_SIGNAL_READABLE OR MX_SIGNAL_WRITABLE OR MX_SIGNAL_PEER_CLOSED\<rparr>
      in \<lparr>mp_koid = koid, mp_dispatcher_alive = (\<lambda>_. True), mp_messages = (\<lambda>_. []),
          mp_state_tracker = (\<lambda>_. set_initial_signals_state st (StateTracker True \<lparr>satisfied = 0, satisfiable = 0\<rparr>))\<rparr>)"

text \<open>The packets returned are destroyed after the lock is released; their handles are deleted with them.\<close>

definition OnDispatcherDestruction ::
  "('o, 'w) observer_ops \<Rightarrow> nat \<Rightarrow> 'o msg_pipe \<Rightarrow> 'w \<Rightarrow> (message_packet list \<times> 'o msg_pipe \<times> 'w) option" where
  "OnDispatcherDestruction ops side p w = do {
     let other = other_side side;
     let messages_to_destroy = mp_messages p side;
     let p = p\<lparr>mp_dispatcher_alive := (mp_dispatcher_alive p)(side := False), mp_messages := (mp_messages p)(side := [])\<rparr>;
     if mp_dispatcher_alive p other
     then do {
       let other_satisfiable_clear =
         (if mp_messages p other = [] then MX_SIGNAL_WRITABLE OR MX_SIGNAL_READABLE else MX_SIGNAL_WRITABLE);
       (tr, w) \<leftarrow> UpdateState ops MX_SIGNAL_PEER_CLOSED MX_SIGNAL_WRITABLE 0 other_satisfiable_clear (mp_state_tracker p other) w;
       Some (messages_to_destroy, upd_tracker other tr p, w)
     }
     else Some (messages_to_destroy, p, w)
   }"

definition MessagePipe_Read ::
  "('o, 'w) observer_ops \<Rightarrow> nat \<Rightarrow> 'o msg_pipe \<Rightarrow> 'w \<Rightarrow> ((status \<times> message_packet option) \<times> 'o msg_pipe \<times> 'w) option" where
  "MessagePipe_Read ops side p w = do {
     let other = other_side side;
     let (msg, rest) = (case mp_messages p side of [] \<Rightarrow> (None, []) | m # ms \<Rightarrow> (Some m, ms));
     let p = p\<lparr>mp_messages := (mp_messages p)(side := rest)\<rparr>;
     let other_alive = mp_dispatcher_alive p other;
     (p, w) \<leftarrow> (if mp_messages p side = []
       then do {
         (tr, w) \<leftarrow> UpdateState ops 0 MX_SIGNAL_READABLE 0 (if \<not> other_alive then MX_SIGNAL_READABLE else 0) (mp_state_tracker p side) w;
         Some (upd_tracker side tr p, w)
       }
       else Some (p, w));
     Some ((if msg \<noteq> None then NO_ERROR else if other_alive then ERR_BAD_STATE else ERR_CHANNEL_CLOSED, msg), p, w)
   }"

text \<open>On failure the packet is destroyed without its handles, which stay with the caller.\<close>

definition MessagePipe_Write ::
  "('o, 'w) observer_ops \<Rightarrow> nat \<Rightarrow> message_packet \<Rightarrow> 'o msg_pipe \<Rightarrow> 'w \<Rightarrow> (status \<times> 'o msg_pipe \<times> 'w) option" where
  "MessagePipe_Write ops side msg p w = do {
     let other = other_side side;
     if \<not> mp_dispatcher_alive p other then Some (ERR_BAD_STATE, p, w)
     else do {
       let p = p\<lparr>mp_messages := (mp_messages p)(other := mp_messages p other @ [msg])\<rparr>;
       (tr, w) \<leftarrow> UpdateSatisfied ops MX_SIGNAL_READABLE 0 (mp_state_tracker p other) w;
       Some (NO_ERROR, upd_tracker other tr p, w)
     }
   }"

section \<open>The dispatcher of a side\<close>

definition MX_FLAG_REPLY_PIPE :: u32 where "MX_FLAG_REPLY_PIPE = push_bit 0 1"

record msg_pipe_dispatcher =
  md_side :: nat
  md_flags :: u32
  md_pending :: "message_packet option"

definition MessagePipeDispatcher_Create :: "u32 \<Rightarrow> bool \<Rightarrow> mx_koid \<Rightarrow>
    status + ('o msg_pipe \<times> msg_pipe_dispatcher \<times> msg_pipe_dispatcher \<times> mx_rights)" where
  "MessagePipeDispatcher_Create flags alloc_ok koid =
     (if \<not> alloc_ok then Inl ERR_NO_MEMORY
      else Inr (MessagePipe koid, \<lparr>md_side = 0, md_flags = flags AND NOT MX_FLAG_REPLY_PIPE, md_pending = None\<rparr>,
                \<lparr>md_side = 1, md_flags = flags, md_pending = None\<rparr>,
                MX_RIGHT_TRANSFER OR MX_RIGHT_READ OR MX_RIGHT_WRITE))"

definition BeginRead ::
  "('o, 'w) observer_ops \<Rightarrow> msg_pipe_dispatcher \<Rightarrow> 'o msg_pipe \<Rightarrow> 'w \<Rightarrow>
   ((status \<times> u32 \<times> u32) \<times> msg_pipe_dispatcher \<times> 'o msg_pipe \<times> 'w) option" where
  "BeginRead ops d p w = do {
     (result, d, p, w) \<leftarrow> (case md_pending d of
        Some _ \<Rightarrow> Some (NO_ERROR, d, p, w)
      | None \<Rightarrow> do {
          ((st, msg), p, w) \<leftarrow> MessagePipe_Read ops (md_side d) p w;
          Some (st, d\<lparr>md_pending := msg\<rparr>, p, w)
        });
     if result = NO_ERROR
     then do {
       msg \<leftarrow> md_pending d;
       Some ((result, of_nat (length (pk_data msg)), of_nat (length (pk_handles msg))), d, p, w)
     }
     else Some ((result, 0, 0), d, p, w)
   }"

definition AcceptRead :: "msg_pipe_dispatcher \<Rightarrow> (status \<times> (u8 list \<times> handle_ref list) option) \<times> msg_pipe_dispatcher" where
  "AcceptRead d =
     (case md_pending d of
        None \<Rightarrow> ((ERR_BAD_STATE, None), d)
      | Some msg \<Rightarrow> ((NO_ERROR, Some (pk_data msg, pk_handles msg)), d\<lparr>md_pending := None\<rparr>))"

definition MessagePipeDispatcher_Write ::
  "('o, 'w) observer_ops \<Rightarrow> bool \<Rightarrow> msg_pipe_dispatcher \<Rightarrow> u8 list \<Rightarrow> handle_ref list \<Rightarrow> 'o msg_pipe \<Rightarrow> 'w \<Rightarrow>
   (status \<times> 'o msg_pipe \<times> 'w) option" where
  "MessagePipeDispatcher_Write ops alloc_ok d data handles p w =
     (if \<not> alloc_ok then Some (ERR_NO_MEMORY, p, w)
      else MessagePipe_Write ops (md_side d) \<lparr>pk_data = data, pk_handles = handles\<rparr> p w)"

section \<open>Use of a pipe\<close>

inductive pipe_reach ::
  "('o, 'w) observer_ops \<Rightarrow> ('w \<Rightarrow> bool) \<Rightarrow> ('o \<Rightarrow> 'w \<Rightarrow> bool) \<Rightarrow> ('o \<Rightarrow> 'w \<Rightarrow> bool) \<Rightarrow> ('o \<Rightarrow> signals_state \<Rightarrow> 'w \<Rightarrow> bool) \<Rightarrow>
   'o msg_pipe \<Rightarrow> 'w \<Rightarrow> bool"
  for ops winv fresh att infd where
  pr_create: "winv w \<Longrightarrow> pipe_reach ops winv fresh att infd (MessagePipe koid) w"
| pr_write: "\<lbrakk>pipe_reach ops winv fresh att infd p w; side < 2; mp_dispatcher_alive p side;
    MessagePipe_Write ops side msg p w = Some (st, p', w')\<rbrakk> \<Longrightarrow> pipe_reach ops winv fresh att infd p' w'"
| pr_read: "\<lbrakk>pipe_reach ops winv fresh att infd p w; side < 2; mp_dispatcher_alive p side;
    MessagePipe_Read ops side p w = Some (r, p', w')\<rbrakk> \<Longrightarrow> pipe_reach ops winv fresh att infd p' w'"
| pr_close: "\<lbrakk>pipe_reach ops winv fresh att infd p w; side < 2; mp_dispatcher_alive p side;
    OnDispatcherDestruction ops side p w = Some (msgs, p', w')\<rbrakk> \<Longrightarrow> pipe_reach ops winv fresh att infd p' w'"
| pr_observe: "\<lbrakk>pipe_reach ops winv fresh att infd p w; side < 2; mp_dispatcher_alive p side; fresh ob w;
    \<forall>s<2. ob \<notin> set (st_observers (mp_state_tracker p s));
    AddObserver ops ob (mp_state_tracker p side) w = Some (st, tr, w')\<rbrakk> \<Longrightarrow>
    pipe_reach ops winv fresh att infd (upd_tracker side tr p) w'"
| pr_unobserve: "\<lbrakk>pipe_reach ops winv fresh att infd p w; side < 2;
    RemoveObserver ob (mp_state_tracker p side) = (st, tr)\<rbrakk> \<Longrightarrow> pipe_reach ops winv fresh att infd (upd_tracker side tr p) w"
| pr_others: "\<lbrakk>pipe_reach ops winv fresh att infd p w; winv w';
    \<forall>s<2. \<forall>ob\<in>set (st_observers (mp_state_tracker p s)). keeps_observer att infd ob w w'\<rbrakk> \<Longrightarrow>
    pipe_reach ops winv fresh att infd p w'"

section \<open>The invariant\<close>

definition pipe_signals :: "bool \<Rightarrow> bool \<Rightarrow> signals_state \<Rightarrow> bool" where
  "pipe_signals nonempty peer st \<longleftrightarrow>
     (\<forall>n. bit (satisfied st) n \<longleftrightarrow> n = 0 \<and> nonempty \<or> n = 1 \<and> peer \<or> n = 2 \<and> \<not> peer) \<and>
     (\<forall>n. bit (satisfiable st) n \<longleftrightarrow> n = 0 \<and> (nonempty \<or> peer) \<or> n = 1 \<and> peer \<or> n = 2)"

definition side_inv :: "('o \<Rightarrow> 'w \<Rightarrow> bool) \<Rightarrow> ('o \<Rightarrow> signals_state \<Rightarrow> 'w \<Rightarrow> bool) \<Rightarrow> 'o msg_pipe \<Rightarrow> 'w \<Rightarrow> nat \<Rightarrow> bool" where
  "side_inv att infd p w s \<longleftrightarrow>
     (if mp_dispatcher_alive p s
      then pipe_signals (mp_messages p s \<noteq> []) (mp_dispatcher_alive p (other_side s)) (st_signals (mp_state_tracker p s)) \<and>
           tracker_ok att infd (mp_state_tracker p s) w
      else mp_messages p s = [])"

definition pipe_inv :: "('w \<Rightarrow> bool) \<Rightarrow> ('o \<Rightarrow> 'w \<Rightarrow> bool) \<Rightarrow> ('o \<Rightarrow> signals_state \<Rightarrow> 'w \<Rightarrow> bool) \<Rightarrow> 'o msg_pipe \<Rightarrow> 'w \<Rightarrow> bool" where
  "pipe_inv winv att infd p w \<longleftrightarrow> winv w \<and> side_inv att infd p w 0 \<and> side_inv att infd p w 1 \<and>
     set (st_observers (mp_state_tracker p 0)) \<inter> set (st_observers (mp_state_tracker p 1)) = {}"

lemma side_cases: "(s :: nat) < 2 \<longleftrightarrow> s = 0 \<or> s = 1"
  by auto

lemma other_side_simps [simp]: "other_side 0 = 1" "other_side 1 = 0" "other_side (Suc 0) = 0"
  by (simp_all add: other_side_def)

lemma other_side_props: "s < 2 \<Longrightarrow> other_side s < 2 \<and> other_side (other_side s) = s \<and> other_side s \<noteq> s"
  by (auto simp: other_side_def)

lemma pipe_inv_iff:
  assumes "s < 2"
  shows "pipe_inv winv att infd p w \<longleftrightarrow> winv w \<and> side_inv att infd p w s \<and> side_inv att infd p w (other_side s) \<and>
    set (st_observers (mp_state_tracker p s)) \<inter> set (st_observers (mp_state_tracker p (other_side s))) = {}"
  using assms unfolding side_cases by (auto simp: pipe_inv_def)

lemma pipe_inv_side: "pipe_inv winv att infd p w \<Longrightarrow> s < 2 \<Longrightarrow> side_inv att infd p w s"
  using pipe_inv_iff [of s winv att infd p w] by blast

lemma sig_bit [simp]:
  "bit MX_SIGNAL_READABLE n \<longleftrightarrow> n = 0" "bit MX_SIGNAL_WRITABLE n \<longleftrightarrow> n = 1" "bit MX_SIGNAL_PEER_CLOSED n \<longleftrightarrow> n = 2"
  "bit MX_SIGNAL_SIGNALED n \<longleftrightarrow> n = 3"
  unfolding mx_consts bit_push_bit_one_iff by auto

lemma upd_tracker_sel [simp]:
  "mp_state_tracker (upd_tracker side tr p) = (mp_state_tracker p)(side := tr)" "mp_messages (upd_tracker side tr p) = mp_messages p"
  "mp_dispatcher_alive (upd_tracker side tr p) = mp_dispatcher_alive p"
  by (simp_all add: upd_tracker_def)

text \<open>The four ways in which an operation changes the signals of a side.\<close>

lemma bit_update_signals [simp]:
  "bit (satisfied (update_signals a b c d st)) n \<longleftrightarrow> bit (satisfied st) n \<and> \<not> bit b n \<or> bit a n"
  "bit (satisfiable (update_signals a b c d st)) n \<longleftrightarrow> bit (satisfiable st) n \<and> \<not> bit d n \<or> bit c n"
  using bit_imp_le_length [of "satisfied st" n] bit_imp_le_length [of "satisfiable st" n]
  by (auto simp: update_signals_def bit_or_iff bit_and_iff bit_not_iff)

lemma pipe_signals_update:
  assumes "pipe_signals ne peer st"
  shows "peer \<Longrightarrow> pipe_signals True True (update_signals MX_SIGNAL_READABLE 0 0 0 st)"
    "pipe_signals False peer (update_signals 0 MX_SIGNAL_READABLE 0 (if \<not> peer then MX_SIGNAL_READABLE else 0) st)"
    "peer \<Longrightarrow> pipe_signals ne False (update_signals MX_SIGNAL_PEER_CLOSED MX_SIGNAL_WRITABLE 0
       (if \<not> ne then MX_SIGNAL_WRITABLE OR MX_SIGNAL_READABLE else MX_SIGNAL_WRITABLE) st)"
proof -
  have b: "bit (satisfied st) n \<longleftrightarrow> n = 0 \<and> ne \<or> n = 1 \<and> peer \<or> n = 2 \<and> \<not> peer"
    "bit (satisfiable st) n \<longleftrightarrow> n = 0 \<and> (ne \<or> peer) \<or> n = 1 \<and> peer \<or> n = 2" for n
    using assms by (simp_all add: pipe_signals_def)
  show "peer \<Longrightarrow> pipe_signals True True (update_signals MX_SIGNAL_READABLE 0 0 0 st)"
    unfolding pipe_signals_def by (simp add: b) auto
  show "pipe_signals False peer (update_signals 0 MX_SIGNAL_READABLE 0 (if \<not> peer then MX_SIGNAL_READABLE else 0) st)"
    unfolding pipe_signals_def by (cases peer; simp add: b; auto)
  show "peer \<Longrightarrow> pipe_signals ne False (update_signals MX_SIGNAL_PEER_CLOSED MX_SIGNAL_WRITABLE 0
       (if \<not> ne then MX_SIGNAL_WRITABLE OR MX_SIGNAL_READABLE else MX_SIGNAL_WRITABLE) st)"
    unfolding pipe_signals_def by (cases ne; simp add: b bit_or_iff; auto)
qed

context state_observer
begin

abbreviation pinv :: "'o msg_pipe \<Rightarrow> 'w \<Rightarrow> bool" where "pinv \<equiv> pipe_inv inv attached informed"

lemma pinv_update_tracker:
  assumes p: "pinv p w" and s: "s < 2" "mp_dispatcher_alive p s"
  shows "\<exists>tr w'. UpdateState ops a b c d (mp_state_tracker p s) w = Some (tr, w') \<and> inv w' \<and> tracked tr w' \<and>
    st_observers tr = st_observers (mp_state_tracker p s) \<and>
    st_signals tr = update_signals a b c d (st_signals (mp_state_tracker p s)) \<and>
    (mp_dispatcher_alive p (other_side s) \<longrightarrow> tracked (mp_state_tracker p (other_side s)) w')"
proof -
  note pi = p [unfolded pipe_inv_iff [OF s(1)]]
  have i: "inv w" and tr: "tracked (mp_state_tracker p s) w" using pi s by (auto simp: side_inv_def)
  from UpdateState_tracked [OF i tr, of a b c d] obtain t' w' where
    u: "UpdateState ops a b c d (mp_state_tracker p s) w = Some (t', w')" "inv w'" "tracked t' w'"
      "st_observers t' = st_observers (mp_state_tracker p s)" "st_signals t' = update_signals a b c d (st_signals (mp_state_tracker p s))"
      "\<And>q. q \<notin> set (st_observers (mp_state_tracker p s)) \<Longrightarrow> keeps q w w'" by blast
  moreover have "tracked (mp_state_tracker p (other_side s)) w'" if "mp_dispatcher_alive p (other_side s)"
  proof (rule tracker_ok_keeps)
    show "tracked (mp_state_tracker p (other_side s)) w" using pi that by (simp add: side_inv_def)
    show "keeps q w w'" if "q \<in> set (st_observers (mp_state_tracker p (other_side s)))" for q using pi that u(6) by blast
  qed
  ultimately show ?thesis by blast
qed

lemma pipe_write_ok:
  assumes p: "pinv p w" and s: "s < 2" "mp_dispatcher_alive p s"
  shows "\<exists>p' w'. MessagePipe_Write ops s msg p w =
      Some (if mp_dispatcher_alive p (other_side s) then NO_ERROR else ERR_BAD_STATE, p', w') \<and> pinv p' w' \<and>
    mp_messages p' = (if mp_dispatcher_alive p (other_side s)
      then (mp_messages p)(other_side s := mp_messages p (other_side s) @ [msg]) else mp_messages p)"
proof (cases "mp_dispatcher_alive p (other_side s)")
  case False
  then show ?thesis using p by (auto simp: MessagePipe_Write_def)
next
  case True
  let ?o = "other_side s"
  have o: "?o < 2" "other_side ?o = s" "?o \<noteq> s" using other_side_props [OF s(1)] by auto
  note pi = p [unfolded pipe_inv_iff [OF o(1)] o(2)]
  from pinv_update_tracker [OF p o(1) True, of MX_SIGNAL_READABLE 0 0 0] obtain tr w' where
    u: "UpdateState ops MX_SIGNAL_READABLE 0 0 0 (mp_state_tracker p ?o) w = Some (tr, w')" "inv w'" "tracked tr w'"
      "st_observers tr = st_observers (mp_state_tracker p ?o)"
      "st_signals tr = update_signals MX_SIGNAL_READABLE 0 0 0 (st_signals (mp_state_tracker p ?o))"
      "tracked (mp_state_tracker p s) w'" using s(2) o(2) by auto
  let ?p = "upd_tracker ?o tr (p\<lparr>mp_messages := (mp_messages p)(?o := mp_messages p ?o @ [msg])\<rparr>)"
  have "pipe_signals True True (st_signals tr)"
    unfolding u(5) using pi True s o by (intro pipe_signals_update(1) [of "mp_messages p ?o \<noteq> []" True]) (auto simp: side_inv_def)
  then have "pinv ?p w'"
    unfolding pipe_inv_iff [OF o(1)] using pi u s o True by (simp add: side_inv_def)
  then show ?thesis using True u(1) by (simp add: MessagePipe_Write_def UpdateSatisfied_def Let_def)
qed

lemma pipe_read_ok:
  assumes p: "pinv p w" and s: "s < 2" "mp_dispatcher_alive p s"
  shows "\<exists>p' w'. MessagePipe_Read ops s p w = Some ((case mp_messages p s of m # ms \<Rightarrow> (NO_ERROR, Some m)
      | [] \<Rightarrow> (if mp_dispatcher_alive p (other_side s) then ERR_BAD_STATE else ERR_CHANNEL_CLOSED, None)), p', w') \<and>
    pinv p' w' \<and> mp_messages p' = (mp_messages p)(s := tl (mp_messages p s))"
proof -
  let ?al = "mp_dispatcher_alive p (other_side s)" let ?q = "p\<lparr>mp_messages := (mp_messages p)(s := tl (mp_messages p s))\<rparr>"
  note pi = p [unfolded pipe_inv_iff [OF s(1)]]
  have o: "other_side s \<noteq> s" "other_side (other_side s) = s" using other_side_props [OF s(1)] by auto
  have sig: "pipe_signals (mp_messages p s \<noteq> []) ?al (st_signals (mp_state_tracker p s))"
    using pi s by (simp add: side_inv_def)
  show ?thesis
  proof (cases "tl (mp_messages p s)")
    case (Cons m ms)
    then have "mp_messages p s \<noteq> []" by auto
    with Cons have "pinv ?q w" unfolding pipe_inv_iff [OF s(1)] using pi s o by (auto simp: side_inv_def split: if_splits)
    then show ?thesis using Cons by (cases "mp_messages p s") (simp_all add: MessagePipe_Read_def Let_def)
  next
    case Nil
    let ?d = "if \<not> ?al then MX_SIGNAL_READABLE else 0"
    from pinv_update_tracker [OF p s, of 0 MX_SIGNAL_READABLE 0 ?d] obtain tr w' where
      u: "UpdateState ops 0 MX_SIGNAL_READABLE 0 ?d (mp_state_tracker p s) w = Some (tr, w')" "inv w'" "tracked tr w'"
        "st_observers tr = st_observers (mp_state_tracker p s)"
        "st_signals tr = update_signals 0 MX_SIGNAL_READABLE 0 ?d (st_signals (mp_state_tracker p s))"
        "?al \<longrightarrow> tracked (mp_state_tracker p (other_side s)) w'" by blast
    have "pipe_signals False ?al (st_signals tr)" unfolding u(5) by (rule pipe_signals_update(2) [OF sig])
    then have "pinv (upd_tracker s tr ?q) w'"
      unfolding pipe_inv_iff [OF s(1)] using pi u(2-4,6) s o Nil by (auto simp: side_inv_def split: if_splits)
    moreover have "MessagePipe_Read ops s p w = Some ((case mp_messages p s of m # ms \<Rightarrow> (NO_ERROR, Some m)
      | [] \<Rightarrow> (if ?al then ERR_BAD_STATE else ERR_CHANNEL_CLOSED, None)), upd_tracker s tr ?q, w')"
      using u(1) Nil by (cases "mp_messages p s") (simp_all add: MessagePipe_Read_def Let_def)
    ultimately show ?thesis by auto
  qed
qed

lemma pipe_close_ok:
  assumes p: "pinv p w" and s: "s < 2" "mp_dispatcher_alive p s"
  shows "\<exists>p' w'. OnDispatcherDestruction ops s p w = Some (mp_messages p s, p', w') \<and> pinv p' w' \<and>
    mp_messages p' = (mp_messages p)(s := []) \<and> mp_dispatcher_alive p' = (mp_dispatcher_alive p)(s := False)"
proof -
  let ?o = "other_side s" let ?ne = "mp_messages p (other_side s) \<noteq> []"
  let ?q = "p\<lparr>mp_dispatcher_alive := (mp_dispatcher_alive p)(s := False), mp_messages := (mp_messages p)(s := [])\<rparr>"
  have o: "?o < 2" "other_side ?o = s" "?o \<noteq> s" using other_side_props [OF s(1)] by auto
  note pi = p [unfolded pipe_inv_iff [OF s(1)]]
  show ?thesis
  proof (cases "mp_dispatcher_alive p ?o")
    case False
    then have "pinv ?q w" unfolding pipe_inv_iff [OF s(1)] using pi o by (simp add: side_inv_def)
    then show ?thesis using False o by (auto simp: OnDispatcherDestruction_def Let_def)
  next
    case True
    let ?d = "if \<not> ?ne then MX_SIGNAL_WRITABLE OR MX_SIGNAL_READABLE else MX_SIGNAL_WRITABLE"
    from pinv_update_tracker [OF p o(1) True, of MX_SIGNAL_PEER_CLOSED MX_SIGNAL_WRITABLE 0 ?d] obtain tr w' where
      u: "UpdateState ops MX_SIGNAL_PEER_CLOSED MX_SIGNAL_WRITABLE 0 ?d (mp_state_tracker p ?o) w = Some (tr, w')"
        "inv w'" "tracked tr w'" "st_observers tr = st_observers (mp_state_tracker p ?o)"
        "st_signals tr = update_signals MX_SIGNAL_PEER_CLOSED MX_SIGNAL_WRITABLE 0 ?d (st_signals (mp_state_tracker p ?o))" by blast
    have "pipe_signals ?ne False (st_signals tr)"
      unfolding u(5) using pi o True s by (intro pipe_signals_update(3) [of ?ne True]) (auto simp: side_inv_def)
    then have "pinv (upd_tracker ?o tr ?q) w'"
      unfolding pipe_inv_iff [OF s(1)] using pi u s o True by (simp add: side_inv_def)
    moreover have "OnDispatcherDestruction ops s p w = Some (mp_messages p s, upd_tracker ?o tr ?q, w')"
      using True o u(1) by (simp add: OnDispatcherDestruction_def Let_def)
    ultimately show ?thesis by auto
  qed
qed

lemma pipe_observe_ok:
  assumes p: "pinv p w" and s: "s < 2" "mp_dispatcher_alive p s" and ob: "fresh ob w" "\<forall>s<2. ob \<notin> set (st_observers (mp_state_tracker p s))"
  shows "\<exists>tr w'. AddObserver ops ob (mp_state_tracker p s) w = Some (NO_ERROR, tr, w') \<and> pinv (upd_tracker s tr p) w'"
proof -
  let ?o = "other_side s"
  have o: "?o < 2" "?o \<noteq> s" "other_side ?o = s" using other_side_props [OF s(1)] by auto
  note pi = p [unfolded pipe_inv_iff [OF s(1)]]
  have i: "inv w" "tracked (mp_state_tracker p s) w" using pi s by (auto simp: side_inv_def)
  from AddObserver_tracked [OF i(1) ob(1) i(2)] ob(2) s(1) obtain tr w' where
    u: "AddObserver ops ob (mp_state_tracker p s) w = Some (NO_ERROR, tr, w')" "inv w'" "tracked tr w'"
      "st_observers tr = ob # st_observers (mp_state_tracker p s)" "st_signals tr = st_signals (mp_state_tracker p s)"
      "\<And>q. q \<noteq> ob \<Longrightarrow> keeps q w w'" by blast
  have no: "ob \<notin> set (st_observers (mp_state_tracker p ?o))" using ob(2) o(1) by blast
  have "tracked (mp_state_tracker p ?o) w'" if "mp_dispatcher_alive p ?o"
  proof (rule tracker_ok_keeps)
    show "tracked (mp_state_tracker p ?o) w" using pi that by (simp add: side_inv_def)
    show "keeps q w w'" if "q \<in> set (st_observers (mp_state_tracker p ?o))" for q using u(6) [of q] no that by blast
  qed
  then have "pinv (upd_tracker s tr p) w'"
    unfolding pipe_inv_iff [OF s(1)] using pi u s o no by (auto simp: side_inv_def split: if_splits)
  with u(1) show ?thesis by blast
qed

lemma pipe_unobserve_ok:
  assumes p: "pinv p w" and s: "s < 2"
  shows "pinv (upd_tracker s (snd (RemoveObserver ob (mp_state_tracker p s))) p) w"
proof -
  have o: "other_side s \<noteq> s" "other_side (other_side s) = s" using other_side_props [OF s] by auto
  note pi = p [unfolded pipe_inv_iff [OF s]]
  have "set (remove1 ob (st_observers (mp_state_tracker p s))) \<subseteq> set (st_observers (mp_state_tracker p s))" by (rule set_remove1_subset)
  then show ?thesis
    unfolding pipe_inv_iff [OF s] using pi o RemoveObserver_tracked [of "mp_state_tracker p s" w ob]
    by (auto simp: side_inv_def RemoveObserver_def)
qed

lemma pipe_reach_inv:
  assumes "pipe_reach ops inv fresh attached informed p w"
  shows "pinv p w"
  using assms
proof (induction rule: pipe_reach.induct)
  case (pr_create w koid)
  have "pipe_signals False True \<lparr>satisfied = MX_SIGNAL_WRITABLE, satisfiable = MX_SIGNAL_READABLE OR MX_SIGNAL_WRITABLE OR MX_SIGNAL_PEER_CLOSED\<rparr>"
    by (auto simp: pipe_signals_def bit_or_iff)
  with pr_create show ?case
    by (simp add: pipe_inv_def side_inv_def MessagePipe_def Let_def set_initial_signals_state_def StateTracker_def tracker_ok_def)
next
  case (pr_write p w side msg st p' w')
  from pipe_write_ok [OF pr_write.IH pr_write.hyps(2,3), of msg] pr_write.hyps(4) show ?case by auto
next
  case (pr_read p w side r p' w')
  from pipe_read_ok [OF pr_read.IH pr_read.hyps(2,3)] pr_read.hyps(4) show ?case by auto
next
  case (pr_close p w side msgs p' w')
  from pipe_close_ok [OF pr_close.IH pr_close.hyps(2,3)] pr_close.hyps(4) show ?case by auto
next
  case (pr_observe p w side ob st tr w')
  from pipe_observe_ok [OF pr_observe.IH pr_observe.hyps(2-5)] pr_observe.hyps(6) show ?case by auto
next
  case (pr_unobserve p w side ob st tr)
  then have "tr = snd (RemoveObserver ob (mp_state_tracker p side))" by simp
  then show ?case using pipe_unobserve_ok [OF pr_unobserve.IH pr_unobserve.hyps(2), of ob] by simp
next
  case (pr_others p w w')
  have "tracked (mp_state_tracker p s) w'" if "s < 2" "tracked (mp_state_tracker p s) w" for s
    using that(2) by (rule tracker_ok_keeps) (use pr_others.hyps(3) that(1) in blast)
  from this [of 0] this [of 1] pr_others show ?case by (auto simp: pipe_inv_def side_inv_def)
qed

end

section \<open>Sequences of messages\<close>

fun write_messages ::
  "('o, 'w) observer_ops \<Rightarrow> nat \<Rightarrow> message_packet list \<Rightarrow> 'o msg_pipe \<Rightarrow> 'w \<Rightarrow> (status list \<times> 'o msg_pipe \<times> 'w) option" where
  "write_messages ops s [] p w = Some ([], p, w)"
| "write_messages ops s (m # ms) p w = do {
     (st, p, w) \<leftarrow> MessagePipe_Write ops s m p w;
     (sts, p, w) \<leftarrow> write_messages ops s ms p w;
     Some (st # sts, p, w)
   }"

fun read_messages ::
  "('o, 'w) observer_ops \<Rightarrow> nat \<Rightarrow> nat \<Rightarrow> 'o msg_pipe \<Rightarrow> 'w \<Rightarrow> ((status \<times> message_packet option) list \<times> 'o msg_pipe \<times> 'w) option" where
  "read_messages ops s 0 p w = Some ([], p, w)"
| "read_messages ops s (Suc n) p w = do {
     (r, p, w) \<leftarrow> MessagePipe_Read ops s p w;
     (rs, p, w) \<leftarrow> read_messages ops s n p w;
     Some (r # rs, p, w)
   }"

lemma MessagePipe_Write_alive:
  "MessagePipe_Write ops s m p w = Some (st, p', w') \<Longrightarrow> mp_dispatcher_alive p' = mp_dispatcher_alive p"
  by (auto simp: MessagePipe_Write_def Let_def split: if_splits bind_splits)

lemma MessagePipe_Read_alive:
  "MessagePipe_Read ops s p w = Some (r, p', w') \<Longrightarrow> mp_dispatcher_alive p' = mp_dispatcher_alive p"
  by (cases "mp_messages p s") (auto simp: MessagePipe_Read_def Let_def split: if_splits bind_splits)

context state_observer
begin

lemma write_messages_ok:
  assumes "pinv p w" "s < 2" "mp_dispatcher_alive p s" "mp_dispatcher_alive p (other_side s)"
  shows "\<exists>p' w'. write_messages ops s ms p w = Some (replicate (length ms) NO_ERROR, p', w') \<and> pinv p' w' \<and>
    mp_dispatcher_alive p' = mp_dispatcher_alive p \<and> mp_messages p' = (mp_messages p)(other_side s := mp_messages p (other_side s) @ ms)"
  using assms
proof (induction ms arbitrary: p w)
  case (Cons m ms)
  from pipe_write_ok [OF Cons.prems(1-3), of m] Cons.prems(4) obtain p1 w1 where
    p1: "MessagePipe_Write ops s m p w = Some (NO_ERROR, p1, w1)" "pinv p1 w1"
      "mp_messages p1 = (mp_messages p)(other_side s := mp_messages p (other_side s) @ [m])" by auto
  note al = MessagePipe_Write_alive [OF p1(1)]
  then have "mp_dispatcher_alive p1 s" "mp_dispatcher_alive p1 (other_side s)" using Cons.prems by simp_all
  from Cons.IH [OF p1(2) Cons.prems(2) this] obtain p2 w2 where
    "write_messages ops s ms p1 w1 = Some (replicate (length ms) NO_ERROR, p2, w2)" "pinv p2 w2"
      "mp_dispatcher_alive p2 = mp_dispatcher_alive p1" "mp_messages p2 = (mp_messages p1)(other_side s := mp_messages p1 (other_side s) @ ms)"
    by blast
  then show ?case using p1 al by auto
qed simp

lemma read_messages_ok:
  assumes "pinv p w" "s < 2" "mp_dispatcher_alive p s" "mp_messages p s = ms @ rest"
  shows "\<exists>p' w'. read_messages ops s (length ms) p w = Some (map (\<lambda>m. (NO_ERROR, Some m)) ms, p', w') \<and> pinv p' w' \<and>
    mp_messages p' = (mp_messages p)(s := rest)"
  using assms
proof (induction ms arbitrary: p w)
  case (Cons m ms)
  from pipe_read_ok [OF Cons.prems(1-3)] Cons.prems(4) obtain p1 w1 where
    p1: "MessagePipe_Read ops s p w = Some ((NO_ERROR, Some m), p1, w1)" "pinv p1 w1"
      "mp_messages p1 = (mp_messages p)(s := ms @ rest)" by auto
  have "mp_dispatcher_alive p1 s" using MessagePipe_Read_alive [OF p1(1)] Cons.prems(3) by simp
  moreover have "mp_messages p1 s = ms @ rest" using p1(3) by simp
  ultimately obtain p2 w2 where
    "read_messages ops s (length ms) p1 w1 = Some (map (\<lambda>m. (NO_ERROR, Some m)) ms, p2, w2)" "pinv p2 w2"
      "mp_messages p2 = (mp_messages p1)(s := rest)" using Cons.IH [OF p1(2) Cons.prems(2)] by blast
  then show ?case using p1 by auto
qed (auto simp: fun_upd_idem)

end

section \<open>Properties\<close>

abbreviation reach_pipe :: "lk_time \<Rightarrow> cpu_env \<Rightarrow> bool \<Rightarrow> observer msg_pipe \<Rightarrow> 'a world_scheme \<Rightarrow> bool" where
  "reach_pipe base e alloc_ok \<equiv> pipe_reach (world_ops e alloc_ok) (world_inv base e) obs_fresh obs_attached obs_informed"

text \<open>
  C16: however a message pipe is used, the signals of a live side are exact. Readable is satisfied exactly
  when its queue holds a message and satisfiable exactly when it does or the peer is alive; writable
  is satisfied and satisfiable exactly while the peer is alive; peer closed is satisfied exactly when
  the peer is gone. The observers of the side have been told. Reading, writing and closing never fail an assertion.
\<close>

theorem msg_pipe_signals_exact:
  assumes "reach_pipe base e alloc_ok p w" "s < 2" "mp_dispatcher_alive p s"
  shows "pipe_signals (mp_messages p s \<noteq> []) (mp_dispatcher_alive p (other_side s)) (st_signals (mp_state_tracker p s)) \<and>
    tracker_ok obs_attached obs_informed (mp_state_tracker p s) w \<and>
    MessagePipe_Write (world_ops e alloc_ok) s m p w \<noteq> None \<and> MessagePipe_Read (world_ops e alloc_ok) s p w \<noteq> None \<and>
    OnDispatcherDestruction (world_ops e alloc_ok) s p w \<noteq> None"
proof -
  note i = obs.pipe_reach_inv [OF assms(1)]
  from pipe_inv_side [OF i assms(2)] show ?thesis
    using obs.pipe_write_ok [OF i assms(2,3), of alloc_ok m] obs.pipe_read_ok [OF i assms(2,3), of alloc_ok]
      obs.pipe_close_ok [OF i assms(2,3), of alloc_ok] assms(3)
    by (auto simp: side_inv_def)
qed

lemma reach_pipe0: "reach_pipe 0 (env0 0) True (MessagePipe 7) world0"
  by (intro pipe_reach.pr_create world0_inv)

lemma MessagePipe_alive [simp]: "mp_dispatcher_alive (MessagePipe k) s" "mp_messages (MessagePipe k) s = []"
  by (simp_all add: MessagePipe_def Let_def)

theorem msg_pipe_signals_exact_witness:
  "pipe_signals False True (st_signals (mp_state_tracker (MessagePipe 7 :: observer msg_pipe) 0))"
  using msg_pipe_signals_exact [OF reach_pipe0, of 0 "\<lparr>pk_data = [], pk_handles = []\<rparr>"] by simp

text \<open>
  C17: what one side writes, the other reads, in order and unchanged. Writing a list of messages to an open pipe succeeds
  for each of them; after what was already queued, the other side then reads exactly these messages,
  and nothing more.
\<close>

theorem msg_pipe_roundtrip:
  assumes "reach_pipe base e alloc_ok p w" "s < 2" "mp_dispatcher_alive p s" "mp_dispatcher_alive p (other_side s)"
    and "mp_messages p (other_side s) = old"
  shows "\<exists>p1 w1 p2 w2. write_messages (world_ops e alloc_ok) s ms p w = Some (replicate (length ms) NO_ERROR, p1, w1) \<and>
    read_messages (world_ops e alloc_ok) (other_side s) (length (old @ ms)) p1 w1 =
      Some (map (\<lambda>m. (NO_ERROR, Some m)) (old @ ms), p2, w2) \<and> mp_messages p2 (other_side s) = []"
proof -
  have o: "other_side s < 2" using other_side_props [OF assms(2)] by simp
  note i = obs.pipe_reach_inv [OF assms(1)]
  from obs.write_messages_ok [OF i assms(2-4), of alloc_ok ms] assms(5) obtain p1 w1 where
    p1: "write_messages (world_ops e alloc_ok) s ms p w = Some (replicate (length ms) NO_ERROR, p1, w1)"
      "pipe_inv (world_inv base e) obs_attached obs_informed p1 w1" "mp_dispatcher_alive p1 (other_side s)"
      "mp_messages p1 (other_side s) = (old @ ms) @ []" using assms(4) by auto
  from obs.read_messages_ok [OF p1(2) o p1(3,4), of alloc_ok] obtain p2 w2 where
    "read_messages (world_ops e alloc_ok) (other_side s) (length (old @ ms)) p1 w1 = Some (map (\<lambda>m. (NO_ERROR, Some m)) (old @ ms), p2, w2)"
      "mp_messages p2 = (mp_messages p1)(other_side s := [])" by blast
  with p1(1) show ?thesis by auto
qed

theorem msg_pipe_roundtrip_witness:
  "\<exists>p1 w1 p2 w2. write_messages (world_ops (env0 0) True) 0 [\<lparr>pk_data = [1], pk_handles = []\<rparr>, \<lparr>pk_data = [2, 3], pk_handles = [9]\<rparr>]
      (MessagePipe 7) world0 = Some ([NO_ERROR, NO_ERROR], p1, w1) \<and>
    read_messages (world_ops (env0 0) True) 1 2 p1 w1 = Some ([(NO_ERROR, Some \<lparr>pk_data = [1], pk_handles = []\<rparr>),
      (NO_ERROR, Some \<lparr>pk_data = [2, 3], pk_handles = [9]\<rparr>)], p2, w2)"
  using msg_pipe_roundtrip [OF reach_pipe0, of 0 "[]" "[\<lparr>pk_data = [1], pk_handles = []\<rparr>, \<lparr>pk_data = [2, 3], pk_handles = [9]\<rparr>]"]
  by (auto simp: numeral_2_eq_2)

text \<open>
  A message that was begun but not accepted is invisible to waiters. When the last message of a side whose
  peer is gone is begun, the message is kept for the next read, which finds it; but readable is neither
  satisfied nor satisfiable any more, so that whoever waits for the message is told that it cannot come.
\<close>

lemma msg_pipe_pending_not_readable:
  assumes "reach_pipe base e alloc_ok p w" "md_side d < 2" "mp_dispatcher_alive p (md_side d)" "md_pending d = None"
    and "mp_messages p (md_side d) = [m]" "\<not> mp_dispatcher_alive p (other_side (md_side d))"
  shows "\<exists>n h d' p' w'. BeginRead (world_ops e alloc_ok) d p w = Some ((NO_ERROR, n, h), d', p', w') \<and>
    md_pending d' = Some m \<and> BeginRead (world_ops e alloc_ok) d' p' w' = Some ((NO_ERROR, n, h), d', p', w') \<and>
    \<not> bit (satisfied (st_signals (mp_state_tracker p' (md_side d)))) 0 \<and>
    \<not> bit (satisfiable (st_signals (mp_state_tracker p' (md_side d)))) 0"
proof -
  note i = obs.pipe_reach_inv [OF assms(1)]
  from obs.pipe_read_ok [OF i assms(2,3), of alloc_ok, unfolded assms(5) list.case] obtain p' w' where
    r: "MessagePipe_Read (world_ops e alloc_ok) (md_side d) p w = Some ((NO_ERROR, Some m), p', w')"
      "pipe_inv (world_inv base e) obs_attached obs_informed p' w'" and "mp_messages p' = (mp_messages p)(md_side d := tl [m])" by blast
  then have ms: "mp_messages p' (md_side d) = []" by simp
  have "mp_dispatcher_alive p' = mp_dispatcher_alive p" by (rule MessagePipe_Read_alive [OF r(1)])
  moreover have "side_inv obs_attached obs_informed p' w' (md_side d)" by (rule pipe_inv_side [OF r(2) assms(2)])
  ultimately have "pipe_signals False False (st_signals (mp_state_tracker p' (md_side d)))"
    using assms(3,6) ms by (simp add: side_inv_def)
  then have "\<not> bit (satisfied (st_signals (mp_state_tracker p' (md_side d)))) 0"
    "\<not> bit (satisfiable (st_signals (mp_state_tracker p' (md_side d)))) 0" by (simp_all add: pipe_signals_def)
  moreover let ?d = "d\<lparr>md_pending := Some m\<rparr>" and ?r = "(NO_ERROR, of_nat (length (pk_data m)), of_nat (length (pk_handles m)))"
  have "BeginRead (world_ops e alloc_ok) d p w = Some (?r, ?d, p', w')" using r(1) assms(4) by (simp add: BeginRead_def)
  moreover have "BeginRead (world_ops e alloc_ok) ?d p' w' = Some (?r, ?d, p', w')" by (simp add: BeginRead_def)
  moreover have "md_pending ?d = Some m" by simp
  ultimately show ?thesis by blast
qed

lemma msg_pipe_pending_not_readable_witness:
  "\<exists>(p :: observer msg_pipe) (w :: world) n h d' p' w'.
    BeginRead (world_ops (env0 0) True) \<lparr>md_side = 1, md_flags = 0, md_pending = None\<rparr> p w = Some ((NO_ERROR, n, h), d', p', w') \<and>
    md_pending d' \<noteq> None \<and> \<not> bit (satisfiable (st_signals (mp_state_tracker p' 1))) 0"
proof -
  let ?ops = "world_ops (env0 0) True" let ?m = "\<lparr>pk_data = [1], pk_handles = []\<rparr>" let ?p = "MessagePipe 7 :: observer msg_pipe"
  let ?d = "\<lparr>md_side = 1, md_flags = 0, md_pending = None\<rparr>"
  obtain p1 w1 where p1: "MessagePipe_Write ?ops 0 ?m ?p world0 = Some (NO_ERROR, p1, w1)" "mp_messages p1 1 = [?m]"
    using obs.pipe_write_ok [OF obs.pipe_reach_inv [OF reach_pipe0], of 0 True ?m] by auto
  have al: "mp_dispatcher_alive p1 s" for s using MessagePipe_Write_alive [OF p1(1)] by simp
  have r1: "reach_pipe 0 (env0 0) True p1 w1" by (rule pipe_reach.pr_write [OF reach_pipe0 _ _ p1(1)]) simp_all
  obtain p2 w2 where p2: "OnDispatcherDestruction ?ops 0 p1 w1 = Some (mp_messages p1 0, p2, w2)"
    "mp_messages p2 = (mp_messages p1)(0 := [])" "mp_dispatcher_alive p2 = (mp_dispatcher_alive p1)(0 := False)"
    using obs.pipe_close_ok [OF obs.pipe_reach_inv [OF r1], of 0 True] al by auto
  have r2: "reach_pipe 0 (env0 0) True p2 w2" by (rule pipe_reach.pr_close [OF r1 _ _ p2(1)]) (simp_all add: al)
  have "mp_dispatcher_alive p2 (md_side ?d)" "mp_messages p2 (md_side ?d) = [?m]" "\<not> mp_dispatcher_alive p2 (other_side (md_side ?d))"
    using p2(2,3) p1(2) al by simp_all
  from msg_pipe_pending_not_readable [OF r2 _ this(1) _ this(2,3)] obtain n h d' p' w' where
    "BeginRead ?ops ?d p2 w2 = Some ((NO_ERROR, n, h), d', p', w')" "md_pending d' = Some ?m"
      "\<not> bit (satisfiable (st_signals (mp_state_tracker p' 1))) 0" by auto
  then show ?thesis by blast
qed

end
