(* ===== verification/Vm_Object.thy ===== *)
theory Vm_Object
  imports Mx_Prelude
begin

text \<open>
  Virtual memory objects: \<^verbatim>\<open>kernel/kernel/vm/vm_object.cpp\<close>. An object has a size and an array of pages, each
  allocated when it is first touched. Offsets and lengths are 64-bit quantities, as natural numbers with the wrap-around
  written out. A page is its bytes; the physical page allocator is the number of pages it has left,
  since the object zeroes each page it gets. A copy to or from user memory may fault: the copy function gives, for
  an offset and a length, its status and how many bytes it moved.
\<close>

section \<open>Data\<close>

definition PAGE_SIZE :: nat where "PAGE_SIZE = 4096"

type_synonym vm_page = "u8 list"

record vm_object =
  vo_magic :: bool
  vo_size :: nat
  vo_has_array :: bool
  vo_page_array :: "vm_page option list"

definition ROUNDUP_PAGE_SIZE :: "nat \<Rightarrow> nat" where
  "ROUNDUP_PAGE_SIZE x = (x + (PAGE_SIZE - 1)) mod 2 ^ 64 div PAGE_SIZE * PAGE_SIZE"

definition VMO_MAX_SIZE :: nat where
  "VMO_MAX_SIZE = (2 ^ 64 - 1) div PAGE_SIZE * PAGE_SIZE"

definition OffsetToIndex :: "nat \<Rightarrow> nat" where
  "OffsetToIndex offset = offset div PAGE_SIZE"

text \<open>The trimmed length, or None when the range starts beyond the limit or wraps.\<close>

definition TrimRange :: "nat \<Rightarrow> nat \<Rightarrow> nat \<Rightarrow> nat option" where
  "TrimRange offset len trim_to_len =
     (if (offset + len) mod 2 ^ 64 < offset then None
      else if offset > trim_to_len then None
      else Some (if offset + len > trim_to_len then trim_to_len - offset else len))"

definition ZeroPage :: vm_page where
  "ZeroPage = replicate PAGE_SIZE 0"

section \<open>Creation and pages\<close>

definition VmObject :: vm_object where
  "VmObject = \<lparr>vo_magic = True, vo_size = 0, vo_has_array = False, vo_page_array = []\<rparr>"

definition Resize :: "bool \<Rightarrow> nat \<Rightarrow> vm_object \<Rightarrow> (status \<times> vm_object) option" where
  "Resize alloc_ok s v = do {
     kassert (vo_magic v);
     if ROUNDUP_PAGE_SIZE s > VMO_MAX_SIZE then Some (ERR_TOO_BIG, v)
     else if vo_size v \<noteq> 0 then Some (ERR_NOT_SUPPORTED, v)
     else do {
       let page_count = OffsetToIndex (ROUNDUP_PAGE_SIZE s);
       let v = v\<lparr>vo_size := s\<rparr>;
       kassert (\<not> vo_has_array v);
       if \<not> alloc_ok then Some (ERR_NO_MEMORY, v)
       else Some (NO_ERROR, v\<lparr>vo_has_array := True, vo_page_array := replicate page_count None\<rparr>)
     }
   }"

text \<open>\<^verbatim>\<open>Create\<close>: None inside is the null pointer, None outside the failed assertion.\<close>

definition VmObject_Create :: "bool \<Rightarrow> bool \<Rightarrow> nat \<Rightarrow> vm_object option option" where
  "VmObject_Create alloc_ok array_ok sz =
     (if sz > VMO_MAX_SIZE then Some None
      else if \<not> alloc_ok then Some None
      else do {
        (err, v) \<leftarrow> Resize array_ok sz VmObject;
        if err = ERR_NO_MEMORY then Some None
        else do { kassert (err = NO_ERROR); Some (Some v) }
      })"

text \<open>The destructor gives every page back to the allocator.\<close>

definition VmObject_destroy :: "vm_object \<Rightarrow> nat \<Rightarrow> (vm_object \<times> nat) option" where
  "VmObject_destroy v free = do {
     kassert (vo_magic v);
     let count = length (filter (\<lambda>p. p \<noteq> None) (vo_page_array v));
     Some (v\<lparr>vo_magic := False, vo_has_array := False, vo_page_array := []\<rparr>, free + count)
   }"

definition AddPageToArray :: "nat \<Rightarrow> vm_page \<Rightarrow> vm_object \<Rightarrow> vm_object option" where
  "AddPageToArray index p v = do {
     kassert (vo_magic v);
     kassert (vo_has_array v);
     kassert (index < length (vo_page_array v));
     kassert (vo_page_array v ! index = None);
     Some (v\<lparr>vo_page_array := (vo_page_array v)[index := Some p]\<rparr>)
   }"

definition AddPage :: "vm_page \<Rightarrow> nat \<Rightarrow> vm_object \<Rightarrow> (status \<times> vm_object) option" where
  "AddPage p offset v = do {
     kassert (vo_magic v);
     if offset \<ge> vo_size v then Some (ERR_OUT_OF_RANGE, v)
     else do { v \<leftarrow> AddPageToArray (OffsetToIndex offset) p v; Some (NO_ERROR, v) }
   }"

definition GetPage :: "nat \<Rightarrow> vm_object \<Rightarrow> vm_page option option" where
  "GetPage offset v = do {
     kassert (vo_magic v);
     if offset \<ge> vo_size v then Some None
     else do { kassert (OffsetToIndex offset < length (vo_page_array v)); Some (vo_page_array v ! OffsetToIndex offset) }
   }"

text \<open>\<^verbatim>\<open>FaultPageLocked\<close>: whether there is a page now, the object, and the pages left in the allocator.\<close>

definition FaultPageLocked :: "nat \<Rightarrow> vm_object \<Rightarrow> nat \<Rightarrow> (bool \<times> vm_object \<times> nat) option" where
  "FaultPageLocked offset v free = do {
     kassert (vo_magic v);
     if offset \<ge> vo_size v then Some (False, v, free)
     else do {
       let index = OffsetToIndex offset;
       kassert (index < length (vo_page_array v));
       if vo_page_array v ! index \<noteq> None then Some (True, v, free)
       else if free = 0 then Some (False, v, free)
       else do { v \<leftarrow> AddPageToArray index ZeroPage v; Some (True, v, free - 1) }
     }
   }"

definition FaultPage :: "nat \<Rightarrow> vm_object \<Rightarrow> nat \<Rightarrow> (bool \<times> vm_object \<times> nat) option" where
  "FaultPage offset v free = do { kassert (vo_magic v); FaultPageLocked offset v free }"

text \<open>The offsets a loop \<^verbatim>\<open>for (o = offset; o < end; o += PAGE_SIZE)\<close> visits.\<close>

lemma PAGE_SIZE_pos [simp]: "PAGE_SIZE > 0" "PAGE_SIZE \<noteq> 0" "0 < PAGE_SIZE"
  by (simp_all add: PAGE_SIZE_def)

function page_steps :: "nat \<Rightarrow> nat \<Rightarrow> nat list" where
  "page_steps p n = (if p < n then p # page_steps (p + PAGE_SIZE) n else [])"
  by pat_completeness auto
termination
  by (relation "measure (\<lambda>(p, n). n - p)") (auto simp: PAGE_SIZE_def)

declare page_steps.simps [simp del]

text \<open>The second loop of \<^verbatim>\<open>CommitRange\<close>: one page of the allocated list for every offset.\<close>

fun commit_pages :: "nat list \<Rightarrow> nat \<Rightarrow> vm_object \<Rightarrow> (nat \<times> vm_object) option" where
  "commit_pages [] pages v = Some (pages, v)"
| "commit_pages (p # ps) pages v = do {
     kassert (pages > 0);
     v \<leftarrow> AddPageToArray (OffsetToIndex p) ZeroPage v;
     commit_pages ps (pages - 1) v
   }"

definition page_missing :: "vm_object \<Rightarrow> nat \<Rightarrow> bool" where
  "page_missing v offset \<longleftrightarrow> vo_page_array v ! OffsetToIndex offset = None"

definition CommitRange :: "nat \<Rightarrow> nat \<Rightarrow> vm_object \<Rightarrow> nat \<Rightarrow> ((status + nat) \<times> vm_object \<times> nat) option" where
  "CommitRange offset len v free = do {
     kassert (vo_magic v);
     case TrimRange offset len (vo_size v) of
       None \<Rightarrow> Some (Inl ERR_OUT_OF_RANGE, v, free)
     | Some len \<Rightarrow>
         if len = 0 then Some (Inr 0, v, free)
         else do {
           let end = ROUNDUP_PAGE_SIZE ((offset + len) mod 2 ^ 64);
           kassert (end > offset);
           let steps = page_steps offset end;
           kassert (\<forall>p\<in>set steps. OffsetToIndex p < length (vo_page_array v));
           let count = length (filter (page_missing v) steps);
           if count = 0 then Some (Inr 0, v, free)
           else if free < count then Some (Inl ERR_NO_MEMORY, v, free)
           else do {
             (left, v) \<leftarrow> commit_pages steps count v;
             kassert (left = 0);
             Some (Inr len, v, free - count)
           }
         }
   }"

text \<open>
  \<^verbatim>\<open>CommitRangeContiguous\<close>: whether the allocator has a contiguous run of the pages needed is an argument.
\<close>

definition CommitRangeContiguous ::
  "(nat \<Rightarrow> bool) \<Rightarrow> nat \<Rightarrow> nat \<Rightarrow> vm_object \<Rightarrow> nat \<Rightarrow> ((status + nat) \<times> vm_object \<times> nat) option" where
  "CommitRangeContiguous run_free offset len v free = do {
     kassert (vo_magic v);
     case TrimRange offset len (vo_size v) of
       None \<Rightarrow> Some (Inl ERR_OUT_OF_RANGE, v, free)
     | Some len \<Rightarrow>
         if len = 0 then Some (Inr 0, v, free)
         else do {
           let end = ROUNDUP_PAGE_SIZE ((offset + len) mod 2 ^ 64);
           kassert (end > offset);
           let steps = page_steps offset end;
           kassert (\<forall>p\<in>set steps. OffsetToIndex p < length (vo_page_array v));
           if \<exists>p\<in>set steps. \<not> page_missing v p then Some (Inl ERR_NO_MEMORY, v, free)
           else do {
             let count = length steps;
             kassert (count = len div PAGE_SIZE);
             if \<not> (count \<le> free \<and> run_free count) then Some (Inl ERR_NO_MEMORY, v, free)
             else do {
               (left, v) \<leftarrow> commit_pages steps count v;
               Some (Inr (count * PAGE_SIZE), v, free - count)
             }
           }
         }
   }"

section \<open>Reading and writing\<close>

type_synonym copy_func = "nat \<Rightarrow> nat \<Rightarrow> status \<times> nat"

definition moved :: "status \<times> nat \<Rightarrow> nat \<Rightarrow> nat" where
  "moved r tocopy = (if fst r = NO_ERROR then tocopy else min (snd r) tocopy)"

definition put_bytes :: "nat \<Rightarrow> 'a list \<Rightarrow> 'a list \<Rightarrow> 'a list" where
  "put_bytes k bs xs = take k xs @ bs @ drop (k + length bs) xs"

definition store_page :: "nat \<Rightarrow> nat \<Rightarrow> u8 list \<Rightarrow> vm_object \<Rightarrow> vm_object" where
  "store_page index page_offset bs v =
     (case vo_page_array v ! index of
        None \<Rightarrow> v
      | Some p \<Rightarrow> v\<lparr>vo_page_array := (vo_page_array v)[index := Some (put_bytes page_offset bs p)]\<rparr>)"

function write_loop ::
  "copy_func \<Rightarrow> u8 list \<Rightarrow> nat \<Rightarrow> nat \<Rightarrow> nat \<Rightarrow> vm_object \<Rightarrow> nat \<Rightarrow> ((status \<times> nat) \<times> vm_object \<times> nat) option" where
  "write_loop copyfunc data offset dest_offset len v free =
     (if len = 0 then Some ((NO_ERROR, dest_offset), v, free)
      else
        let page_offset = offset mod PAGE_SIZE; tocopy = min (PAGE_SIZE - page_offset) len in
        Option.bind (FaultPageLocked offset v free) (\<lambda>(ok, v, free).
          if \<not> ok then Some ((ERR_NO_MEMORY, dest_offset), v, free)
          else
            let r = copyfunc dest_offset tocopy;
                v = store_page (OffsetToIndex offset) page_offset (take (moved r tocopy) (drop dest_offset data)) v
            in if fst r \<noteq> NO_ERROR then Some ((fst r, dest_offset), v, free)
               else write_loop copyfunc data (offset + tocopy) (dest_offset + tocopy) (len - tocopy) v free))"
  by pat_completeness auto
termination
  by (relation "measure (\<lambda>(c, d, o1, o2, len, v, f). len)") (auto simp: PAGE_SIZE_def)

function read_loop ::
  "copy_func \<Rightarrow> nat \<Rightarrow> nat \<Rightarrow> nat \<Rightarrow> u8 list \<Rightarrow> vm_object \<Rightarrow> nat \<Rightarrow> ((status \<times> nat \<times> u8 list) \<times> vm_object \<times> nat) option" where
  "read_loop copyfunc offset dest_offset len out v free =
     (if len = 0 then Some ((NO_ERROR, dest_offset, out), v, free)
      else
        let page_offset = offset mod PAGE_SIZE; tocopy = min (PAGE_SIZE - page_offset) len in
        Option.bind (FaultPageLocked offset v free) (\<lambda>(ok, v, free).
          if \<not> ok then Some ((ERR_NO_MEMORY, dest_offset, out), v, free)
          else
            let r = copyfunc dest_offset tocopy;
                page = (case vo_page_array v ! OffsetToIndex offset of None \<Rightarrow> [] | Some p \<Rightarrow> p);
                out = out @ take (moved r tocopy) (drop page_offset page)
            in if fst r \<noteq> NO_ERROR then Some ((fst r, dest_offset, out), v, free)
               else read_loop copyfunc (offset + tocopy) (dest_offset + tocopy) (len - tocopy) out v free))"
  by pat_completeness auto
termination
  by (relation "measure (\<lambda>(c, o1, o2, len, out, v, f). len)") (auto simp: PAGE_SIZE_def)

declare write_loop.simps [simp del] read_loop.simps [simp del]

definition vmo_write ::
  "copy_func \<Rightarrow> u8 list \<Rightarrow> nat \<Rightarrow> nat \<Rightarrow> vm_object \<Rightarrow> nat \<Rightarrow> ((status \<times> nat) \<times> vm_object \<times> nat) option" where
  "vmo_write copyfunc data offset len v free = do {
     kassert (vo_magic v);
     case TrimRange offset len (vo_size v) of
       None \<Rightarrow> Some ((ERR_OUT_OF_RANGE, 0), v, free)
     | Some len \<Rightarrow> write_loop copyfunc data offset 0 len v free
   }"

definition vmo_read ::
  "copy_func \<Rightarrow> nat \<Rightarrow> nat \<Rightarrow> vm_object \<Rightarrow> nat \<Rightarrow> ((status \<times> nat \<times> u8 list) \<times> vm_object \<times> nat) option" where
  "vmo_read copyfunc offset len v free = do {
     kassert (vo_magic v);
     case TrimRange offset len (vo_size v) of
       None \<Rightarrow> Some ((ERR_OUT_OF_RANGE, 0, []), v, free)
     | Some len \<Rightarrow> read_loop copyfunc offset 0 len [] v free
   }"

definition memcpy_func :: copy_func where
  "memcpy_func offset len = (NO_ERROR, len)"

text \<open>
  The kernel variants assert that the pointer is a kernel address, the user variants that it is a
  user address.
\<close>

definition VmObject_Read ::
  "bool \<Rightarrow> nat \<Rightarrow> nat \<Rightarrow> vm_object \<Rightarrow> nat \<Rightarrow> ((status \<times> nat \<times> u8 list) \<times> vm_object \<times> nat) option" where
  "VmObject_Read kernel_ptr offset len v free = do {
     kassert (vo_magic v); kassert kernel_ptr; vmo_read memcpy_func offset len v free }"

definition VmObject_Write ::
  "bool \<Rightarrow> u8 list \<Rightarrow> nat \<Rightarrow> nat \<Rightarrow> vm_object \<Rightarrow> nat \<Rightarrow> ((status \<times> nat) \<times> vm_object \<times> nat) option" where
  "VmObject_Write kernel_ptr data offset len v free = do {
     kassert (vo_magic v); kassert kernel_ptr; vmo_write memcpy_func data offset len v free }"

definition ReadUser ::
  "bool \<Rightarrow> copy_func \<Rightarrow> nat \<Rightarrow> nat \<Rightarrow> vm_object \<Rightarrow> nat \<Rightarrow> ((status \<times> nat \<times> u8 list) \<times> vm_object \<times> nat) option" where
  "ReadUser user_ptr copyfunc offset len v free = do {
     kassert (vo_magic v); kassert user_ptr; vmo_read copyfunc offset len v free }"

definition WriteUser ::
  "bool \<Rightarrow> copy_func \<Rightarrow> u8 list \<Rightarrow> nat \<Rightarrow> nat \<Rightarrow> vm_object \<Rightarrow> nat \<Rightarrow> ((status \<times> nat) \<times> vm_object \<times> nat) option" where
  "WriteUser user_ptr copyfunc data offset len v free = do {
     kassert (vo_magic v); kassert user_ptr; vmo_write copyfunc data offset len v free }"

section \<open>An object is an array of bytes\<close>

definition vo_ok :: "vm_object \<Rightarrow> bool" where
  "vo_ok v \<longleftrightarrow> vo_magic v \<and> vo_has_array v \<and> vo_size v \<le> length (vo_page_array v) * PAGE_SIZE \<and>
     (\<forall>p\<in>set (vo_page_array v). case p of None \<Rightarrow> True | Some bs \<Rightarrow> length bs = PAGE_SIZE)"

definition vmo_byte :: "vm_object \<Rightarrow> nat \<Rightarrow> u8" where
  "vmo_byte v k = (case vo_page_array v ! (k div PAGE_SIZE) of None \<Rightarrow> 0 | Some p \<Rightarrow> p ! (k mod PAGE_SIZE))"

definition vmo_bytes :: "vm_object \<Rightarrow> nat \<Rightarrow> nat \<Rightarrow> u8 list" where
  "vmo_bytes v offset len = map (vmo_byte v) [offset..<offset + len]"

definition missing_pages :: "vm_object \<Rightarrow> nat" where
  "missing_pages v = length (filter (\<lambda>p. p = None) (vo_page_array v))"

lemma vo_index: "vo_ok v \<Longrightarrow> k < vo_size v \<Longrightarrow> k div PAGE_SIZE < length (vo_page_array v)"
  using div_less_iff_less_mult [of PAGE_SIZE k "length (vo_page_array v)"] by (simp add: vo_ok_def)

lemma missing_pages_update:
  assumes "i < length ps" "ps ! i = None"
  shows "length (filter (\<lambda>p. p = None) ps) = Suc (length (filter (\<lambda>p. p = None) (ps[i := Some p])))"
  using assms
proof (induction ps arbitrary: i)
  case (Cons a ps)
  then show ?case by (cases i) auto
qed simp

lemma missing_pages_same:
  assumes "i < length ps" "ps ! i = Some q"
  shows "length (filter (\<lambda>p. p = None) (ps[i := Some p])) = length (filter (\<lambda>p. p = None) ps)"
  using assms
proof (induction ps arbitrary: i)
  case (Cons a ps)
  then show ?case by (cases i) auto
qed simp

lemma FaultPageLocked_ok:
  assumes v: "vo_ok v" "k < vo_size v" and f: "missing_pages v \<le> free"
  shows "\<exists>v' free'. FaultPageLocked k v free = Some (True, v', free') \<and> vo_ok v' \<and> vo_size v' = vo_size v \<and>
    missing_pages v' \<le> free' \<and> (\<forall>j<vo_size v. vmo_byte v' j = vmo_byte v j) \<and> length (vo_page_array v') = length (vo_page_array v) \<and>
    (\<exists>p. vo_page_array v' ! (k div PAGE_SIZE) = Some p \<and> length p = PAGE_SIZE)"
proof -
  let ?i = "k div PAGE_SIZE"
  have i: "?i < length (vo_page_array v)" by (rule vo_index [OF v])
  have m: "vo_magic v" "vo_has_array v" using v by (simp_all add: vo_ok_def)
  show ?thesis
  proof (cases "vo_page_array v ! ?i")
    case (Some p)
    moreover have "length p = PAGE_SIZE" using v(1) nth_mem [OF i] Some by (auto simp: vo_ok_def)
    ultimately show ?thesis using assms i m by (auto simp: FaultPageLocked_def OffsetToIndex_def Let_def)
  next
    case None
    let ?v = "v\<lparr>vo_page_array := (vo_page_array v)[?i := Some ZeroPage]\<rparr>"
    have ms: "missing_pages v = Suc (missing_pages ?v)"
      unfolding missing_pages_def using missing_pages_update [OF i None] by simp
    then have "FaultPageLocked k v free = Some (True, ?v, free - 1)"
      using f v i m None by (simp add: FaultPageLocked_def AddPageToArray_def OffsetToIndex_def Let_def)
    moreover have "vo_ok ?v"
      using v(1) by (auto simp: vo_ok_def ZeroPage_def dest!: set_update_subset_insert [THEN subsetD])
    moreover have "vmo_byte ?v j = vmo_byte v j" if "j < vo_size v" for j
      using None i vo_index [OF v(1) that] by (auto simp: vmo_byte_def ZeroPage_def nth_list_update)
    ultimately show ?thesis using ms f i by (auto simp: ZeroPage_def)
  qed
qed

lemma nth_put_bytes:
  assumes "k + length bs \<le> length xs" "i < length xs"
  shows "put_bytes k bs xs ! i = (if k \<le> i \<and> i < k + length bs then bs ! (i - k) else xs ! i)"
  using assms by (auto simp: put_bytes_def nth_append min_def)

lemma length_put_bytes [simp]: "k + length bs \<le> length xs \<Longrightarrow> length (put_bytes k bs xs) = length xs"
  by (simp add: put_bytes_def)

lemma page_chunk:
  assumes "k mod PAGE_SIZE + n \<le> PAGE_SIZE"
  shows "j div PAGE_SIZE = k div PAGE_SIZE \<and> k mod PAGE_SIZE \<le> j mod PAGE_SIZE \<and> j mod PAGE_SIZE < k mod PAGE_SIZE + n
    \<longleftrightarrow> k \<le> j \<and> j < k + n"
proof
  assume "j div PAGE_SIZE = k div PAGE_SIZE \<and> k mod PAGE_SIZE \<le> j mod PAGE_SIZE \<and> j mod PAGE_SIZE < k mod PAGE_SIZE + n"
  then show "k \<le> j \<and> j < k + n"
    using div_mult_mod_eq [of j PAGE_SIZE] div_mult_mod_eq [of k PAGE_SIZE] by (metis add_le_cancel_left add_less_cancel_left add.assoc)
next
  assume j: "k \<le> j \<and> j < k + n"
  then obtain d where d: "j = k + d" "d < n" by (metis add_less_cancel_left le_Suc_ex)
  have "j = k div PAGE_SIZE * PAGE_SIZE + (k mod PAGE_SIZE + d)" using d by simp
  moreover have "k mod PAGE_SIZE + d < PAGE_SIZE" using assms d by simp
  ultimately have "j div PAGE_SIZE = k div PAGE_SIZE" "j mod PAGE_SIZE = k mod PAGE_SIZE + d"
    by (metis div_mult_self3 PAGE_SIZE_pos(2) div_less add_0_right, metis mod_mult_self3 mod_less)
  then show "j div PAGE_SIZE = k div PAGE_SIZE \<and> k mod PAGE_SIZE \<le> j mod PAGE_SIZE \<and> j mod PAGE_SIZE < k mod PAGE_SIZE + n"
    using d by simp
qed

lemma store_page_ok:
  assumes v: "vo_ok v" "k < vo_size v" "vo_page_array v ! (k div PAGE_SIZE) = Some p" "length p = PAGE_SIZE"
    and bs: "k mod PAGE_SIZE + length bs \<le> PAGE_SIZE"
  defines "v' \<equiv> store_page (k div PAGE_SIZE) (k mod PAGE_SIZE) bs v"
  shows "vo_ok v'" "vo_size v' = vo_size v" "missing_pages v' = missing_pages v"
    "j < vo_size v \<Longrightarrow> vmo_byte v' j = (if k \<le> j \<and> j < k + length bs then bs ! (j - k) else vmo_byte v j)"
proof -
  let ?i = "k div PAGE_SIZE" and ?q = "put_bytes (k mod PAGE_SIZE) bs p"
  have v': "v' = v\<lparr>vo_page_array := (vo_page_array v)[?i := Some ?q]\<rparr>" using v by (simp add: v'_def store_page_def)
  have i: "?i < length (vo_page_array v)" by (rule vo_index [OF v(1,2)])
  show "vo_ok v'"
    using v bs by (auto simp: v' vo_ok_def dest!: set_update_subset_insert [THEN subsetD])
  show "vo_size v' = vo_size v" by (simp add: v')
  show "missing_pages v' = missing_pages v"
    unfolding missing_pages_def v' using missing_pages_same [OF i v(3)] by simp
  show "vmo_byte v' j = (if k \<le> j \<and> j < k + length bs then bs ! (j - k) else vmo_byte v j)" if "j < vo_size v"
  proof (cases "j div PAGE_SIZE = ?i")
    case True
    then have "j - k = j mod PAGE_SIZE - k mod PAGE_SIZE"
      using div_mult_mod_eq [of j PAGE_SIZE] div_mult_mod_eq [of k PAGE_SIZE] by (metis diff_cancel)
    then show ?thesis
      using True v(3,4) bs i page_chunk [OF bs, of j] by (simp add: v' vmo_byte_def nth_put_bytes)
  next
    case False
    then show ?thesis using page_chunk [OF bs, of j] by (auto simp: v' vmo_byte_def)
  qed
qed

lemma chunk_bounds:
  fixes len offset :: nat
  defines "n \<equiv> min (PAGE_SIZE - offset mod PAGE_SIZE) len"
  shows "0 < len \<Longrightarrow> 0 < n" "n \<le> len" "offset mod PAGE_SIZE + n \<le> PAGE_SIZE"
  using mod_less_divisor [OF PAGE_SIZE_pos(1), of offset] unfolding n_def by linarith+

text \<open>The page walks are a flat byte update and a flat byte read.\<close>

lemma write_loop_ok:
  assumes "vo_ok v" "offset + len \<le> vo_size v" "missing_pages v \<le> free" "dest + len \<le> length data"
    and copy: "\<And>a b. fst (copyfunc a b) = NO_ERROR"
  shows "\<exists>v' free'. write_loop copyfunc data offset dest len v free = Some ((NO_ERROR, dest + len), v', free') \<and>
    vo_ok v' \<and> vo_size v' = vo_size v \<and> missing_pages v' \<le> free' \<and>
    (\<forall>j<vo_size v. vmo_byte v' j = (if offset \<le> j \<and> j < offset + len then data ! (dest + (j - offset)) else vmo_byte v j))"
  using assms(1-4)
proof (induction len arbitrary: offset dest v free rule: less_induct)
  case (less len)
  show ?case
  proof (cases "len = 0")
    case True
    then show ?thesis using less.prems by (subst write_loop.simps) auto
  next
    case False
    define n where "n = min (PAGE_SIZE - offset mod PAGE_SIZE) len"
    define bs where "bs = take n (drop dest data)"
    have n: "0 < n" "n \<le> len" "offset mod PAGE_SIZE + n \<le> PAGE_SIZE"
      using False chunk_bounds [where len = len and offset = offset] by (simp_all add: n_def)
    have bs: "length bs = n" "\<And>i. i < n \<Longrightarrow> bs ! i = data ! (dest + i)" using n less.prems by (auto simp: bs_def)
    have k: "offset < vo_size v" using n less.prems by simp
    obtain v1 f1 p where v1: "FaultPageLocked offset v free = Some (True, v1, f1)" "vo_ok v1" "vo_size v1 = vo_size v"
      "missing_pages v1 \<le> f1" "\<forall>j<vo_size v. vmo_byte v1 j = vmo_byte v j"
      "vo_page_array v1 ! (offset div PAGE_SIZE) = Some p" "length p = PAGE_SIZE"
      using FaultPageLocked_ok [OF less.prems(1) k less.prems(3)] by blast
    define v2 where "v2 = store_page (offset div PAGE_SIZE) (offset mod PAGE_SIZE) bs v1"
    note st = store_page_ok [OF v1(2) _ v1(6,7), of bs, folded v2_def, unfolded bs(1) v1(3), OF k n(3)]
    have "\<exists>v' free'. write_loop copyfunc data (offset + n) (dest + n) (len - n) v2 f1 =
        Some ((NO_ERROR, dest + n + (len - n)), v', free') \<and>
        vo_ok v' \<and> vo_size v' = vo_size v2 \<and> missing_pages v' \<le> free' \<and>
        (\<forall>j<vo_size v2. vmo_byte v' j =
          (if offset + n \<le> j \<and> j < offset + n + (len - n) then data ! (dest + n + (j - (offset + n))) else vmo_byte v2 j))"
      by (rule less.IH) (use n less.prems st v1(4) in auto)
    then obtain v3 f3 where v3: "write_loop copyfunc data (offset + n) (dest + n) (len - n) v2 f1 = Some ((NO_ERROR, dest + len), v3, f3)"
      "vo_ok v3" "vo_size v3 = vo_size v" "missing_pages v3 \<le> f3"
      and b: "\<And>j. j < vo_size v \<Longrightarrow> vmo_byte v3 j =
        (if offset + n \<le> j \<and> j < offset + len then data ! (dest + n + (j - (offset + n))) else vmo_byte v2 j)"
      using n(2) st(2) by auto
    have "write_loop copyfunc data offset dest len v free = Some ((NO_ERROR, dest + len), v3, f3)"
      using False v3(1) v1(1) copy
      by (subst write_loop.simps) (simp add: Let_def OffsetToIndex_def moved_def flip: n_def bs_def v2_def)
    moreover have "vmo_byte v3 j = (if offset \<le> j \<and> j < offset + len then data ! (dest + (j - offset)) else vmo_byte v j)"
      if j: "j < vo_size v" for j
      using b [OF j] st(4) [OF j] v1(5) j n(2) bs(2) [of "j - offset"] by auto
    ultimately show ?thesis using v3 by blast
  qed
qed

lemma vmo_bytes_take:
  assumes "vo_page_array v ! (k div PAGE_SIZE) = Some p" "length p = PAGE_SIZE" "k mod PAGE_SIZE + n \<le> PAGE_SIZE"
  shows "take n (drop (k mod PAGE_SIZE) p) = vmo_bytes v k n"
proof (rule nth_equalityI)
  fix i assume "i < length (take n (drop (k mod PAGE_SIZE) p))"
  then have i: "i < n" by simp
  then have "(k + i) div PAGE_SIZE = k div PAGE_SIZE \<and> k mod PAGE_SIZE \<le> (k + i) mod PAGE_SIZE"
    using page_chunk [OF assms(3), of "k + i"] by simp
  moreover from this have "(k + i) mod PAGE_SIZE = k mod PAGE_SIZE + i"
    using div_mult_mod_eq [of "k + i" PAGE_SIZE] div_mult_mod_eq [of k PAGE_SIZE] by (metis add.assoc add_left_cancel)
  ultimately show "take n (drop (k mod PAGE_SIZE) p) ! i = vmo_bytes v k n ! i"
    using i assms by (simp add: vmo_bytes_def vmo_byte_def)
qed (use assms in \<open>simp add: vmo_bytes_def\<close>)

lemma vmo_bytes_split: "n \<le> len \<Longrightarrow> vmo_bytes v k n @ vmo_bytes v (k + n) (len - n) = vmo_bytes v k len"
  using upt_add_eq_append [of k "k + n" "len - n"] by (simp add: vmo_bytes_def flip: map_append)

lemma vmo_bytes_cong:
  "(\<And>j. k \<le> j \<Longrightarrow> j < k + n \<Longrightarrow> vmo_byte v' j = vmo_byte v j) \<Longrightarrow> vmo_bytes v' k n = vmo_bytes v k n"
  by (simp add: vmo_bytes_def)

lemma read_loop_ok:
  assumes "vo_ok v" "offset + len \<le> vo_size v" "missing_pages v \<le> free"
    and copy: "\<And>a b. fst (copyfunc a b) = NO_ERROR"
  shows "\<exists>v' free'. read_loop copyfunc offset dest len out v free =
      Some ((NO_ERROR, dest + len, out @ vmo_bytes v offset len), v', free') \<and>
    vo_ok v' \<and> vo_size v' = vo_size v \<and> missing_pages v' \<le> free' \<and> (\<forall>j<vo_size v. vmo_byte v' j = vmo_byte v j)"
  using assms(1-3)
proof (induction len arbitrary: offset dest out v free rule: less_induct)
  case (less len)
  show ?case
  proof (cases "len = 0")
    case True
    then show ?thesis using less.prems by (subst read_loop.simps) (simp add: vmo_bytes_def)
  next
    case False
    define n where "n = min (PAGE_SIZE - offset mod PAGE_SIZE) len"
    have n: "0 < n" "n \<le> len" "offset mod PAGE_SIZE + n \<le> PAGE_SIZE"
      using False chunk_bounds [where len = len and offset = offset] by (simp_all add: n_def)
    have k: "offset < vo_size v" using n less.prems by simp
    obtain v1 f1 p where v1: "FaultPageLocked offset v free = Some (True, v1, f1)" "vo_ok v1" "vo_size v1 = vo_size v"
      "missing_pages v1 \<le> f1" "\<forall>j<vo_size v. vmo_byte v1 j = vmo_byte v j"
      "vo_page_array v1 ! (offset div PAGE_SIZE) = Some p" "length p = PAGE_SIZE"
      using FaultPageLocked_ok [OF less.prems(1) k less.prems(3)] by blast
    have t: "take n (drop (offset mod PAGE_SIZE) p) = vmo_bytes v1 offset n" by (rule vmo_bytes_take [OF v1(6,7) n(3)])
    have same: "vmo_bytes v1 a b = vmo_bytes v a b" if "a + b \<le> vo_size v" for a b
      by (rule vmo_bytes_cong) (use v1(5) that in auto)
    have "\<exists>v' free'. read_loop copyfunc (offset + n) (dest + n) (len - n) (out @ vmo_bytes v1 offset n) v1 f1 =
        Some ((NO_ERROR, dest + n + (len - n), (out @ vmo_bytes v1 offset n) @ vmo_bytes v1 (offset + n) (len - n)), v', free') \<and>
        vo_ok v' \<and> vo_size v' = vo_size v1 \<and> missing_pages v' \<le> free' \<and> (\<forall>j<vo_size v1. vmo_byte v' j = vmo_byte v1 j)"
      by (rule less.IH) (use n less.prems v1 in auto)
    then obtain v3 f3 where v3: "read_loop copyfunc (offset + n) (dest + n) (len - n) (out @ vmo_bytes v1 offset n) v1 f1 =
        Some ((NO_ERROR, dest + len, out @ vmo_bytes v1 offset len), v3, f3)"
      "vo_ok v3" "vo_size v3 = vo_size v" "missing_pages v3 \<le> f3" "\<forall>j<vo_size v. vmo_byte v3 j = vmo_byte v1 j"
      using n(2) v1(3) vmo_bytes_split [OF n(2), of v1 offset] by auto
    have "read_loop copyfunc offset dest len out v free = Some ((NO_ERROR, dest + len, out @ vmo_bytes v offset len), v3, f3)"
      using False v3(1) v1(1,6) copy t same [OF less.prems(2)]
      by (subst read_loop.simps) (simp add: Let_def OffsetToIndex_def moved_def flip: n_def)
    then show ?thesis using v3 v1(5) by (metis (no_types, lifting))
  qed
qed

section \<open>Properties\<close>

lemma TrimRange_inside: "offset + len \<le> lim \<Longrightarrow> lim < 2 ^ 64 \<Longrightarrow> TrimRange offset len lim = Some len"
  by (simp add: TrimRange_def)

text \<open>
  C18: A write to an object followed by a read of the same range returns exactly the bytes written, whatever pages the range
  crosses and whichever of them were already there, and no byte of the object outside the range changes. Both calls succeed
  and report the whole length when the allocator can supply the object's missing pages.
\<close>

theorem vmo_write_read_roundtrip:
  assumes "vo_ok v" "offset + length data \<le> vo_size v" "vo_size v < 2 ^ 64" "missing_pages v \<le> free"
  shows "\<exists>v1 free1 v2 free2.
    VmObject_Write True data offset (length data) v free = Some ((NO_ERROR, length data), v1, free1) \<and>
    VmObject_Read True offset (length data) v1 free1 = Some ((NO_ERROR, length data, data), v2, free2) \<and>
    (\<forall>j<vo_size v. \<not> (offset \<le> j \<and> j < offset + length data) \<longrightarrow> vmo_byte v1 j = vmo_byte v j) \<and>
    (\<forall>j<vo_size v. vmo_byte v2 j = vmo_byte v1 j)"
proof -
  obtain v1 f1 where w: "write_loop memcpy_func data offset 0 (length data) v free = Some ((NO_ERROR, length data), v1, f1)"
    "vo_ok v1" "vo_size v1 = vo_size v" "missing_pages v1 \<le> f1"
    and b: "\<And>j. j < vo_size v \<Longrightarrow> vmo_byte v1 j = (if offset \<le> j \<and> j < offset + length data then data ! (j - offset) else vmo_byte v j)"
    using write_loop_ok [OF assms(1,2,4), of 0 data memcpy_func] by (auto simp: memcpy_func_def)
  obtain v2 f2 where r: "read_loop memcpy_func offset 0 (length data) [] v1 f1 =
      Some ((NO_ERROR, length data, vmo_bytes v1 offset (length data)), v2, f2)" "\<forall>j<vo_size v. vmo_byte v2 j = vmo_byte v1 j"
    using read_loop_ok [OF w(2) _ w(4), of offset "length data" memcpy_func 0 "[]"] assms(2) w(3) by (auto simp: memcpy_func_def)
  have "vmo_bytes v1 offset (length data) = data"
    using assms(2) b by (auto intro!: nth_equalityI simp: vmo_bytes_def)
  then show ?thesis
    using w r b assms TrimRange_inside [OF assms(2,3)] unfolding VmObject_Write_def VmObject_Read_def vmo_write_def vmo_read_def
    by (simp add: vo_ok_def)
qed

definition vmo_example :: vm_object where
  "vmo_example = \<lparr>vo_magic = True, vo_size = 2 * PAGE_SIZE, vo_has_array = True, vo_page_array = [None, None]\<rparr>"

lemma vmo_example_ok: "vo_ok vmo_example" "vo_size vmo_example = 8192" "missing_pages vmo_example = 2"
  by (simp_all add: vmo_example_def vo_ok_def missing_pages_def PAGE_SIZE_def)

theorem vmo_write_read_roundtrip_witness:
  "\<exists>v1 free1 v2 free2.
    VmObject_Write True [1, 2, 3] 4095 3 vmo_example 2 = Some ((NO_ERROR, 3), v1, free1) \<and>
    VmObject_Read True 4095 3 v1 free1 = Some ((NO_ERROR, 3, [1, 2, 3]), v2, free2)"
  using vmo_write_read_roundtrip [OF vmo_example_ok(1), of 4095 "[1, 2, 3]" 2]
  by (auto simp: vmo_example_ok(2,3) numeral_3_eq_3)

text \<open>
  The size check of a resize can not fail. Rounding a size above the limit up to a page wraps around to zero, so
  for every 64-bit size the call goes past the check; on a fresh object such a size is accepted
  with an array of no pages, and the first touch of a page is an out-of-range access.
\<close>

lemma vmo_resize_limit_wraps:
  assumes "s < 2 ^ 64"
  shows "(\<forall>alloc_ok v v'. Resize alloc_ok s v \<noteq> Some (ERR_TOO_BIG, v')) \<and>
    (VMO_MAX_SIZE < s \<longrightarrow> (\<exists>v'. Resize True s VmObject = Some (NO_ERROR, v') \<and> vo_size v' = s \<and> vo_page_array v' = [] \<and>
      (\<forall>free. FaultPageLocked 0 v' free = None)))"
proof -
  have le: "ROUNDUP_PAGE_SIZE s \<le> VMO_MAX_SIZE"
    by (simp add: ROUNDUP_PAGE_SIZE_def VMO_MAX_SIZE_def PAGE_SIZE_def)
  have "ROUNDUP_PAGE_SIZE s = 0" if "VMO_MAX_SIZE < s"
    using that assms by (simp add: ROUNDUP_PAGE_SIZE_def VMO_MAX_SIZE_def PAGE_SIZE_def mod_if)
  moreover have "VMO_MAX_SIZE < s \<Longrightarrow> 0 < s" by simp
  ultimately show ?thesis
    using le by (auto simp: Resize_def VmObject_def FaultPageLocked_def OffsetToIndex_def Let_def kassert_def split: if_splits option.splits)
qed

lemma vmo_resize_limit_wraps_witness:
  "\<exists>v'. Resize True (2 ^ 64 - 1) VmObject = Some (NO_ERROR, v') \<and> vo_size v' = 2 ^ 64 - 1 \<and> vo_page_array v' = [] \<and>
    FaultPageLocked 0 v' 5 = None"
  using vmo_resize_limit_wraps [of "2 ^ 64 - 1"] by (auto simp: VMO_MAX_SIZE_def PAGE_SIZE_def)

lemma commit_pages_present:
  assumes "p \<in> set ps" "OffsetToIndex p < length (vo_page_array v)" "vo_page_array v ! OffsetToIndex p \<noteq> None"
  shows "commit_pages ps n v = None"
  using assms
proof (induction ps arbitrary: n v)
  case (Cons q ps)
  show ?case
  proof (cases "commit_pages (q # ps) n v")
    case (Some r)
    then obtain v1 where v1: "AddPageToArray (OffsetToIndex q) ZeroPage v = Some v1" "commit_pages ps (n - 1) v1 = Some r"
      by (auto simp: bind_eq_Some_conv)
    then have "OffsetToIndex q \<noteq> OffsetToIndex p" "v1 = v\<lparr>vo_page_array := (vo_page_array v)[OffsetToIndex q := Some ZeroPage]\<rparr>"
      using Cons.prems by (auto simp: AddPageToArray_def bind_eq_Some_conv kassert_def split: if_splits)
    then show ?thesis using Cons.IH [of v1 "n - 1"] Cons.prems v1 by auto
  qed
qed simp

text \<open>
  C37: Committing a range of which one page is present and another is missing fails an assertion when memory is available:
  the first pass counts the missing pages, but the second adds a page at every offset of the range, the present ones included.
\<close>

theorem vmo_commit_partly_committed_panics:
  assumes "offset + len \<le> vo_size v" "vo_size v < 2 ^ 64" "0 < len"
    and "p \<in> set (page_steps offset (ROUNDUP_PAGE_SIZE (offset + len)))" "\<not> page_missing v p"
    and "q \<in> set (page_steps offset (ROUNDUP_PAGE_SIZE (offset + len)))" "page_missing v q"
    and "length (filter (page_missing v) (page_steps offset (ROUNDUP_PAGE_SIZE (offset + len)))) \<le> free"
  shows "CommitRange offset len v free = None"
proof -
  let ?ps = "page_steps offset (ROUNDUP_PAGE_SIZE (offset + len))"
  have "commit_pages ?ps n v = None" if "\<forall>p\<in>set ?ps. OffsetToIndex p < length (vo_page_array v)" for n
    by (rule commit_pages_present [OF assms(4)]) (use that assms(4,5) in \<open>auto simp: page_missing_def\<close>)
  moreover have "filter (page_missing v) ?ps \<noteq> []" using assms(6,7) by (auto simp: filter_empty_conv)
  ultimately show ?thesis
    using assms(1-3,8) by (auto simp: CommitRange_def TrimRange_inside Let_def kassert_def)
qed

theorem vmo_commit_partly_committed_panics_witness:
  "CommitRange 0 8192 (vmo_example\<lparr>vo_page_array := [None, Some ZeroPage]\<rparr>) 5 = None"
proof -
  have st: "page_steps 0 (ROUNDUP_PAGE_SIZE 8192) = [0, 4096]"
    by (simp add: ROUNDUP_PAGE_SIZE_def PAGE_SIZE_def page_steps.simps)
  show ?thesis
    by (rule vmo_commit_partly_committed_panics [where p = 4096 and q = 0])
      (simp_all add: st, simp_all add: vmo_example_def page_missing_def OffsetToIndex_def PAGE_SIZE_def)
qed

end
