(* ===== verification/Data_Pipe.thy ===== *)
theory Data_Pipe
  imports Msg_Pipe Vm_Object
begin

unbundle bit_operations_syntax

text \<open>
  Data pipes: \<^verbatim>\<open>kernel/lib/magenta/data_pipe.cpp\<close> and its two dispatchers. A pipe is a ring buffer in a
  memory object, with a cursor for the producer and one for the consumer. The operations run under the lock of the
  pipe, so each is one definition. Dereferencing the object after it was dropped is a fault, the value None.
  Mapping the object into an address space is an argument, \<open>map_object\<close>: for an address space, the object and the
  pages left it gives the status, the address and the object and pages afterwards. The regions the
  pipe has mapped are listed in the environment. Sizes are natural numbers: the
  invariant \<open>dp_ok\<close> bounds what an operation subtracts from the free space, so that nothing wraps.
\<close>

section \<open>Data\<close>

record 'o end_point =
  ep_alive :: bool
  ep_read_only :: bool
  ep_cursor :: nat
  ep_vad_start :: nat
  ep_expected :: nat
  ep_aspace :: "nat option"
  ep_state_tracker :: "'o state_tracker"

record 'o data_pipe =
  dp_capacity :: nat
  dp_producer :: "'o end_point"
  dp_consumer :: "'o end_point"
  dp_vmo :: "vm_object option"
  dp_free_space :: nat

record dp_env =
  de_free :: nat
  de_regions :: "(nat \<times> nat) list"

type_synonym map_func = "nat \<Rightarrow> vm_object \<Rightarrow> nat \<Rightarrow> status \<times> nat \<times> vm_object \<times> nat"

definition kMaxDataPipeCapacity :: nat where "kMaxDataPipeCapacity = 256 * 1024 * 1024"

section \<open>Creation\<close>

definition EndPoint :: "bool \<Rightarrow> signals_state \<Rightarrow> 'o end_point" where
  "EndPoint ro st = \<lparr>ep_alive = True, ep_read_only = ro, ep_cursor = 0, ep_vad_start = 0, ep_expected = 0, ep_aspace = None,
     ep_state_tracker = set_initial_signals_state st (StateTracker True \<lparr>satisfied = 0, satisfiable = 0\<rparr>)\<rparr>"

definition DataPipe :: "nat \<Rightarrow> 'o data_pipe" where
  "DataPipe capacity =
     \<lparr>dp_capacity = capacity,
      dp_producer = EndPoint False \<lparr>satisfied = MX_SIGNAL_WRITABLE, satisfiable = MX_SIGNAL_WRITABLE OR MX_SIGNAL_PEER_CLOSED\<rparr>,
      dp_consumer = EndPoint True \<lparr>satisfied = 0, satisfiable = MX_SIGNAL_READABLE OR MX_SIGNAL_PEER_CLOSED\<rparr>,
      dp_vmo = None, dp_free_space = 0\<rparr>"

definition DataPipe_destroy :: "'o data_pipe \<Rightarrow> unit option" where
  "DataPipe_destroy p = do {
     kassert (\<not> ep_alive (dp_consumer p));
     kassert (\<not> ep_alive (dp_producer p))
   }"

definition DataPipe_Init :: "bool \<Rightarrow> bool \<Rightarrow> 'o data_pipe \<Rightarrow> (bool \<times> 'o data_pipe) option" where
  "DataPipe_Init alloc_ok array_ok p =
     (if dp_capacity p > kMaxDataPipeCapacity then Some (False, p)
      else do {
        vmo \<leftarrow> VmObject_Create alloc_ok array_ok (ROUNDUP_PAGE_SIZE (dp_capacity p));
        case vmo of
          None \<Rightarrow> Some (False, p)
        | Some v \<Rightarrow> Some (True, p\<lparr>dp_vmo := vmo, dp_free_space := vo_size v\<rparr>)
      })"

text \<open>
  \<^verbatim>\<open>Create\<close>: a pipe that no dispatcher holds on return is destroyed. With the producer dispatcher
  created and the consumer not, the pipe lives on in the producer dispatcher.
\<close>

definition DataPipe_Create ::
  "nat \<Rightarrow> bool \<Rightarrow> bool \<Rightarrow> bool \<Rightarrow> bool \<Rightarrow> bool \<Rightarrow> (status \<times> 'o data_pipe option) option" where
  "DataPipe_Create capacity pipe_ok vmo_ok array_ok producer_ok consumer_ok =
     (if \<not> pipe_ok then Some (ERR_NO_MEMORY, None)
      else do {
        (ok, p) \<leftarrow> DataPipe_Init vmo_ok array_ok (DataPipe capacity);
        if \<not> ok then do { DataPipe_destroy p; Some (ERR_NO_MEMORY, None) }
        else if \<not> producer_ok then do { DataPipe_destroy p; Some (ERR_NO_MEMORY, None) }
        else if \<not> consumer_ok then Some (ERR_NO_MEMORY, Some p)
        else Some (NO_ERROR, Some p)
      })"

section \<open>Operations\<close>

definition ComputeSize :: "nat \<Rightarrow> nat \<Rightarrow> nat \<Rightarrow> vm_object \<Rightarrow> nat" where
  "ComputeSize from_pos to_pos requested v =
     (let available = (if from_pos \<ge> to_pos then vo_size v - from_pos else to_pos - from_pos)
      in if available \<ge> requested then requested else available)"

definition free_region :: "'o end_point \<Rightarrow> dp_env \<Rightarrow> 'o end_point \<times> dp_env" where
  "free_region ep env =
     (case ep_aspace ep of
        None \<Rightarrow> (ep, env)
      | Some a \<Rightarrow> (ep\<lparr>ep_aspace := None\<rparr>, env\<lparr>de_regions := remove1 (a, ep_vad_start ep) (de_regions env)\<rparr>))"

definition MapVMOIfNeeded ::
  "map_func \<Rightarrow> nat \<Rightarrow> 'o end_point \<Rightarrow> vm_object option \<Rightarrow> dp_env \<Rightarrow>
   (status \<times> 'o end_point \<times> vm_object option \<times> dp_env) option" where
  "MapVMOIfNeeded map_object aspace ep vmo env = do {
     v \<leftarrow> vmo;
     let (ep, env) = (if ep_aspace ep \<noteq> None \<and> ep_aspace ep \<noteq> Some aspace then free_region ep env else (ep, env));
     let (st, base, v, free) = map_object aspace v (de_free env);
     let env = env\<lparr>de_free := free\<rparr>;
     if st \<noteq> NO_ERROR then Some (st, ep, Some v, env)
     else Some (NO_ERROR, ep\<lparr>ep_vad_start := base, ep_aspace := Some aspace\<rparr>, Some v,
                env\<lparr>de_regions := (aspace, base) # de_regions env\<rparr>)
   }"

definition set_producer_tracker :: "'o state_tracker \<Rightarrow> 'o data_pipe \<Rightarrow> 'o data_pipe" where
  "set_producer_tracker tr p = p\<lparr>dp_producer := (dp_producer p)\<lparr>ep_state_tracker := tr\<rparr>\<rparr>"

definition set_consumer_tracker :: "'o state_tracker \<Rightarrow> 'o data_pipe \<Rightarrow> 'o data_pipe" where
  "set_consumer_tracker tr p = p\<lparr>dp_consumer := (dp_consumer p)\<lparr>ep_state_tracker := tr\<rparr>\<rparr>"

definition UpdateSignals :: "('o, 'w) observer_ops \<Rightarrow> 'o data_pipe \<Rightarrow> 'w \<Rightarrow> ('o data_pipe \<times> 'w) option" where
  "UpdateSignals ops p w =
     (if dp_free_space p = 0 then do {
        (tr, w) \<leftarrow> UpdateSatisfied ops 0 MX_SIGNAL_WRITABLE (ep_state_tracker (dp_producer p)) w;
        (tr2, w) \<leftarrow> UpdateSatisfied ops MX_SIGNAL_READABLE 0 (ep_state_tracker (dp_consumer p)) w;
        Some (set_consumer_tracker tr2 (set_producer_tracker tr p), w)
      }
      else do {
        v \<leftarrow> dp_vmo p;
        if dp_free_space p = vo_size v then do {
          (tr, w) \<leftarrow> UpdateSatisfied ops MX_SIGNAL_WRITABLE 0 (ep_state_tracker (dp_producer p)) w;
          (tr2, w) \<leftarrow> UpdateState ops 0 MX_SIGNAL_READABLE 0 (if ep_alive (dp_producer p) then 0 else MX_SIGNAL_READABLE)
                        (ep_state_tracker (dp_consumer p)) w;
          Some (set_consumer_tracker tr2 (set_producer_tracker tr p), w)
        }
        else do {
          (tr, w) \<leftarrow> UpdateSatisfied ops MX_SIGNAL_WRITABLE 0 (ep_state_tracker (dp_producer p)) w;
          (tr2, w) \<leftarrow> UpdateSatisfied ops MX_SIGNAL_READABLE 0 (ep_state_tracker (dp_consumer p)) w;
          Some (set_consumer_tracker tr2 (set_producer_tracker tr p), w)
        }
      })"

definition advance :: "nat \<Rightarrow> vm_object \<Rightarrow> 'o end_point \<Rightarrow> 'o end_point" where
  "advance n v ep = (let c = ep_cursor ep + n in ep\<lparr>ep_cursor := if c = vo_size v then 0 else c\<rparr>)"

text \<open>Results: the status and the size, with the bytes for a read.\<close>

definition ProducerWriteFromUser ::
  "('o, 'w) observer_ops \<Rightarrow> bool \<Rightarrow> copy_func \<Rightarrow> u8 list \<Rightarrow> nat \<Rightarrow> 'o data_pipe \<Rightarrow> dp_env \<Rightarrow> 'w \<Rightarrow>
   ((status \<times> nat) \<times> 'o data_pipe \<times> dp_env \<times> 'w) option" where
  "ProducerWriteFromUser ops user_ptr copyfunc ptr requested p env w =
     (if requested = 0 then Some ((ERR_INVALID_ARGS, requested), p, env, w)
      else if ep_expected (dp_producer p) \<noteq> 0 then Some ((ERR_BUSY, requested), p, env, w)
      else if \<not> ep_alive (dp_consumer p) then Some ((ERR_CHANNEL_CLOSED, requested), p, env, w)
      else if dp_free_space p = 0 then Some ((ERR_NOT_READY, requested), p, env, w)
      else do {
        v \<leftarrow> dp_vmo p;
        let requested = ComputeSize (ep_cursor (dp_producer p)) (ep_cursor (dp_consumer p)) requested v;
        ((st, written), v, free) \<leftarrow> WriteUser user_ptr copyfunc ptr (ep_cursor (dp_producer p)) requested v (de_free env);
        let p = p\<lparr>dp_vmo := Some v\<rparr>;
        let env = env\<lparr>de_free := free\<rparr>;
        if st \<noteq> NO_ERROR then Some ((st, requested), p, env, w)
        else do {
          let p = p\<lparr>dp_free_space := dp_free_space p - written, dp_producer := advance written v (dp_producer p)\<rparr>;
          (p, w) \<leftarrow> UpdateSignals ops p w;
          Some ((NO_ERROR, written), p, env, w)
        }
      })"

definition ProducerWriteBegin ::
  "map_func \<Rightarrow> nat \<Rightarrow> nat \<Rightarrow> 'o data_pipe \<Rightarrow> dp_env \<Rightarrow> ((status \<times> nat \<times> nat) \<times> 'o data_pipe \<times> dp_env) option" where
  "ProducerWriteBegin map_object aspace requested p env =
     (if requested = 0 then Some ((ERR_INVALID_ARGS, 0, requested), p, env)
      else if ep_expected (dp_producer p) \<noteq> 0 then Some ((ERR_BUSY, 0, requested), p, env)
      else if \<not> ep_alive (dp_consumer p) then Some ((ERR_CHANNEL_CLOSED, 0, requested), p, env)
      else if dp_free_space p = 0 then Some ((ERR_NOT_READY, 0, requested), p, env)
      else do {
        (st, ep, vmo, env) \<leftarrow> MapVMOIfNeeded map_object aspace (dp_producer p) (dp_vmo p) env;
        let p = p\<lparr>dp_producer := ep, dp_vmo := vmo\<rparr>;
        if st \<noteq> NO_ERROR then Some ((st, 0, requested), p, env)
        else do {
          v \<leftarrow> vmo;
          let requested = ComputeSize (ep_cursor ep) (ep_cursor (dp_consumer p)) requested v;
          Some ((NO_ERROR, ep_vad_start ep + ep_cursor ep, requested), p\<lparr>dp_producer := ep\<lparr>ep_expected := requested\<rparr>\<rparr>, env)
        }
      })"

definition ProducerWriteEnd ::
  "('o, 'w) observer_ops \<Rightarrow> nat \<Rightarrow> 'o data_pipe \<Rightarrow> 'w \<Rightarrow> (status \<times> 'o data_pipe \<times> 'w) option" where
  "ProducerWriteEnd ops written p w =
     (if ep_expected (dp_producer p) = 0 then Some (ERR_BAD_STATE, p, w)
      else if written > ep_expected (dp_producer p) then Some (ERR_INVALID_ARGS, p, w)
      else do {
        v \<leftarrow> dp_vmo p;
        let p = p\<lparr>dp_free_space := dp_free_space p - written,
                  dp_producer := (advance written v (dp_producer p))\<lparr>ep_expected := 0\<rparr>\<rparr>;
        (p, w) \<leftarrow> UpdateSignals ops p w;
        Some (NO_ERROR, p, w)
      })"

definition ConsumerReadFromUser ::
  "('o, 'w) observer_ops \<Rightarrow> bool \<Rightarrow> copy_func \<Rightarrow> nat \<Rightarrow> 'o data_pipe \<Rightarrow> dp_env \<Rightarrow> 'w \<Rightarrow>
   ((status \<times> nat \<times> u8 list) \<times> 'o data_pipe \<times> dp_env \<times> 'w) option" where
  "ConsumerReadFromUser ops user_ptr copyfunc requested p env w =
     (if requested = 0 then Some ((ERR_INVALID_ARGS, requested, []), p, env, w)
      else if ep_expected (dp_consumer p) \<noteq> 0 then Some ((ERR_BUSY, requested, []), p, env, w)
      else do {
        v \<leftarrow> dp_vmo p;
        if dp_free_space p = vo_size v then Some ((ERR_NOT_READY, requested, []), p, env, w)
        else do {
          let requested = ComputeSize (ep_cursor (dp_consumer p)) (ep_cursor (dp_producer p)) requested v;
          ((st, n, out), v, free) \<leftarrow> ReadUser user_ptr copyfunc (ep_cursor (dp_consumer p)) requested v (de_free env);
          let p = p\<lparr>dp_vmo := Some v\<rparr>;
        let env = env\<lparr>de_free := free\<rparr>;
          if st \<noteq> NO_ERROR then Some ((st, requested, out), p, env, w)
          else do {
            let p = p\<lparr>dp_free_space := dp_free_space p + n, dp_consumer := advance n v (dp_consumer p)\<rparr>;
            (p, w) \<leftarrow> UpdateSignals ops p w;
            Some ((NO_ERROR, n, out), p, env, w)
          }
        }
      })"

definition ConsumerReadBegin ::
  "map_func \<Rightarrow> nat \<Rightarrow> nat \<Rightarrow> 'o data_pipe \<Rightarrow> dp_env \<Rightarrow> ((status \<times> nat \<times> nat) \<times> 'o data_pipe \<times> dp_env) option" where
  "ConsumerReadBegin map_object aspace requested p env =
     (if requested = 0 then Some ((ERR_INVALID_ARGS, 0, requested), p, env)
      else if ep_expected (dp_consumer p) \<noteq> 0 then Some ((ERR_BUSY, 0, requested), p, env)
      else do {
        v \<leftarrow> dp_vmo p;
        if dp_free_space p = vo_size v then Some ((ERR_NOT_READY, 0, requested), p, env)
        else do {
          (st, ep, vmo, env) \<leftarrow> MapVMOIfNeeded map_object aspace (dp_consumer p) (dp_vmo p) env;
          let p = p\<lparr>dp_consumer := ep, dp_vmo := vmo\<rparr>;
          if st \<noteq> NO_ERROR then Some ((st, 0, requested), p, env)
          else do {
            v \<leftarrow> vmo;
            let requested = ComputeSize (ep_cursor ep) (ep_cursor (dp_producer p)) requested v;
            Some ((NO_ERROR, ep_vad_start ep + ep_cursor ep, requested), p\<lparr>dp_consumer := ep\<lparr>ep_expected := requested\<rparr>\<rparr>, env)
          }
        }
      })"

definition ConsumerReadEnd ::
  "('o, 'w) observer_ops \<Rightarrow> nat \<Rightarrow> 'o data_pipe \<Rightarrow> 'w \<Rightarrow> (status \<times> 'o data_pipe \<times> 'w) option" where
  "ConsumerReadEnd ops n p w =
     (if ep_expected (dp_consumer p) = 0 then Some (ERR_BAD_STATE, p, w)
      else if n > ep_expected (dp_consumer p) then Some (ERR_INVALID_ARGS, p, w)
      else do {
        v \<leftarrow> dp_vmo p;
        let p = p\<lparr>dp_free_space := dp_free_space p + n,
                  dp_consumer := (advance n v (dp_consumer p))\<lparr>ep_expected := 0\<rparr>\<rparr>;
        (p, w) \<leftarrow> UpdateSignals ops p w;
        Some (NO_ERROR, p, w)
      })"

definition OnProducerDestruction ::
  "('o, 'w) observer_ops \<Rightarrow> 'o data_pipe \<Rightarrow> dp_env \<Rightarrow> 'w \<Rightarrow> ('o data_pipe \<times> dp_env \<times> 'w) option" where
  "OnProducerDestruction ops p env w = do {
     let (ep, env) = free_region ((dp_producer p)\<lparr>ep_alive := False\<rparr>) env;
     let p = p\<lparr>dp_producer := ep\<rparr>;
     if ep_alive (dp_consumer p) then do {
       v \<leftarrow> dp_vmo p;
       let is_empty = (dp_free_space p = vo_size v);
       (tr, w) \<leftarrow> UpdateState ops MX_SIGNAL_PEER_CLOSED 0 0 (if is_empty then MX_SIGNAL_READABLE else 0)
                     (ep_state_tracker (dp_consumer p)) w;
       Some ((set_consumer_tracker tr p)\<lparr>dp_vmo := if is_empty then None else Some v\<rparr>, env, w)
     }
     else Some (p, env, w)
   }"

definition OnConsumerDestruction ::
  "('o, 'w) observer_ops \<Rightarrow> 'o data_pipe \<Rightarrow> dp_env \<Rightarrow> 'w \<Rightarrow> ('o data_pipe \<times> dp_env \<times> 'w) option" where
  "OnConsumerDestruction ops p env w = do {
     let (ep, env) = free_region ((dp_consumer p)\<lparr>ep_alive := False\<rparr>) env;
     let p = p\<lparr>dp_consumer := ep, dp_vmo := None\<rparr>;
     if ep_alive (dp_producer p) then do {
       (tr, w) \<leftarrow> UpdateState ops MX_SIGNAL_PEER_CLOSED MX_SIGNAL_WRITABLE 0 MX_SIGNAL_WRITABLE
                     (ep_state_tracker (dp_producer p)) w;
       Some (set_producer_tracker tr p, env, w)
     }
     else Some (p, env, w)
   }"

text \<open>The dispatchers limit the size of a mapped transfer.\<close>

definition Producer_BeginWrite where
  "Producer_BeginWrite map_object aspace requested p env =
     ProducerWriteBegin map_object aspace (if requested > kMaxDataPipeCapacity then kMaxDataPipeCapacity else requested) p env"

definition Consumer_BeginRead where
  "Consumer_BeginRead map_object aspace requested p env =
     ConsumerReadBegin map_object aspace (if requested > kMaxDataPipeCapacity then kMaxDataPipeCapacity else requested) p env"

section \<open>The queue of bytes\<close>

definition ring :: "vm_object \<Rightarrow> nat \<Rightarrow> nat \<Rightarrow> u8 list" where
  "ring v c n = map (\<lambda>k. vmo_byte v ((c + k) mod vo_size v)) [0..<n]"

definition pipe_data :: "'o data_pipe \<Rightarrow> u8 list" where
  "pipe_data p = (case dp_vmo p of None \<Rightarrow> [] | Some v \<Rightarrow> ring v (ep_cursor (dp_consumer p)) (vo_size v - dp_free_space p))"

lemma length_ring [simp]: "length (ring v c n) = n"
  by (simp add: ring_def)

lemma ring_append:
  assumes used: "used + k \<le> vo_size v" and c: "c < vo_size v" and b: "b = (c + used) mod vo_size v" "b + k \<le> vo_size v"
    and v': "vo_size v' = vo_size v" "length bs = k"
      "\<And>j. j < vo_size v \<Longrightarrow> vmo_byte v' j = (if b \<le> j \<and> j < b + k then bs ! (j - b) else vmo_byte v j)"
  shows "ring v' c (used + k) = ring v c used @ bs"
proof (rule nth_equalityI)
  fix i assume "i < length (ring v' c (used + k))"
  then have i: "i < used + k" by simp
  let ?N = "vo_size v"
  have j: "(c + i) mod ?N < ?N" using c by simp
  show "ring v' c (used + k) ! i = (ring v c used @ bs) ! i"
  proof (cases "i < used")
    case True
    have "\<not> (b \<le> (c + i) mod ?N \<and> (c + i) mod ?N < b + k)"
    proof
      assume "b \<le> (c + i) mod ?N \<and> (c + i) mod ?N < b + k"
      then obtain d where d: "(c + i) mod ?N = b + d" "d < k" by (metis add_less_cancel_left le_Suc_ex)
      then have "(c + used + d) mod ?N = (c + i) mod ?N" using b j by (metis mod_add_left_eq mod_less)
      then have "?N dvd (c + used + d) - (c + i)"
        using True by (subst (asm) mod_eq_dvd_iff_nat) auto
      then have "?N \<le> used + d - i" using True by (intro dvd_imp_le) auto
      then show False using d used by simp
    qed
    then show ?thesis using True v' j by (auto simp: ring_def nth_append)
  next
    case False
    then obtain d where d: "i = used + d" by (metis le_Suc_ex not_less)
    then have "(c + i) mod ?N = b + d" using b i by (metis add.assoc add_left_cancel add_less_cancel_left mod_add_left_eq mod_less order_less_le_trans)
    then show ?thesis using False v' j d i by (simp add: ring_def nth_append)
  qed
qed (simp add: v')

lemma ring_drop:
  assumes "k \<le> n"
  shows "ring v ((c + k) mod vo_size v) (n - k) = drop k (ring v c n)"
  by (rule nth_equalityI) (auto simp: ring_def mod_add_left_eq add.assoc)

lemma ring_take:
  assumes "k \<le> n" "c + k \<le> vo_size v"
  shows "vmo_bytes v c k = take k (ring v c n)"
  using assms by (intro nth_equalityI) (auto simp: ring_def vmo_bytes_def)

lemma ring_cong:
  "vo_size v' = vo_size v \<Longrightarrow> 0 < vo_size v \<Longrightarrow> (\<And>j. j < vo_size v \<Longrightarrow> vmo_byte v' j = vmo_byte v j) \<Longrightarrow> ring v' c n = ring v c n"
  by (simp add: ring_def)

section \<open>The invariant\<close>

definition dp_ok :: "'o data_pipe \<Rightarrow> vm_object \<Rightarrow> bool" where
  "dp_ok p v \<longleftrightarrow> dp_vmo p = Some v \<and> vo_ok v \<and> 0 < vo_size v \<and> vo_size v < 2 ^ 64 \<and> dp_free_space p \<le> vo_size v \<and>
     ep_cursor (dp_consumer p) < vo_size v \<and>
     ep_cursor (dp_producer p) = (ep_cursor (dp_consumer p) + (vo_size v - dp_free_space p)) mod vo_size v \<and>
     ep_expected (dp_producer p) \<le> dp_free_space p \<and> ep_cursor (dp_producer p) + ep_expected (dp_producer p) \<le> vo_size v \<and>
     ep_expected (dp_consumer p) \<le> vo_size v - dp_free_space p \<and> ep_cursor (dp_consumer p) + ep_expected (dp_consumer p) \<le> vo_size v \<and>
     ep_alive (dp_consumer p)"

definition producer_signals :: "bool \<Rightarrow> bool \<Rightarrow> signals_state \<Rightarrow> bool" where
  "producer_signals space peer st \<longleftrightarrow>
     (\<forall>n. bit (satisfied st) n \<longleftrightarrow> n = 1 \<and> space \<and> peer \<or> n = 2 \<and> \<not> peer) \<and>
     (\<forall>n. bit (satisfiable st) n \<longleftrightarrow> n = 1 \<and> peer \<or> n = 2)"

definition consumer_signals :: "bool \<Rightarrow> bool \<Rightarrow> signals_state \<Rightarrow> bool" where
  "consumer_signals nonempty peer st \<longleftrightarrow>
     (\<forall>n. bit (satisfied st) n \<longleftrightarrow> n = 0 \<and> nonempty \<or> n = 2 \<and> \<not> peer) \<and>
     (\<forall>n. bit (satisfiable st) n \<longleftrightarrow> n = 0 \<and> (nonempty \<or> peer) \<or> n = 2)"

definition dp_inv ::
  "('w \<Rightarrow> bool) \<Rightarrow> ('o \<Rightarrow> 'w \<Rightarrow> bool) \<Rightarrow> ('o \<Rightarrow> signals_state \<Rightarrow> 'w \<Rightarrow> bool) \<Rightarrow> vm_object \<Rightarrow> 'o data_pipe \<Rightarrow> 'w \<Rightarrow> bool" where
  "dp_inv winv att infd v p w \<longleftrightarrow> dp_ok p v \<and> winv w \<and>
     tracker_ok att infd (ep_state_tracker (dp_producer p)) w \<and> tracker_ok att infd (ep_state_tracker (dp_consumer p)) w \<and>
     set (st_observers (ep_state_tracker (dp_producer p))) \<inter> set (st_observers (ep_state_tracker (dp_consumer p))) = {} \<and>
     producer_signals (dp_free_space p \<noteq> 0) True (st_signals (ep_state_tracker (dp_producer p))) \<and>
     consumer_signals (dp_free_space p \<noteq> vo_size v) (ep_alive (dp_producer p)) (st_signals (ep_state_tracker (dp_consumer p)))"

lemma producer_signals_update:
  assumes "producer_signals sp True st"
  shows "producer_signals True True (update_signals MX_SIGNAL_WRITABLE 0 0 0 st)"
    "producer_signals False True (update_signals 0 MX_SIGNAL_WRITABLE 0 0 st)"
proof -
  have b: "bit (satisfied st) n \<longleftrightarrow> n = 1 \<and> sp" "bit (satisfiable st) n \<longleftrightarrow> n = 1 \<or> n = 2" for n
    using assms by (simp_all add: producer_signals_def)
  show "producer_signals True True (update_signals MX_SIGNAL_WRITABLE 0 0 0 st)"
    "producer_signals False True (update_signals 0 MX_SIGNAL_WRITABLE 0 0 st)"
    unfolding producer_signals_def by (simp_all add: b) auto
qed

lemma consumer_signals_update:
  assumes "consumer_signals ne peer st"
  shows "ne \<or> peer \<Longrightarrow> consumer_signals True peer (update_signals MX_SIGNAL_READABLE 0 0 0 st)"
    "consumer_signals False peer (update_signals 0 MX_SIGNAL_READABLE 0 (if peer then 0 else MX_SIGNAL_READABLE) st)"
proof -
  have b: "bit (satisfied st) n \<longleftrightarrow> n = 0 \<and> ne \<or> n = 2 \<and> \<not> peer" "bit (satisfiable st) n \<longleftrightarrow> n = 0 \<and> (ne \<or> peer) \<or> n = 2" for n
    using assms by (simp_all add: consumer_signals_def)
  show "ne \<or> peer \<Longrightarrow> consumer_signals True peer (update_signals MX_SIGNAL_READABLE 0 0 0 st)"
    unfolding consumer_signals_def by (simp add: b) auto
  show "consumer_signals False peer (update_signals 0 MX_SIGNAL_READABLE 0 (if peer then 0 else MX_SIGNAL_READABLE) st)"
    unfolding consumer_signals_def by (cases peer; simp add: b; auto)
qed

lemma set_tracker_sel [simp]:
  "dp_free_space (set_producer_tracker tr p) = dp_free_space p" "dp_vmo (set_producer_tracker tr p) = dp_vmo p"
  "dp_consumer (set_producer_tracker tr p) = dp_consumer p" "dp_producer (set_producer_tracker tr p) = (dp_producer p)\<lparr>ep_state_tracker := tr\<rparr>"
  "dp_free_space (set_consumer_tracker tr p) = dp_free_space p" "dp_vmo (set_consumer_tracker tr p) = dp_vmo p"
  "dp_producer (set_consumer_tracker tr p) = dp_producer p" "dp_consumer (set_consumer_tracker tr p) = (dp_consumer p)\<lparr>ep_state_tracker := tr\<rparr>"
  by (simp_all add: set_producer_tracker_def set_consumer_tracker_def)

lemma pipe_data_tracker [simp]:
  "pipe_data (set_producer_tracker tr p) = pipe_data p" "pipe_data (set_consumer_tracker tr p) = pipe_data p"
  by (simp_all add: pipe_data_def split: option.split)

lemma dp_ok_tracker [simp]:
  "dp_ok (set_producer_tracker tr p) v = dp_ok p v" "dp_ok (set_consumer_tracker tr p) v = dp_ok p v"
  by (simp_all add: dp_ok_def)

lemma advance_sel [simp]:
  "ep_alive (advance n v ep) = ep_alive ep" "ep_expected (advance n v ep) = ep_expected ep" "ep_state_tracker (advance n v ep) = ep_state_tracker ep"
  "ep_aspace (advance n v ep) = ep_aspace ep" "ep_vad_start (advance n v ep) = ep_vad_start ep"
  by (simp_all add: advance_def Let_def)

lemma advance_cursor:
  "ep_cursor ep + n \<le> vo_size v \<Longrightarrow> 0 < vo_size v \<Longrightarrow> ep_cursor (advance n v ep) = (ep_cursor ep + n) mod vo_size v"
  by (simp add: advance_def Let_def)

lemma wrap_once: "c < N \<Longrightarrow> u \<le> N \<Longrightarrow> (c + u) mod N = (if c + u < N then c + u else c + u - N)" for c u N :: nat
  by (simp add: le_mod_geq)

lemma ComputeSize_producer:
  assumes "dp_ok p v" "0 < dp_free_space p" "0 < n"
  defines "k \<equiv> ComputeSize (ep_cursor (dp_producer p)) (ep_cursor (dp_consumer p)) n v"
  shows "0 < k" "k \<le> n" "k \<le> dp_free_space p" "ep_cursor (dp_producer p) + k \<le> vo_size v"
  using assms(1-3) wrap_once [of "ep_cursor (dp_consumer p)" "vo_size v" "vo_size v - dp_free_space p"]
  by (auto simp: dp_ok_def k_def ComputeSize_def Let_def split: if_splits)

lemma ComputeSize_consumer:
  assumes "dp_ok p v" "dp_free_space p \<noteq> vo_size v" "0 < n"
  defines "k \<equiv> ComputeSize (ep_cursor (dp_consumer p)) (ep_cursor (dp_producer p)) n v"
  shows "0 < k" "k \<le> n" "k \<le> vo_size v - dp_free_space p" "ep_cursor (dp_consumer p) + k \<le> vo_size v"
  using assms(1-3) wrap_once [of "ep_cursor (dp_consumer p)" "vo_size v" "vo_size v - dp_free_space p"]
  by (auto simp: dp_ok_def k_def ComputeSize_def Let_def split: if_splits)

lemma expected_0: "ep_expected ep = 0 \<Longrightarrow> ep\<lparr>ep_expected := 0\<rparr> = ep"
  by simp

context state_observer
begin

lemma update_two:
  assumes "inv w" "tracked tp w" "tracked tc w" "set (st_observers tp) \<inter> set (st_observers tc) = {}"
  shows "\<exists>tr tr2 w1 w2. UpdateState ops a b c d tp w = Some (tr, w1) \<and> UpdateState ops a' b' c' d' tc w1 = Some (tr2, w2) \<and>
    inv w2 \<and> tracked tr w2 \<and> tracked tr2 w2 \<and> st_observers tr = st_observers tp \<and> st_observers tr2 = st_observers tc \<and>
    st_signals tr = update_signals a b c d (st_signals tp) \<and> st_signals tr2 = update_signals a' b' c' d' (st_signals tc)"
proof -
  from UpdateState_tracked [OF assms(1,2), of a b c d] obtain tr w1 where
    u: "UpdateState ops a b c d tp w = Some (tr, w1)" "inv w1" "tracked tr w1" "st_observers tr = st_observers tp"
      "st_signals tr = update_signals a b c d (st_signals tp)" "\<And>q. q \<notin> set (st_observers tp) \<Longrightarrow> keeps q w w1" by blast
  have "tracked tc w1" by (rule tracker_ok_keeps [OF assms(3)]) (use assms(4) u(6) in blast)
  from UpdateState_tracked [OF u(2) this, of a' b' c' d'] obtain tr2 w2 where
    t: "UpdateState ops a' b' c' d' tc w1 = Some (tr2, w2)" "inv w2" "tracked tr2 w2" "st_observers tr2 = st_observers tc"
      "st_signals tr2 = update_signals a' b' c' d' (st_signals tc)" "\<And>q. q \<notin> set (st_observers tc) \<Longrightarrow> keeps q w1 w2" by blast
  have "tracked tr w2" by (rule tracker_ok_keeps [OF u(3)]) (use assms(4) u(4) t(6) in auto)
  with u t show ?thesis by blast
qed

lemma UpdateSignals_ok:
  assumes p: "inv w" "tracked (ep_state_tracker (dp_producer p)) w" "tracked (ep_state_tracker (dp_consumer p)) w"
      "set (st_observers (ep_state_tracker (dp_producer p))) \<inter> set (st_observers (ep_state_tracker (dp_consumer p))) = {}"
    and sp: "producer_signals sp True (st_signals (ep_state_tracker (dp_producer p)))"
    and sc: "consumer_signals ne (ep_alive (dp_producer p)) (st_signals (ep_state_tracker (dp_consumer p)))" "ne \<or> ep_alive (dp_producer p)"
    and v: "dp_vmo p = Some v" "0 < vo_size v"
  shows "\<exists>tr tr2 w'. UpdateSignals ops p w = Some (set_consumer_tracker tr2 (set_producer_tracker tr p), w') \<and> inv w' \<and>
    tracked tr w' \<and> tracked tr2 w' \<and> st_observers tr = st_observers (ep_state_tracker (dp_producer p)) \<and>
    st_observers tr2 = st_observers (ep_state_tracker (dp_consumer p)) \<and>
    producer_signals (dp_free_space p \<noteq> 0) True (st_signals tr) \<and>
    consumer_signals (dp_free_space p \<noteq> vo_size v) (ep_alive (dp_producer p)) (st_signals tr2)"
proof -
  note s = producer_signals_update [OF sp] consumer_signals_update [OF sc(1)]
  let ?tp = "ep_state_tracker (dp_producer p)" and ?tc = "ep_state_tracker (dp_consumer p)"
  have fin: ?thesis
    if eq: "UpdateSignals ops p w = do {
        (tr, w) \<leftarrow> UpdateState ops a b 0 0 ?tp w; (tr2, w) \<leftarrow> UpdateState ops a' b' 0 d' ?tc w;
        Some (set_consumer_tracker tr2 (set_producer_tracker tr p), w) }"
      and sig: "producer_signals (dp_free_space p \<noteq> 0) True (update_signals a b 0 0 (st_signals ?tp))"
        "consumer_signals (dp_free_space p \<noteq> vo_size v) (ep_alive (dp_producer p)) (update_signals a' b' 0 d' (st_signals ?tc))"
    for a b a' b' d'
  proof -
    from update_two [OF p, of a b 0 0 a' b' 0 d'] obtain tr tr2 w1 w2 where
      u: "UpdateState ops a b 0 0 ?tp w = Some (tr, w1)" "UpdateState ops a' b' 0 d' ?tc w1 = Some (tr2, w2)"
        "inv w2" "tracked tr w2" "tracked tr2 w2" "st_observers tr = st_observers ?tp" "st_observers tr2 = st_observers ?tc"
        "st_signals tr = update_signals a b 0 0 (st_signals ?tp)" "st_signals tr2 = update_signals a' b' 0 d' (st_signals ?tc)" by blast
    show ?thesis
      by (rule exI [of _ tr], rule exI [of _ tr2], rule exI [of _ w2]) (use u sig in \<open>simp add: eq\<close>)
  qed
  consider "dp_free_space p = 0" | "dp_free_space p \<noteq> 0" "dp_free_space p = vo_size v" | "dp_free_space p \<noteq> 0" "dp_free_space p \<noteq> vo_size v"
    by blast
  then show ?thesis
  proof cases
    case 1
    then show ?thesis
      by (intro fin [of 0 MX_SIGNAL_WRITABLE MX_SIGNAL_READABLE 0 0]) (use v s(2) s(3) [OF sc(2)] in \<open>simp_all add: UpdateSignals_def UpdateSatisfied_def\<close>)
  next
    case 2
    then show ?thesis
      by (intro fin [of MX_SIGNAL_WRITABLE 0 0 MX_SIGNAL_READABLE "if ep_alive (dp_producer p) then 0 else MX_SIGNAL_READABLE"])
        (use v s(1,4) in \<open>simp_all add: UpdateSignals_def UpdateSatisfied_def\<close>)
  next
    case 3
    then show ?thesis
      by (intro fin [of MX_SIGNAL_WRITABLE 0 MX_SIGNAL_READABLE 0 0]) (use v s(1) s(3) [OF sc(2)] in \<open>simp_all add: UpdateSignals_def UpdateSatisfied_def\<close>)
  qed
qed

abbreviation dinv :: "vm_object \<Rightarrow> 'o data_pipe \<Rightarrow> 'w \<Rightarrow> bool" where "dinv \<equiv> dp_inv inv attached informed"

lemma produce_ok:
  assumes d: "dinv v p w" "ep_alive (dp_producer p)"
    and n: "n \<le> dp_free_space p" "ep_cursor (dp_producer p) + n \<le> vo_size v"
    and v': "vo_ok v'" "vo_size v' = vo_size v" "length bs = n"
    and byte: "\<And>j. j < vo_size v \<Longrightarrow> vmo_byte v' j = (if ep_cursor (dp_producer p) \<le> j \<and> j < ep_cursor (dp_producer p) + n
        then bs ! (j - ep_cursor (dp_producer p)) else vmo_byte v j)"
  defines "p1 \<equiv> p\<lparr>dp_vmo := Some v', dp_free_space := dp_free_space p - n, dp_producer := (advance n v' (dp_producer p))\<lparr>ep_expected := 0\<rparr>\<rparr>"
  shows "\<exists>p' w'. UpdateSignals ops p1 w = Some (p', w') \<and> dinv v' p' w' \<and> pipe_data p' = pipe_data p @ bs \<and>
    dp_free_space p' = dp_free_space p - n \<and> ep_alive (dp_producer p') \<and> ep_expected (dp_consumer p') = ep_expected (dp_consumer p) \<and>
    ep_expected (dp_producer p') = 0"
proof -
  have k: "dp_ok p v" using d by (simp add: dp_inv_def)
  let ?u = "vo_size v - dp_free_space p" let ?c = "ep_cursor (dp_consumer p)"
  have u: "vo_size v - (dp_free_space p - n) = ?u + n" using n k by (auto simp: dp_ok_def)
  have ok: "dp_ok p1 v'"
    using k n v' u unfolding dp_ok_def p1_def by (simp add: advance_cursor mod_add_left_eq add.assoc; arith)
  have "ring v' ?c (?u + n) = ring v ?c ?u @ bs"
    by (rule ring_append [where b = "ep_cursor (dp_producer p)"]) (use k n v' byte in \<open>auto simp: dp_ok_def\<close>)
  then have data: "pipe_data p1 = pipe_data p @ bs"
    using k u v' by (simp add: pipe_data_def p1_def dp_ok_def)
  have e: "ep_state_tracker (dp_producer p1) = ep_state_tracker (dp_producer p)" "ep_alive (dp_producer p1) = ep_alive (dp_producer p)"
    "ep_state_tracker (dp_consumer p1) = ep_state_tracker (dp_consumer p)" "dp_vmo p1 = Some v'" by (simp_all add: p1_def)
  have pr: "inv w" "tracked (ep_state_tracker (dp_producer p)) w" "tracked (ep_state_tracker (dp_consumer p)) w"
      "set (st_observers (ep_state_tracker (dp_producer p))) \<inter> set (st_observers (ep_state_tracker (dp_consumer p))) = {}"
      "producer_signals (dp_free_space p \<noteq> 0) True (st_signals (ep_state_tracker (dp_producer p)))"
      "consumer_signals (dp_free_space p \<noteq> vo_size v) (ep_alive (dp_producer p)) (st_signals (ep_state_tracker (dp_consumer p)))"
      "dp_free_space p \<noteq> vo_size v \<or> ep_alive (dp_producer p)" "0 < vo_size v'"
    using d k v'(2) d(2) by (auto simp: dp_inv_def dp_ok_def)
  from UpdateSignals_ok [where p = p1, unfolded e, OF pr(1-7) refl pr(8)] obtain tr tr2 w' where
    q: "UpdateSignals ops p1 w = Some (set_consumer_tracker tr2 (set_producer_tracker tr p1), w')" "inv w'"
      "tracked tr w'" "tracked tr2 w'" "st_observers tr = st_observers (ep_state_tracker (dp_producer p))"
      "st_observers tr2 = st_observers (ep_state_tracker (dp_consumer p))" "producer_signals (dp_free_space p1 \<noteq> 0) True (st_signals tr)"
      "consumer_signals (dp_free_space p1 \<noteq> vo_size v') (ep_alive (dp_producer p)) (st_signals tr2)"
    by blast
  let ?p = "set_consumer_tracker tr2 (set_producer_tracker tr p1)"
  have "dinv v' ?p w'" using q d ok e unfolding dp_inv_def by simp
  moreover have "pipe_data ?p = pipe_data p @ bs" using data by simp
  ultimately show ?thesis using q(1) d(2) by (auto simp: p1_def)
qed

lemma consume_ok:
  assumes d: "dinv v p w"
    and n: "0 < n" "n \<le> vo_size v - dp_free_space p" "ep_cursor (dp_consumer p) + n \<le> vo_size v"
    and v': "vo_ok v'" "vo_size v' = vo_size v" "\<And>j. j < vo_size v \<Longrightarrow> vmo_byte v' j = vmo_byte v j"
  defines "p1 \<equiv> p\<lparr>dp_vmo := Some v', dp_free_space := dp_free_space p + n, dp_consumer := (advance n v' (dp_consumer p))\<lparr>ep_expected := 0\<rparr>\<rparr>"
  shows "\<exists>p' w'. UpdateSignals ops p1 w = Some (p', w') \<and> dinv v' p' w' \<and> pipe_data p' = drop n (pipe_data p) \<and>
    dp_free_space p' = dp_free_space p + n \<and> ep_alive (dp_producer p') = ep_alive (dp_producer p) \<and>
    ep_expected (dp_producer p') = ep_expected (dp_producer p) \<and> ep_expected (dp_consumer p') = 0"
proof -
  have k: "dp_ok p v" using d by (simp add: dp_inv_def)
  let ?u = "vo_size v - dp_free_space p" let ?c = "ep_cursor (dp_consumer p)"
  have u: "vo_size v - (dp_free_space p + n) = ?u - n" "n + (?u - n) = ?u" using n by auto
  have m: "((?c + n) mod vo_size v + (?u - n)) mod vo_size v = (?c + ?u) mod vo_size v"
    unfolding mod_add_left_eq add.assoc u(2) ..
  have ok: "dp_ok p1 v'"
    using k n v' u m unfolding dp_ok_def p1_def by (simp add: advance_cursor)
  have "ring v' ((?c + n) mod vo_size v) (?u - n) = drop n (ring v ?c ?u)"
    using ring_drop [OF n(2), of v' ?c] ring_cong [of v' v ?c ?u] v' k by (simp add: dp_ok_def)
  moreover have "pipe_data p1 = ring v' ((?c + n) mod vo_size v) (vo_size v - (dp_free_space p + n))"
    using k n v' by (simp add: pipe_data_def p1_def dp_ok_def advance_cursor)
  moreover have "pipe_data p = ring v ?c ?u" using k by (simp add: pipe_data_def dp_ok_def)
  ultimately have data: "pipe_data p1 = drop n (pipe_data p)" unfolding u(1) by simp
  have e: "ep_state_tracker (dp_producer p1) = ep_state_tracker (dp_producer p)" "ep_alive (dp_producer p1) = ep_alive (dp_producer p)"
    "ep_state_tracker (dp_consumer p1) = ep_state_tracker (dp_consumer p)" "dp_vmo p1 = Some v'" by (simp_all add: p1_def)
  have pr: "inv w" "tracked (ep_state_tracker (dp_producer p)) w" "tracked (ep_state_tracker (dp_consumer p)) w"
      "set (st_observers (ep_state_tracker (dp_producer p))) \<inter> set (st_observers (ep_state_tracker (dp_consumer p))) = {}"
      "producer_signals (dp_free_space p \<noteq> 0) True (st_signals (ep_state_tracker (dp_producer p)))"
      "consumer_signals (dp_free_space p \<noteq> vo_size v) (ep_alive (dp_producer p)) (st_signals (ep_state_tracker (dp_consumer p)))"
      "dp_free_space p \<noteq> vo_size v \<or> ep_alive (dp_producer p)" "0 < vo_size v'"
    using d k v'(2) n by (auto simp: dp_inv_def dp_ok_def)
  from UpdateSignals_ok [where p = p1, unfolded e, OF pr(1-7) refl pr(8)] obtain tr tr2 w' where
    q: "UpdateSignals ops p1 w = Some (set_consumer_tracker tr2 (set_producer_tracker tr p1), w')" "inv w'"
      "tracked tr w'" "tracked tr2 w'" "st_observers tr = st_observers (ep_state_tracker (dp_producer p))"
      "st_observers tr2 = st_observers (ep_state_tracker (dp_consumer p))" "producer_signals (dp_free_space p1 \<noteq> 0) True (st_signals tr)"
      "consumer_signals (dp_free_space p1 \<noteq> vo_size v') (ep_alive (dp_producer p)) (st_signals tr2)"
    by blast
  let ?p = "set_consumer_tracker tr2 (set_producer_tracker tr p1)"
  have "dinv v' ?p w'" using q d ok e unfolding dp_inv_def by simp
  moreover have "pipe_data ?p = drop n (pipe_data p)" using data by simp
  ultimately show ?thesis using q(1) by (auto simp: p1_def)
qed

lemma write_ok:
  assumes d: "dinv v p w" "ep_alive (dp_producer p)" "ep_expected (dp_producer p) = 0" "0 < dp_free_space p"
    and r: "0 < requested" "requested \<le> length data" and m: "missing_pages v \<le> de_free env"
    and copy: "\<And>a b. fst (copyfunc a b) = NO_ERROR"
  shows "\<exists>k v' p' env' w'. ProducerWriteFromUser ops True copyfunc data requested p env w = Some ((NO_ERROR, k), p', env', w') \<and>
    0 < k \<and> k \<le> requested \<and> k \<le> dp_free_space p \<and> dinv v' p' w' \<and> missing_pages v' \<le> de_free env' \<and>
    pipe_data p' = pipe_data p @ take k data"
proof -
  have ok: "dp_ok p v" using d by (simp add: dp_inv_def)
  let ?b = "ep_cursor (dp_producer p)"
  define k where "k = ComputeSize ?b (ep_cursor (dp_consumer p)) requested v"
  note k = ComputeSize_producer [OF ok d(4) r(1), folded k_def]
  have v: "vo_ok v" "vo_size v < 2 ^ 64" "vo_magic v" "dp_vmo p = Some v" "ep_alive (dp_consumer p)"
    using ok by (auto simp: dp_ok_def vo_ok_def)
  have "0 + k \<le> length data" using k(2) r(2) by simp
  from write_loop_ok [OF v(1) k(4) m this, of copyfunc] copy obtain v' free' where
    l: "write_loop copyfunc data ?b 0 k v (de_free env) = Some ((NO_ERROR, k), v', free')" "vo_ok v'" "vo_size v' = vo_size v"
      "missing_pages v' \<le> free'" "\<And>j. j < vo_size v \<Longrightarrow> vmo_byte v' j = (if ?b \<le> j \<and> j < ?b + k then data ! (j - ?b) else vmo_byte v j)"
    by auto
  have "length (take k data) = k" using k(2) r(2) by simp
  from produce_ok [OF d(1,2) k(3,4) l(2,3) this] l(5) obtain p' w' where
    u: "UpdateSignals ops (p\<lparr>dp_vmo := Some v', dp_free_space := dp_free_space p - k,
          dp_producer := (advance k v' (dp_producer p))\<lparr>ep_expected := 0\<rparr>\<rparr>) w = Some (p', w')" "dinv v' p' w'"
      "pipe_data p' = pipe_data p @ take k data" by fastforce
  have "ProducerWriteFromUser ops True copyfunc data requested p env w = Some ((NO_ERROR, k), p', env\<lparr>de_free := free'\<rparr>, w')"
    using d(3,4) r(1) v l(1) u(1) TrimRange_inside [OF k(4) v(2)]
    by (simp add: ProducerWriteFromUser_def WriteUser_def vmo_write_def Let_def expected_0 flip: k_def)
  with k u l(4) show ?thesis by fastforce
qed

lemma read_ok:
  assumes d: "dinv v p w" "ep_expected (dp_consumer p) = 0" "dp_free_space p \<noteq> vo_size v"
    and r: "0 < requested" and m: "missing_pages v \<le> de_free env" and copy: "\<And>a b. fst (copyfunc a b) = NO_ERROR"
  shows "\<exists>k v' p' env' w'. ConsumerReadFromUser ops True copyfunc requested p env w =
      Some ((NO_ERROR, k, take k (pipe_data p)), p', env', w') \<and>
    0 < k \<and> k \<le> requested \<and> k \<le> length (pipe_data p) \<and> dinv v' p' w' \<and> missing_pages v' \<le> de_free env' \<and>
    pipe_data p' = drop k (pipe_data p)"
proof -
  have ok: "dp_ok p v" using d by (simp add: dp_inv_def)
  let ?b = "ep_cursor (dp_consumer p)"
  define k where "k = ComputeSize ?b (ep_cursor (dp_producer p)) requested v"
  note k = ComputeSize_consumer [OF ok d(3) r(1), folded k_def]
  have v: "vo_ok v" "vo_size v < 2 ^ 64" "vo_magic v" "dp_vmo p = Some v" using ok by (auto simp: dp_ok_def vo_ok_def)
  have data: "pipe_data p = ring v ?b (vo_size v - dp_free_space p)" using v by (simp add: pipe_data_def)
  from read_loop_ok [OF v(1) k(4) m, of copyfunc 0 "[]"] copy obtain v' free' where
    l: "read_loop copyfunc ?b 0 k [] v (de_free env) = Some ((NO_ERROR, k, take k (pipe_data p)), v', free')" "vo_ok v'"
      "vo_size v' = vo_size v" "missing_pages v' \<le> free'" "\<And>j. j < vo_size v \<Longrightarrow> vmo_byte v' j = vmo_byte v j"
    using ring_take [OF k(3,4)] data by auto
  from consume_ok [OF d(1) k(1,3,4) l(2,3,5)] obtain p' w' where
    u: "UpdateSignals ops (p\<lparr>dp_vmo := Some v', dp_free_space := dp_free_space p + k,
          dp_consumer := (advance k v' (dp_consumer p))\<lparr>ep_expected := 0\<rparr>\<rparr>) w = Some (p', w')" "dinv v' p' w'"
      "pipe_data p' = drop k (pipe_data p)" by blast
  have "ConsumerReadFromUser ops True copyfunc requested p env w = Some ((NO_ERROR, k, take k (pipe_data p)), p', env\<lparr>de_free := free'\<rparr>, w')"
    using d(2,3) r(1) v l(1) u(1) TrimRange_inside [OF k(4) v(2)]
    by (simp add: ConsumerReadFromUser_def ReadUser_def vmo_read_def Let_def expected_0 flip: k_def)
  with k u l(4) data show ?thesis by fastforce
qed

lemma write_end_ok:
  assumes d: "dinv v p w" "ep_alive (dp_producer p)" and n: "n \<le> ep_expected (dp_producer p)" "ep_expected (dp_producer p) \<noteq> 0"
  shows "\<exists>p' w'. ProducerWriteEnd ops n p w = Some (NO_ERROR, p', w') \<and> dinv v p' w' \<and>
    pipe_data p' = pipe_data p @ vmo_bytes v (ep_cursor (dp_producer p)) n"
proof -
  have ok: "dp_ok p v" using d by (simp add: dp_inv_def)
  then have v: "vo_ok v" "dp_vmo p = Some v" "n \<le> dp_free_space p" "ep_cursor (dp_producer p) + n \<le> vo_size v"
    using n by (auto simp: dp_ok_def)
  from produce_ok [OF d v(3,4) v(1) refl, of "vmo_bytes v (ep_cursor (dp_producer p)) n"] obtain p' w' where
    u: "UpdateSignals ops (p\<lparr>dp_vmo := Some v, dp_free_space := dp_free_space p - n,
          dp_producer := (advance n v (dp_producer p))\<lparr>ep_expected := 0\<rparr>\<rparr>) w = Some (p', w')" "dinv v p' w'"
      "pipe_data p' = pipe_data p @ vmo_bytes v (ep_cursor (dp_producer p)) n" by (fastforce simp: vmo_bytes_def)
  moreover have "p\<lparr>dp_vmo := Some v\<rparr> = p" using v(2) by simp
  ultimately show ?thesis using n v by (simp add: ProducerWriteEnd_def Let_def)
qed

lemma read_end_ok:
  assumes d: "dinv v p w" and n: "n \<le> ep_expected (dp_consumer p)" "0 < n"
  shows "\<exists>p' w'. ConsumerReadEnd ops n p w = Some (NO_ERROR, p', w') \<and> dinv v p' w' \<and> pipe_data p' = drop n (pipe_data p)"
proof -
  have ok: "dp_ok p v" using d by (simp add: dp_inv_def)
  then have v: "vo_ok v" "dp_vmo p = Some v" "n \<le> vo_size v - dp_free_space p" "ep_cursor (dp_consumer p) + n \<le> vo_size v"
    using n by (auto simp: dp_ok_def)
  from consume_ok [OF d n(2) v(3,4) v(1) refl refl] obtain p' w' where
    u: "UpdateSignals ops (p\<lparr>dp_vmo := Some v, dp_free_space := dp_free_space p + n,
          dp_consumer := (advance n v (dp_consumer p))\<lparr>ep_expected := 0\<rparr>\<rparr>) w = Some (p', w')" "dinv v p' w'"
      "pipe_data p' = drop n (pipe_data p)" by blast
  moreover have "p\<lparr>dp_vmo := Some v\<rparr> = p" using v(2) by simp
  ultimately show ?thesis using n v by (simp add: ConsumerReadEnd_def Let_def)
qed

lemma producer_close_empty:
  assumes d: "dinv v p w" "dp_free_space p = vo_size v"
  shows "\<exists>p' env' w'. OnProducerDestruction ops p env w = Some (p', env', w') \<and> dp_vmo p' = None \<and>
    ep_expected (dp_consumer p') = ep_expected (dp_consumer p) \<and> ep_alive (dp_consumer p')"
proof -
  have t: "inv w" "tracked (ep_state_tracker (dp_consumer p)) w" "dp_vmo p = Some v" "ep_alive (dp_consumer p)"
    using d by (auto simp: dp_inv_def dp_ok_def)
  from UpdateState_tracked [OF t(1,2), of MX_SIGNAL_PEER_CLOSED 0 0 MX_SIGNAL_READABLE] obtain tr w' where
    "UpdateState ops MX_SIGNAL_PEER_CLOSED 0 0 MX_SIGNAL_READABLE (ep_state_tracker (dp_consumer p)) w = Some (tr, w')" by blast
  then show ?thesis using t d(2) by (simp add: OnProducerDestruction_def Let_def split_beta)
qed

lemma consumer_close:
  assumes d: "dinv v p w" "ep_alive (dp_producer p)"
  shows "\<exists>p' env' w'. OnConsumerDestruction ops p env w = Some (p', env', w') \<and> dp_vmo p' = None \<and>
    ep_expected (dp_producer p') = ep_expected (dp_producer p)"
proof -
  have t: "inv w" "tracked (ep_state_tracker (dp_producer p)) w" using d by (auto simp: dp_inv_def)
  from UpdateState_tracked [OF t, of MX_SIGNAL_PEER_CLOSED MX_SIGNAL_WRITABLE 0 MX_SIGNAL_WRITABLE] obtain tr w' where
    "UpdateState ops MX_SIGNAL_PEER_CLOSED MX_SIGNAL_WRITABLE 0 MX_SIGNAL_WRITABLE (ep_state_tracker (dp_producer p)) w = Some (tr, w')" by blast
  then show ?thesis using d(2) by (simp add: OnConsumerDestruction_def Let_def split_beta)
qed

end

section \<open>Properties\<close>

abbreviation dpi :: "lk_time \<Rightarrow> cpu_env \<Rightarrow> vm_object \<Rightarrow> observer data_pipe \<Rightarrow> 'a world_scheme \<Rightarrow> bool" where
  "dpi base e \<equiv> dp_inv (world_inv base e) obs_attached obs_informed"

lemma ROUNDUP_capacity:
  assumes "0 < c" "c \<le> kMaxDataPipeCapacity"
  shows "c \<le> ROUNDUP_PAGE_SIZE c" "ROUNDUP_PAGE_SIZE c \<le> VMO_MAX_SIZE" "ROUNDUP_PAGE_SIZE c < 2 ^ 64"
    "ROUNDUP_PAGE_SIZE (ROUNDUP_PAGE_SIZE c) = ROUNDUP_PAGE_SIZE c" "ROUNDUP_PAGE_SIZE c div PAGE_SIZE * PAGE_SIZE = ROUNDUP_PAGE_SIZE c"
    "ROUNDUP_PAGE_SIZE c div PAGE_SIZE \<le> 65536"
  using assms by (simp_all add: ROUNDUP_PAGE_SIZE_def kMaxDataPipeCapacity_def PAGE_SIZE_def VMO_MAX_SIZE_def; arith)+

lemma DataPipe_Create_ok:
  assumes c: "0 < c" "c \<le> kMaxDataPipeCapacity" and w: "world_inv base e w"
  shows "\<exists>p v. DataPipe_Create c True True True True True = Some (NO_ERROR, Some p) \<and> dpi base e v p w \<and>
    missing_pages v \<le> 65536 \<and> pipe_data p = [] \<and> ep_alive (dp_producer p) \<and> ep_expected (dp_producer p) = 0 \<and> ep_expected (dp_consumer p) = 0 \<and>
    dp_free_space p = vo_size v \<and> c \<le> vo_size v \<and> ep_cursor (dp_producer p) = 0"
proof -
  note r = ROUNDUP_capacity [OF c]
  define s where "s = ROUNDUP_PAGE_SIZE c"
  define v where "v = \<lparr>vo_magic = True, vo_size = s, vo_has_array = True, vo_page_array = replicate (s div PAGE_SIZE) None\<rparr>"
  define p :: "observer data_pipe" where "p = (DataPipe c)\<lparr>dp_vmo := Some v, dp_free_space := s\<rparr>"
  have "VmObject_Create True True s = Some (Some v)"
    using r by (simp add: VmObject_Create_def Resize_def VmObject_def OffsetToIndex_def Let_def v_def flip: s_def)
  then have cr: "DataPipe_Create c True True True True True = Some (NO_ERROR, Some p)"
    using c by (simp add: DataPipe_Create_def DataPipe_Init_def p_def v_def DataPipe_def flip: s_def)
  have "vo_ok v" using r by (simp add: vo_ok_def v_def flip: s_def)
  then have "dp_ok p v" using c r by (simp add: dp_ok_def p_def v_def DataPipe_def EndPoint_def flip: s_def)
  then have "dpi base e v p w"
    using w by (simp add: dp_inv_def p_def v_def DataPipe_def EndPoint_def tracker_ok_def set_initial_signals_state_def StateTracker_def
        producer_signals_def consumer_signals_def bit_or_iff) (use c r(1) in \<open>auto simp: dp_ok_def v_def s_def\<close>)
  moreover have "missing_pages v \<le> 65536" using r(6) by (simp add: missing_pages_def v_def flip: s_def)
  ultimately show ?thesis using cr r(1) by (auto simp: p_def v_def pipe_data_def DataPipe_def EndPoint_def ring_def simp flip: s_def)
qed

text \<open>
  C19: a data pipe is a queue of bytes. A write to an open pipe with space stores a non-empty prefix of the caller's
  bytes at the end of the queue, and a read of a non-empty pipe returns a non-empty prefix of the queue and removes it,
  across the wrap of the ring and the pages of the memory object. Each reports the number of bytes moved, and the cursors, the
  signals of both ends and the observers are right again afterwards.
\<close>

theorem data_pipe_refines_byte_queue:
  assumes "dpi base e v p w" "missing_pages v \<le> de_free env" "0 < requested" "\<forall>a b. fst (copyfunc a b) = NO_ERROR"
  shows "(ep_alive (dp_producer p) \<and> ep_expected (dp_producer p) = 0 \<and> 0 < dp_free_space p \<and> requested \<le> length data \<longrightarrow>
      (\<exists>k v' p' env' w'. ProducerWriteFromUser (world_ops e alloc_ok) True copyfunc data requested p env w =
          Some ((NO_ERROR, k), p', env', w') \<and> 0 < k \<and> k \<le> requested \<and> dpi base e v' p' w' \<and>
        missing_pages v' \<le> de_free env' \<and> pipe_data p' = pipe_data p @ take k data)) \<and>
    (ep_expected (dp_consumer p) = 0 \<and> pipe_data p \<noteq> [] \<longrightarrow>
      (\<exists>k v' p' env' w'. ConsumerReadFromUser (world_ops e alloc_ok) True copyfunc requested p env w =
          Some ((NO_ERROR, k, take k (pipe_data p)), p', env', w') \<and> 0 < k \<and> k \<le> requested \<and> dpi base e v' p' w' \<and>
        missing_pages v' \<le> de_free env' \<and> pipe_data p' = drop k (pipe_data p)))"
proof -
  have "dp_free_space p \<noteq> vo_size v" if "pipe_data p \<noteq> []"
    using that assms(1) by (auto simp: pipe_data_def dp_inv_def dp_ok_def ring_def)
  then show ?thesis
    using obs.write_ok [OF assms(1), of requested data env copyfunc alloc_ok] obs.read_ok [OF assms(1), of requested env copyfunc alloc_ok] assms(2-4)
    by blast
qed

theorem data_pipe_refines_byte_queue_witness:
  "\<exists>p v k v' p' env' w'. dpi 0 (env0 0) v p world0 \<and>
    ProducerWriteFromUser (world_ops (env0 0) True) True memcpy_func [7, 8, 9] 3 p \<lparr>de_free = 65536, de_regions = []\<rparr> world0 =
      Some ((NO_ERROR, k), p', env', w') \<and> 0 < k \<and> dpi 0 (env0 0) v' p' w' \<and> pipe_data p' = take k [7, 8, 9]"
proof -
  obtain p v where p: "dpi 0 (env0 0) v p world0" "missing_pages v \<le> 65536" "pipe_data p = []" "ep_alive (dp_producer p)"
    "ep_expected (dp_producer p) = 0" "dp_free_space p = vo_size v" "1 \<le> vo_size v"
    using DataPipe_Create_ok [of 1 0 "env0 0" world0] world0_inv by (auto simp: kMaxDataPipeCapacity_def)
  from data_pipe_refines_byte_queue [OF p(1), of "\<lparr>de_free = 65536, de_regions = []\<rparr>" 3 memcpy_func "[7, 8, 9]" True] p
  show ?thesis by (simp add: memcpy_func_def) blast
qed

text \<open>
  A mapped transfer is the same queue operation. Ending a mapped write of up to the size that was granted appends
  the bytes that then stand in the window at the producer's cursor; ending a mapped read removes that many
  bytes from the front. Neither fails an assertion or breaks the invariant.
\<close>

lemma data_pipe_mapped_transfer:
  assumes "dpi base e v p w"
  shows "(ep_alive (dp_producer p) \<and> ep_expected (dp_producer p) \<noteq> 0 \<and> n \<le> ep_expected (dp_producer p) \<longrightarrow>
      (\<exists>p' w'. ProducerWriteEnd (world_ops e alloc_ok) n p w = Some (NO_ERROR, p', w') \<and> dpi base e v p' w' \<and>
        pipe_data p' = pipe_data p @ vmo_bytes v (ep_cursor (dp_producer p)) n)) \<and>
    (0 < n \<and> n \<le> ep_expected (dp_consumer p) \<longrightarrow>
      (\<exists>p' w'. ConsumerReadEnd (world_ops e alloc_ok) n p w = Some (NO_ERROR, p', w') \<and> dpi base e v p' w' \<and>
        pipe_data p' = drop n (pipe_data p)))"
  using obs.write_end_ok [OF assms, of n alloc_ok] obs.read_end_ok [OF assms, of n alloc_ok] by blast

text \<open>The window of a begun write on a fresh pipe of one page.\<close>

definition dp_example :: "observer data_pipe \<Rightarrow> observer data_pipe" where
  "dp_example p = p\<lparr>dp_producer := (dp_producer p)\<lparr>ep_expected := 3\<rparr>\<rparr>"

lemma dp_example_inv:
  "\<exists>p v. dpi 0 (env0 0) v (dp_example p) world0 \<and> ep_alive (dp_producer (dp_example p)) \<and> ep_expected (dp_producer (dp_example p)) = 3"
proof -
  obtain p v where p: "dpi 0 (env0 0) v p world0" "ep_alive (dp_producer p)" "dp_free_space p = vo_size v" "5 \<le> vo_size v" "ep_cursor (dp_producer p) = 0"
    using DataPipe_Create_ok [of 5 0 "env0 0" world0] world0_inv by (auto simp: kMaxDataPipeCapacity_def)
  then have "dpi 0 (env0 0) v (dp_example p) world0" using p by (auto simp: dp_inv_def dp_ok_def dp_example_def)
  then show ?thesis using p(2) by (auto simp: dp_example_def)
qed

lemma data_pipe_mapped_transfer_witness:
  "\<exists>p v p' w'. dpi 0 (env0 0) v p world0 \<and> ProducerWriteEnd (world_ops (env0 0) True) 2 p world0 = Some (NO_ERROR, p', w') \<and>
    pipe_data p' = pipe_data p @ vmo_bytes v (ep_cursor (dp_producer p)) 2"
proof -
  obtain p v where p: "dpi 0 (env0 0) v p world0" "ep_alive (dp_producer p)" "ep_expected (dp_producer p) = 3"
    using dp_example_inv by blast
  from data_pipe_mapped_transfer [OF p(1), of 2 True] p show ?thesis by auto
qed

text \<open>
  Using a data pipe after its peer has gone can fault the kernel. Closing the producer of an empty pipe drops the memory
  object, and the next read by the consumer, mapped or not, dereferences it; closing the consumer drops it as well, and
  the end of a mapped write that the producer had begun dereferences it.
\<close>

lemma data_pipe_closed_peer_faults:
  assumes "dpi base e v p w"
  shows "(dp_free_space p = vo_size v \<and> ep_expected (dp_consumer p) = 0 \<longrightarrow>
      (\<exists>p' env' w'. OnProducerDestruction (world_ops e alloc_ok) p env w = Some (p', env', w') \<and>
        (\<forall>copyfunc n map_object aspace. 0 < n \<longrightarrow>
          ConsumerReadFromUser (world_ops e alloc_ok) True copyfunc n p' env' w' = None \<and>
          ConsumerReadBegin map_object aspace n p' env' = None))) \<and>
    (ep_alive (dp_producer p) \<and> ep_expected (dp_producer p) \<noteq> 0 \<longrightarrow>
      (\<exists>p' env' w'. OnConsumerDestruction (world_ops e alloc_ok) p env w = Some (p', env', w') \<and>
        (\<forall>n\<le>ep_expected (dp_producer p). ProducerWriteEnd (world_ops e alloc_ok) n p' w' = None)))"
proof (intro conjI impI)
  assume "dp_free_space p = vo_size v \<and> ep_expected (dp_consumer p) = 0"
  then show "\<exists>p' env' w'. OnProducerDestruction (world_ops e alloc_ok) p env w = Some (p', env', w') \<and>
        (\<forall>copyfunc n map_object aspace. 0 < n \<longrightarrow>
          ConsumerReadFromUser (world_ops e alloc_ok) True copyfunc n p' env' w' = None \<and>
          ConsumerReadBegin map_object aspace n p' env' = None)"
    using obs.producer_close_empty [OF assms, of alloc_ok env] by (fastforce simp: ConsumerReadFromUser_def ConsumerReadBegin_def)
next
  assume a: "ep_alive (dp_producer p) \<and> ep_expected (dp_producer p) \<noteq> 0"
  with obs.consumer_close [OF assms, of alloc_ok env] obtain p' env' w' where
    "OnConsumerDestruction (world_ops e alloc_ok) p env w = Some (p', env', w')" "dp_vmo p' = None"
    "ep_expected (dp_producer p') = ep_expected (dp_producer p)" by blast
  then show "\<exists>p' env' w'. OnConsumerDestruction (world_ops e alloc_ok) p env w = Some (p', env', w') \<and>
        (\<forall>n\<le>ep_expected (dp_producer p). ProducerWriteEnd (world_ops e alloc_ok) n p' w' = None)"
    using a by (auto simp: ProducerWriteEnd_def)
qed

lemma data_pipe_closed_peer_faults_witness:
  "\<exists>p v p' env' w'. dpi 0 (env0 0) v p world0 \<and>
    OnProducerDestruction (world_ops (env0 0) True) p \<lparr>de_free = 0, de_regions = []\<rparr> world0 = Some (p', env', w') \<and>
    ConsumerReadFromUser (world_ops (env0 0) True) True memcpy_func 1 p' env' w' = None"
proof -
  obtain p v where p: "dpi 0 (env0 0) v p world0" "dp_free_space p = vo_size v" "ep_expected (dp_consumer p) = 0"
    using DataPipe_Create_ok [of 5 0 "env0 0" world0] world0_inv by (auto simp: kMaxDataPipeCapacity_def)
  from data_pipe_closed_peer_faults [OF p(1), of True "\<lparr>de_free = 0, de_regions = []\<rparr>"] p show ?thesis
    by (metis zero_less_one)
qed

text \<open>
  Creating a data pipe that is too large fails an assertion. The pipe is destroyed with both of its ends still marked
  alive, which its destructor asserts not to be; so is a pipe whose memory object or producer
  dispatcher can not be allocated. Every other request returns.
\<close>

lemma data_pipe_create_failure_panics:
  assumes "0 < capacity" "capacity < 2 ^ 64" "pipe_ok"
  shows "(DataPipe_Create capacity pipe_ok vmo_ok array_ok producer_ok consumer_ok :: (status \<times> observer data_pipe option) option) = None \<longleftrightarrow>
    capacity > kMaxDataPipeCapacity \<or> \<not> vmo_ok \<or> \<not> array_ok \<or> \<not> producer_ok"
proof (cases "capacity > kMaxDataPipeCapacity")
  case True
  then show ?thesis using assms(3) by (simp add: DataPipe_Create_def DataPipe_Init_def DataPipe_def DataPipe_destroy_def EndPoint_def)
next
  case False
  note r = ROUNDUP_capacity [OF assms(1)]
  show ?thesis
    using False assms r by (simp add: DataPipe_Create_def DataPipe_Init_def DataPipe_def DataPipe_destroy_def EndPoint_def
        VmObject_Create_def Resize_def VmObject_def OffsetToIndex_def Let_def)
qed

lemma data_pipe_create_failure_panics_witness:
  "(DataPipe_Create (2 ^ 30) True True True True True :: (status \<times> observer data_pipe option) option) = None"
  using data_pipe_create_failure_panics [of "2 ^ 30" True True True True True] by (simp add: kMaxDataPipeCapacity_def)

end
