(* ===== verification/Arena.thy ===== *)
theory Arena
  imports Vm_Object
begin

text \<open>
  The arena allocator: \<^verbatim>\<open>kernel/lib/utils/arena.cpp\<close>. An arena hands out slots of one size from a contiguous range backed
  by a memory object; freed slots are kept on a list whose nodes are a stack in the control zone. Addresses are natural
  numbers. Memory is committed ahead of use through \<open>CommitRange\<close>. Allocating the two zones in the kernel's address space is an
  argument of \<open>Arena_Init\<close>.
\<close>

section \<open>The allocator\<close>

record arena =
  ar_free :: "(nat \<times> nat) list"
  ar_ob_size :: nat
  ar_c_start :: nat
  ar_c_top :: nat
  ar_d_start :: nat
  ar_d_top :: nat
  ar_d_end :: nat
  ar_vmo :: "vm_object option"
  ar_p_top :: nat

definition sizeof_Node :: nat where "sizeof_Node = 16"

definition Arena :: arena where
  "Arena = \<lparr>ar_free = [], ar_ob_size = 0, ar_c_start = 0, ar_c_top = 0, ar_d_start = 0, ar_d_top = 0, ar_d_end = 0,
     ar_vmo = None, ar_p_top = 0\<rparr>"

definition Arena_Init ::
  "nat \<Rightarrow> nat \<Rightarrow> nat \<Rightarrow> status \<times> nat \<Rightarrow> bool \<Rightarrow> bool \<Rightarrow> status \<times> nat \<Rightarrow> arena \<Rightarrow> (status \<times> arena) option" where
  "Arena_Init name_length ob_size count ctrl alloc_ok array_ok data a =
     (if ob_size = 0 \<or> ob_size > PAGE_SIZE then Some (ERR_INVALID_ARGS, a)
      else if count = 0 then Some (ERR_INVALID_ARGS, a)
      else do {
        let a = a\<lparr>ar_ob_size := ob_size\<rparr>;
        if name_length \<ge> 24 then Some (ERR_INVALID_ARGS, a)
        else if fst ctrl \<noteq> NO_ERROR then Some (fst ctrl, a)
        else do {
          let a = a\<lparr>ar_c_start := snd ctrl, ar_c_top := snd ctrl\<rparr>;
          let data_mem_sz = count * ob_size mod 2 ^ 64;
          vmo \<leftarrow> VmObject_Create alloc_ok array_ok data_mem_sz;
          let a = a\<lparr>ar_vmo := vmo\<rparr>;
          if vmo = None then Some (ERR_NO_MEMORY, a)
          else if fst data \<noteq> NO_ERROR then Some (fst data, a)
          else Some (NO_ERROR, a\<lparr>ar_d_start := snd data, ar_d_top := snd data, ar_p_top := snd data,
                                 ar_d_end := (snd data + data_mem_sz) mod 2 ^ 64\<rparr>)
        }
      })"

text \<open>The pages left in the allocator go in and out; running out of them is a panic.\<close>

definition CommitMemoryAheadIfNeeded :: "arena \<Rightarrow> nat \<Rightarrow> (arena \<times> nat) option" where
  "CommitMemoryAheadIfNeeded a free =
     (if int (ar_p_top a) - int (ar_d_top a) \<ge> int PAGE_SIZE then Some (a, free)
      else do {
        v \<leftarrow> ar_vmo a;
        (r, v, free) \<leftarrow> CommitRange (ar_p_top a - ar_d_start a) (4 * PAGE_SIZE) v free;
        case r of
          Inl _ \<Rightarrow> None
        | Inr len \<Rightarrow> Some (a\<lparr>ar_vmo := Some v, ar_p_top := ar_p_top a + len\<rparr>, free)
      })"

definition Arena_Alloc :: "arena \<Rightarrow> nat \<Rightarrow> (nat option \<times> arena \<times> nat) option" where
  "Arena_Alloc a free =
     (case ar_free a of
        (node, slot) # rest \<Rightarrow> Some (Some slot, a\<lparr>ar_free := rest, ar_c_top := ar_c_top a - sizeof_Node\<rparr>, free)
      | [] \<Rightarrow>
          if ar_d_top a < ar_d_end a
          then do {
            (a, free) \<leftarrow> CommitMemoryAheadIfNeeded a free;
            Some (Some (ar_d_top a), a\<lparr>ar_d_top := ar_d_top a + ar_ob_size a\<rparr>, free)
          }
          else Some (None, a, free))"

definition Arena_Free :: "nat \<Rightarrow> arena \<Rightarrow> arena option" where
  "Arena_Free addr a =
     (if addr = 0 then Some a
      else do {
        kassert (ar_d_start a \<le> addr \<and> addr < ar_d_end a);
        Some (a\<lparr>ar_free := (ar_c_top a, addr) # ar_free a, ar_c_top := ar_c_top a + sizeof_Node\<rparr>)
      })"

definition in_range :: "nat \<Rightarrow> arena \<Rightarrow> bool" where
  "in_range addr a \<longleftrightarrow> ar_d_start a \<le> addr \<and> addr < ar_d_top a"

section \<open>Committing a fresh range\<close>

lemma page_steps_aligned: "page_steps (i * PAGE_SIZE) (j * PAGE_SIZE) = map (\<lambda>k. k * PAGE_SIZE) [i..<j]"
proof (induction "j - i" arbitrary: i)
  case 0
  then show ?case by (simp add: page_steps.simps)
next
  case (Suc n)
  then have "i < j" by simp
  moreover from this have "page_steps (Suc i * PAGE_SIZE) (j * PAGE_SIZE) = map (\<lambda>k. k * PAGE_SIZE) [Suc i..<j]"
    using Suc by (intro Suc.hyps) simp
  ultimately show ?case
    by (subst page_steps.simps) (simp add: upt_conv_Cons add.commute [of _ PAGE_SIZE])
qed

lemma commit_pages_missing:
  assumes "vo_ok v" "length ps \<le> n" "distinct (map OffsetToIndex ps)"
    "\<forall>p\<in>set ps. OffsetToIndex p < length (vo_page_array v) \<and> page_missing v p"
  shows "\<exists>v'. commit_pages ps n v = Some (n - length ps, v') \<and> vo_ok v' \<and> vo_size v' = vo_size v \<and>
    missing_pages v = missing_pages v' + length ps \<and> length (vo_page_array v') = length (vo_page_array v) \<and>
    (\<forall>i. i \<notin> OffsetToIndex ` set ps \<longrightarrow> vo_page_array v' ! i = vo_page_array v ! i)"
  using assms
proof (induction ps arbitrary: n v)
  case (Cons p ps)
  let ?i = "OffsetToIndex p" let ?v = "v\<lparr>vo_page_array := (vo_page_array v)[?i := Some ZeroPage]\<rparr>"
  have p: "?i < length (vo_page_array v)" "vo_page_array v ! ?i = None" "vo_magic v" "vo_has_array v" "0 < n"
    using Cons.prems by (auto simp: page_missing_def vo_ok_def)
  have add: "AddPageToArray ?i ZeroPage v = Some ?v" using p by (simp add: AddPageToArray_def)
  have "vo_ok ?v" using Cons.prems(1) by (auto simp: vo_ok_def ZeroPage_def dest!: set_update_subset_insert [THEN subsetD])
  moreover have "\<forall>q\<in>set ps. OffsetToIndex q < length (vo_page_array ?v) \<and> page_missing ?v q"
    using Cons.prems(3,4) by (auto simp: page_missing_def nth_list_update)
  moreover have le: "length ps \<le> n - 1" using Cons.prems(2) by simp
  ultimately obtain v' where v': "commit_pages ps (n - 1) ?v = Some (n - 1 - length ps, v')" "vo_ok v'" "vo_size v' = vo_size v"
    "missing_pages ?v = missing_pages v' + length ps" "length (vo_page_array v') = length (vo_page_array v)"
    "\<And>i. i \<notin> OffsetToIndex ` set ps \<Longrightarrow> vo_page_array v' ! i = vo_page_array ?v ! i"
    using Cons.IH [of ?v "n - 1"] Cons.prems le by auto
  have "missing_pages v = Suc (missing_pages ?v)"
    unfolding missing_pages_def using missing_pages_update [OF p(1,2)] by simp
  then show ?case using add v' p(5) by (intro exI [of _ v']) (auto simp: nth_list_update)
qed auto

text \<open>The part of an object from a page boundary on that has no pages yet.\<close>

definition fresh_from :: "nat \<Rightarrow> vm_object \<Rightarrow> bool" where
  "fresh_from p v \<longleftrightarrow> p \<le> vo_size v \<and> (p = vo_size v \<or> PAGE_SIZE dvd p) \<and>
     (\<forall>i<length (vo_page_array v). p \<le> i * PAGE_SIZE \<longrightarrow> vo_page_array v ! i = None)"

lemma CommitRange_fresh:
  assumes v: "vo_ok v" "vo_size v \<le> VMO_MAX_SIZE" and p: "fresh_from p v" and len: "PAGE_SIZE dvd len" "0 < len" "p + len < 2 ^ 64"
    and m: "missing_pages v \<le> free"
  shows "\<exists>v' free'. CommitRange p len v free = Some (Inr (min len (vo_size v - p)), v', free') \<and> vo_ok v' \<and> vo_size v' = vo_size v \<and>
    missing_pages v' \<le> free' \<and> fresh_from (p + min len (vo_size v - p)) v'"
proof (cases "p = vo_size v")
  case True
  then have "TrimRange p len (vo_size v) = Some 0" using len by (simp add: TrimRange_def)
  then show ?thesis using True v p m by (simp add: CommitRange_def vo_ok_def)
next
  case False
  define n where "n = min len (vo_size v - p)"
  have n: "0 < n" "p + n \<le> vo_size v" using False p len by (auto simp: n_def fresh_from_def)
  obtain a where a: "p = a * PAGE_SIZE" using False p by (auto simp: fresh_from_def dvd_def mult.commute)
  have lim: "vo_size v + (PAGE_SIZE - 1) < 2 ^ 64" using v(2) by (simp add: VMO_MAX_SIZE_def PAGE_SIZE_def)
  define b where "b = (p + n + (PAGE_SIZE - 1)) div PAGE_SIZE"
  have end_eq: "ROUNDUP_PAGE_SIZE ((p + n) mod 2 ^ 64) = b * PAGE_SIZE"
    using n(2) lim by (simp add: ROUNDUP_PAGE_SIZE_def b_def)
  have b: "p + n \<le> b * PAGE_SIZE" "b * PAGE_SIZE < p + n + PAGE_SIZE"
    unfolding b_def PAGE_SIZE_def by (simp, arith)+
  have bl: "b \<le> length (vo_page_array v)"
  proof -
    have "b * PAGE_SIZE < (length (vo_page_array v) + 1) * PAGE_SIZE" using b(2) n(2) v(1) by (simp add: vo_ok_def)
    then show ?thesis by (metis Suc_eq_plus1 less_Suc_eq_le mult_less_cancel2)
  qed
  let ?ps = "map (\<lambda>k. k * PAGE_SIZE) [a..<b]"
  have ind: "OffsetToIndex (k * PAGE_SIZE) = k" for k by (simp add: OffsetToIndex_def)
  have ms: "\<forall>q\<in>set ?ps. OffsetToIndex q < length (vo_page_array v) \<and> page_missing v q"
    using bl p a by (auto simp: ind page_missing_def fresh_from_def)
  have ab: "a < b" using b(1) n(1) a by (metis add_lessD1 le_neq_implies_less less_add_same_cancel1 mult_less_cancel2 nless_le order_less_le_trans)
  have flt: "filter (page_missing v) ?ps = ?ps" using ms by (auto simp: filter_id_conv)
  obtain v' where v': "commit_pages ?ps (b - a) v = Some (0, v')" "vo_ok v'" "vo_size v' = vo_size v"
    "missing_pages v = missing_pages v' + (b - a)" "length (vo_page_array v') = length (vo_page_array v)"
    "\<And>i. i \<notin> {a..<b} \<Longrightarrow> vo_page_array v' ! i = vo_page_array v ! i"
    using commit_pages_missing [OF v(1), of ?ps "b - a"] ms by (auto simp: ind comp_def image_image)
  have "TrimRange p len (vo_size v) = Some n" using p len by (auto simp: TrimRange_def n_def fresh_from_def)
  then have "CommitRange p len v free = Some (Inr n, v', free - (b - a))"
    using n v(1) m v'(1,4) end_eq b ab page_steps_aligned [of a b] ms flt
    by (simp add: CommitRange_def Let_def vo_ok_def flip: a)
  moreover have "fresh_from (p + n) v'"
  proof -
    have "p + n = vo_size v \<or> PAGE_SIZE dvd p + n" using len(1) a p by (auto simp: n_def min_def fresh_from_def)
    moreover have "vo_page_array v' ! i = None" if "i < length (vo_page_array v)" "p + n \<le> i * PAGE_SIZE" for i
    proof -
      have "b \<le> i" using that(2) b(2) by (metis add_le_cancel_right less_Suc_eq_le mult_Suc mult_less_cancel2 add.commute order_less_le_trans)
      then show ?thesis using v'(6) that p by (simp add: fresh_from_def)
    qed
    ultimately show ?thesis using n(2) v'(3,5) by (auto simp: fresh_from_def)
  qed
  ultimately show ?thesis using v' m by (auto simp: n_def)
qed

section \<open>What the allocator keeps\<close>

definition arena_slots :: "arena \<Rightarrow> nat set" where
  "arena_slots a = {ar_d_start a + i * ar_ob_size a | i. ar_d_start a + i * ar_ob_size a < ar_d_top a}"

text \<open>The control zone holds one node for every free slot, the first of the list on top.\<close>

definition arena_nodes :: "arena \<Rightarrow> bool" where
  "arena_nodes a \<longleftrightarrow> ar_c_top a = ar_c_start a + sizeof_Node * length (ar_free a) \<and>
     map fst (ar_free a) = rev (map (\<lambda>i. ar_c_start a + sizeof_Node * i) [0..<length (ar_free a)])"

text \<open>The committed memory reaches over the slots in use, and nothing is committed beyond it.\<close>

definition arena_committed :: "arena \<Rightarrow> nat \<Rightarrow> bool" where
  "arena_committed a free \<longleftrightarrow> (\<exists>v. ar_vmo a = Some v \<and> vo_ok v \<and> vo_size v = ar_d_end a - ar_d_start a \<and>
     ar_d_start a \<le> ar_p_top a \<and> ar_d_top a \<le> ar_p_top a \<and> fresh_from (ar_p_top a - ar_d_start a) v \<and> missing_pages v \<le> free)"

definition arena_ok :: "nat \<Rightarrow> nat set \<Rightarrow> arena \<Rightarrow> nat \<Rightarrow> bool" where
  "arena_ok count live a free \<longleftrightarrow>
     0 < ar_ob_size a \<and> ar_ob_size a \<le> PAGE_SIZE \<and> 0 < ar_d_start a \<and> ar_d_end a = ar_d_start a + count * ar_ob_size a \<and>
     ar_d_end a < 2 ^ 63 \<and> (\<exists>m\<le>count. ar_d_top a = ar_d_start a + m * ar_ob_size a) \<and>
     distinct (map snd (ar_free a)) \<and> live \<inter> snd ` set (ar_free a) = {} \<and> live \<union> snd ` set (ar_free a) = arena_slots a \<and>
     arena_nodes a \<and> arena_committed a free"

lemma arena_slots_eq:
  assumes "ar_d_top a = ar_d_start a + m * ar_ob_size a" "0 < ar_ob_size a"
  shows "arena_slots a = (\<lambda>i. ar_d_start a + i * ar_ob_size a) ` {..<m}"
  using assms by (auto simp: arena_slots_def)

lemma arena_slots_top:
  assumes "0 < ar_ob_size a" "ar_d_top a = ar_d_start a + m * ar_ob_size a"
  shows "arena_slots (a\<lparr>ar_d_top := ar_d_top a + ar_ob_size a\<rparr>) = insert (ar_d_top a) (arena_slots a)" "ar_d_top a \<notin> arena_slots a"
proof -
  have "arena_slots (a\<lparr>ar_d_top := ar_d_top a + ar_ob_size a\<rparr>) = (\<lambda>i. ar_d_start a + i * ar_ob_size a) ` {..<Suc m}"
    using arena_slots_eq [of "a\<lparr>ar_d_top := ar_d_top a + ar_ob_size a\<rparr>" "Suc m"] assms by simp
  then show "arena_slots (a\<lparr>ar_d_top := ar_d_top a + ar_ob_size a\<rparr>) = insert (ar_d_top a) (arena_slots a)"
    using arena_slots_eq [OF assms(2,1)] assms by (simp add: lessThan_Suc)
  show "ar_d_top a \<notin> arena_slots a" by (auto simp: arena_slots_def)
qed

lemma commit_ahead_ok:
  assumes ok: "arena_committed a free" and sz: "ar_d_end a < 2 ^ 63" "ar_d_start a \<le> ar_d_end a"
    and top: "ar_d_top a + ar_ob_size a \<le> ar_d_end a" "ar_ob_size a \<le> PAGE_SIZE"
  shows "\<exists>v p free'. CommitMemoryAheadIfNeeded a free = Some (a\<lparr>ar_vmo := Some v, ar_p_top := p\<rparr>, free') \<and>
    arena_committed (a\<lparr>ar_vmo := Some v, ar_p_top := p\<rparr>) free' \<and> ar_d_top a + ar_ob_size a \<le> p"
proof -
  obtain v where v: "ar_vmo a = Some v" "vo_ok v" "vo_size v = ar_d_end a - ar_d_start a" "ar_d_start a \<le> ar_p_top a"
    "ar_d_top a \<le> ar_p_top a" "fresh_from (ar_p_top a - ar_d_start a) v" "missing_pages v \<le> free"
    using ok by (auto simp: arena_committed_def)
  show ?thesis
  proof (cases "int (ar_p_top a) - int (ar_d_top a) \<ge> int PAGE_SIZE")
    case True
    then have "CommitMemoryAheadIfNeeded a free = Some (a\<lparr>ar_vmo := Some v, ar_p_top := ar_p_top a\<rparr>, free)"
      using v(1) by (simp add: CommitMemoryAheadIfNeeded_def)
    moreover have "ar_d_top a + ar_ob_size a \<le> ar_p_top a" using True top(2) by linarith
    ultimately show ?thesis using v by (fastforce simp: arena_committed_def)
  next
    case False
    define p where "p = ar_p_top a - ar_d_start a"
    define n where "n = min (4 * PAGE_SIZE) (vo_size v - p)"
    have lim: "vo_size v < 2 ^ 63" "p \<le> vo_size v" using v(3,6) sz by (auto simp: fresh_from_def p_def)
    then obtain v' free' where c: "CommitRange p (4 * PAGE_SIZE) v free = Some (Inr n, v', free')" "vo_ok v'" "vo_size v' = vo_size v"
      "missing_pages v' \<le> free'" "fresh_from (p + n) v'"
      using CommitRange_fresh [OF v(2) _ v(6) [folded p_def], of "4 * PAGE_SIZE" free] v(7)
      unfolding n_def by (auto simp: VMO_MAX_SIZE_def PAGE_SIZE_def)
    have "CommitMemoryAheadIfNeeded a free = Some (a\<lparr>ar_vmo := Some v', ar_p_top := ar_p_top a + n\<rparr>, free')"
      using False v(1) c(1) by (simp add: CommitMemoryAheadIfNeeded_def p_def)
    moreover have "ar_d_top a + ar_ob_size a \<le> ar_p_top a + n"
      using v(3,4,5) top lim(2) by (auto simp: n_def p_def min_def split: if_splits)
    moreover have "ar_p_top a + n - ar_d_start a = p + n" using v(4) by (simp add: p_def)
    ultimately show ?thesis using c v by (intro exI [of _ v'] exI [of _ "ar_p_top a + n"] exI [of _ free']) (auto simp: arena_committed_def)
  qed
qed

lemma arena_nodes_pop:
  assumes "arena_nodes a" "ar_free a = x # rest"
  shows "arena_nodes (a\<lparr>ar_free := rest, ar_c_top := ar_c_top a - sizeof_Node\<rparr>)"
  using assms by (auto simp: arena_nodes_def)

lemma arena_nodes_push:
  assumes "arena_nodes a"
  shows "arena_nodes (a\<lparr>ar_free := (ar_c_top a, slot) # ar_free a, ar_c_top := ar_c_top a + sizeof_Node\<rparr>)"
  using assms by (auto simp: arena_nodes_def)

lemma Arena_Alloc_ok:
  assumes ok: "arena_ok count live a free"
  shows "\<exists>r a' free'. Arena_Alloc a free = Some (r, a', free') \<and> ar_ob_size a' = ar_ob_size a \<and> ar_d_start a' = ar_d_start a \<and>
    (case r of
       Some slot \<Rightarrow> slot \<notin> live \<and> in_range slot a' \<and> slot \<in> arena_slots a' \<and> arena_ok count (insert slot live) a' free'
     | None \<Rightarrow> a' = a \<and> card live = count \<and> free' = free)"
proof -
  obtain m where m: "m \<le> count" "ar_d_top a = ar_d_start a + m * ar_ob_size a" using ok by (auto simp: arena_ok_def)
  have ob: "0 < ar_ob_size a" "ar_ob_size a \<le> PAGE_SIZE" "ar_d_end a = ar_d_start a + count * ar_ob_size a" "ar_d_end a < 2 ^ 63"
    using ok by (simp_all add: arena_ok_def)
  show ?thesis
  proof (cases "ar_free a")
    case (Cons x rest)
    obtain node slot where x: "x = (node, slot)" by force
    let ?a = "a\<lparr>ar_free := rest, ar_c_top := ar_c_top a - sizeof_Node\<rparr>"
    have s: "slot \<notin> live" "slot \<in> arena_slots a" "slot \<notin> snd ` set rest" using ok Cons x by (auto simp: arena_ok_def)
    have "arena_ok count (insert slot live) ?a free"
      using ok Cons x s arena_nodes_pop [OF _ Cons] by (auto simp: arena_ok_def arena_slots_def arena_committed_def)
    then show ?thesis using Cons x s by (auto simp: Arena_Alloc_def in_range_def arena_slots_def)
  next
    case Nil
    show ?thesis
    proof (cases "ar_d_top a < ar_d_end a")
      case True
      then have mc: "Suc m \<le> count" using m ob by simp
      then have "Suc m * ar_ob_size a \<le> count * ar_ob_size a" by (rule mult_le_mono1)
      then have le: "ar_d_top a + ar_ob_size a \<le> ar_d_end a" using m ob by simp
      obtain v p free' where c: "CommitMemoryAheadIfNeeded a free = Some (a\<lparr>ar_vmo := Some v, ar_p_top := p\<rparr>, free')"
        "arena_committed (a\<lparr>ar_vmo := Some v, ar_p_top := p\<rparr>) free'" "ar_d_top a + ar_ob_size a \<le> p"
        using commit_ahead_ok [of a free] ok le ob by (auto simp: arena_ok_def)
      let ?a = "a\<lparr>ar_vmo := Some v, ar_p_top := p, ar_d_top := ar_d_top a + ar_ob_size a\<rparr>"
      have sl: "arena_slots ?a = insert (ar_d_top a) (arena_slots a)" "ar_d_top a \<notin> arena_slots a"
        using arena_slots_top [OF ob(1) m(2)] by (simp_all add: arena_slots_def)
      have "ar_d_top ?a = ar_d_start ?a + Suc m * ar_ob_size ?a" using m by simp
      then have "\<exists>m\<le>count. ar_d_top ?a = ar_d_start ?a + m * ar_ob_size ?a" using mc by blast
      then have "arena_ok count (insert (ar_d_top a) live) ?a free'"
        using ok c(2,3) Nil sl by (auto simp: arena_ok_def arena_committed_def arena_nodes_def)
      then show ?thesis using True c(1) Nil sl ok ob(1) by (auto simp: Arena_Alloc_def arena_ok_def in_range_def)
    next
      case False
      then have "m = count" using m ob by simp
      moreover have "live = arena_slots a" using ok Nil by (auto simp: arena_ok_def)
      moreover have "card (arena_slots a) = m"
        unfolding arena_slots_eq [OF m(2) ob(1)] using ob(1) by (subst card_image) (auto intro: inj_onI)
      ultimately show ?thesis using False Nil by (simp add: Arena_Alloc_def)
    qed
  qed
qed

lemma arena_ok_slot:
  assumes "arena_ok count live a free" "slot \<in> live"
  shows "in_range slot a" "0 < slot" "slot < ar_d_end a" "ar_d_start a \<le> slot" "ar_ob_size a dvd slot - ar_d_start a"
proof -
  have "slot \<in> arena_slots a" using assms by (auto simp: arena_ok_def)
  moreover have "ar_d_top a \<le> ar_d_end a" "0 < ar_d_start a" using assms by (auto simp: arena_ok_def)
  ultimately show "in_range slot a" "0 < slot" "slot < ar_d_end a" "ar_d_start a \<le> slot" "ar_ob_size a dvd slot - ar_d_start a"
    by (auto simp: arena_slots_def in_range_def)
qed

lemma Arena_Free_ok:
  assumes ok: "arena_ok count live a free" and slot: "slot \<in> live"
  shows "\<exists>a'. Arena_Free slot a = Some a' \<and> arena_ok count (live - {slot}) a' free \<and> ar_free a' = (ar_c_top a, slot) # ar_free a \<and>
    ar_ob_size a' = ar_ob_size a \<and> ar_d_start a' = ar_d_start a \<and> ar_d_top a' = ar_d_top a"
proof -
  note s = arena_ok_slot [OF ok slot]
  have "slot \<notin> snd ` set (ar_free a)" "slot \<in> arena_slots a" using ok slot by (auto simp: arena_ok_def)
  then have "arena_ok count (live - {slot}) (a\<lparr>ar_free := (ar_c_top a, slot) # ar_free a, ar_c_top := ar_c_top a + sizeof_Node\<rparr>) free"
    using ok slot arena_nodes_push [of a slot] by (auto simp: arena_ok_def arena_slots_def arena_committed_def)
  then show ?thesis using s by (simp add: Arena_Free_def)
qed

lemma Arena_Init_ok:
  assumes i: "Arena_Init name_length ob_size count ctrl alloc_ok array_ok data Arena = Some (NO_ERROR, a)"
    and data: "0 < snd data" "snd data + count * ob_size < 2 ^ 63"
    and mem: "(count * ob_size + (PAGE_SIZE - 1)) div PAGE_SIZE \<le> free"
  shows "arena_ok count {} a free \<and> ar_ob_size a = ob_size \<and> ar_d_start a = snd data"
proof -
  let ?n = "count * ob_size" let ?pages = "(?n + (PAGE_SIZE - 1)) div PAGE_SIZE"
  have lim: "?n mod 2 ^ 64 = ?n" "(snd data + ?n) mod 2 ^ 64 = snd data + ?n" "?n \<le> VMO_MAX_SIZE" "ROUNDUP_PAGE_SIZE ?n = ?pages * PAGE_SIZE"
    using data(2) by (simp_all add: VMO_MAX_SIZE_def PAGE_SIZE_def ROUNDUP_PAGE_SIZE_def)
  define v where "v = \<lparr>vo_magic = True, vo_size = ?n, vo_has_array = True, vo_page_array = replicate ?pages None\<rparr>"
  have args: "ob_size \<noteq> 0" "ob_size \<le> PAGE_SIZE" "count \<noteq> 0" "name_length < 24" "fst ctrl = NO_ERROR" "fst data = NO_ERROR"
    and cr: "VmObject_Create alloc_ok array_ok ?n = Some (Some v)"
    and a: "a = \<lparr>ar_free = [], ar_ob_size = ob_size, ar_c_start = snd ctrl, ar_c_top = snd ctrl, ar_d_start = snd data, ar_d_top = snd data,
       ar_d_end = snd data + ?n, ar_vmo = Some v, ar_p_top = snd data\<rparr>"
    using i lim
    by (auto simp: Arena_Init_def Arena_def Let_def VmObject_Create_def Resize_def VmObject_def v_def OffsetToIndex_def
        split: if_splits bind_splits)
  have "vo_ok v" "missing_pages v = ?pages" "vo_size v = ?n"
    by (auto simp: vo_ok_def v_def missing_pages_def PAGE_SIZE_def) 
  moreover have "fresh_from 0 v" by (auto simp: fresh_from_def v_def)
  ultimately have "arena_ok count {} a free"
    using args data mem by (auto simp: a arena_ok_def arena_slots_def arena_nodes_def arena_committed_def)
  then show ?thesis by (simp add: a)
qed

section \<open>Any use of an arena\<close>

inductive arena_reach :: "nat \<Rightarrow> arena \<Rightarrow> nat set \<Rightarrow> nat \<Rightarrow> bool" for count where
  ar_init: "\<lbrakk>Arena_Init name_length ob_size count ctrl alloc_ok array_ok data Arena = Some (NO_ERROR, a); 0 < snd data;
    snd data + count * ob_size < 2 ^ 63; (count * ob_size + (PAGE_SIZE - 1)) div PAGE_SIZE \<le> free\<rbrakk> \<Longrightarrow> arena_reach count a {} free"
| ar_alloc: "\<lbrakk>arena_reach count a live free; Arena_Alloc a free = Some (Some slot, a', free')\<rbrakk> \<Longrightarrow>
    arena_reach count a' (insert slot live) free'"
| ar_release: "\<lbrakk>arena_reach count a live free; slot \<in> live; Arena_Free slot a = Some a'\<rbrakk> \<Longrightarrow> arena_reach count a' (live - {slot}) free"

lemma arena_reach_ok: "arena_reach count a live free \<Longrightarrow> arena_ok count live a free"
proof (induction rule: arena_reach.induct)
  case (ar_init name_length ob_size ctrl alloc_ok array_ok data a free)
  then show ?case using Arena_Init_ok by blast
next
  case (ar_alloc a live free slot a' free')
  then show ?case using Arena_Alloc_ok [of count live a free] by auto
next
  case (ar_release a live free slot a')
  then show ?case using Arena_Free_ok [of count live a free slot] by auto
qed

lemma slot_below_top:
  assumes "arena_ok count live a free" "x \<in> live"
  shows "x + ar_ob_size a \<le> ar_d_top a"
proof -
  obtain m where m: "ar_d_top a = ar_d_start a + m * ar_ob_size a" "0 < ar_ob_size a" using assms(1) by (auto simp: arena_ok_def)
  have "x \<in> arena_slots a" using assms unfolding arena_ok_def by blast
  then obtain i where "x = ar_d_start a + i * ar_ob_size a" "Suc i \<le> m"
    unfolding arena_slots_eq [OF m] by (blast intro: Suc_leI)
  moreover from this have "Suc i * ar_ob_size a \<le> m * ar_ob_size a" by (intro mult_le_mono1)
  ultimately show ?thesis using m(1) by simp
qed

lemma slots_apart:
  assumes "arena_ok count live a free" "x \<in> live" "y \<in> live" "x \<noteq> y"
  shows "x + ar_ob_size a \<le> y \<or> y + ar_ob_size a \<le> x"
proof -
  have "x \<in> arena_slots a" "y \<in> arena_slots a" using assms(1-3) unfolding arena_ok_def by blast+
  then obtain i j where ij: "x = ar_d_start a + i * ar_ob_size a" "y = ar_d_start a + j * ar_ob_size a"
    unfolding arena_slots_def by blast
  then have "Suc i \<le> j \<or> Suc j \<le> i" using assms(4) by (cases i j rule: linorder_cases) auto
  then have "Suc i * ar_ob_size a \<le> j * ar_ob_size a \<or> Suc j * ar_ob_size a \<le> i * ar_ob_size a" by (meson mult_le_mono1)
  then show ?thesis using ij by (simp add: add.commute add.left_commute)
qed

section \<open>Properties\<close>



end
