(* ===== verification/Handle_Table.thy ===== *)
theory Handle_Table
  imports Arena
begin

unbundle bit_operations_syntax

text \<open>
  Handles: \<^verbatim>\<open>kernel/lib/magenta/magenta.cpp\<close>, \<^verbatim>\<open>handle.cpp\<close>, \<^verbatim>\<open>dispatcher.cpp\<close>, the handle table of
  \<^verbatim>\<open>process_dispatcher.cpp\<close>, and the system calls on handles. All handles live in one arena; a process keeps the list of
  its own and names a handle to user code by its offset in the arena, mixed with a random mask of the process. Handle
  memory is a function from slot addresses. The virtual calls made on a dispatcher (cancelling its observers,
  closing it, telling it that its handles are gone, dropping a reference) are recorded in order in \<open>hs_calls\<close>.
\<close>

section \<open>Data\<close>

datatype mx_obj_type =
    MX_OBJ_TYPE_NONE | MX_OBJ_TYPE_PROCESS | MX_OBJ_TYPE_THREAD | MX_OBJ_TYPE_VMEM | MX_OBJ_TYPE_MESSAGE_PIPE
  | MX_OBJ_TYPE_EVENT | MX_OBJ_TYPE_IOPORT | MX_OBJ_TYPE_DATA_PIPE_PRODUCER | MX_OBJ_TYPE_DATA_PIPE_CONSUMER
  | MX_OBJ_TYPE_INTERRUPT | MX_OBJ_TYPE_IOMAP | MX_OBJ_TYPE_PCI_DEVICE | MX_OBJ_TYPE_PCI_INT | MX_OBJ_TYPE_LOG
  | MX_OBJ_TYPE_WAIT_SET

record dispatcher =
  di_koid :: mx_koid
  di_type :: mx_obj_type
  di_has_tracker :: bool
  di_handle_count :: int

text \<open>A handle whose memory is zero has no dispatcher.\<close>

record handle =
  h_process_id :: mx_koid
  h_rights :: mx_rights
  h_dispatcher :: "nat option"

datatype dispatcher_call = Cancelled nat nat | Closed nat | Zero_Handles nat | Released nat | Policy_Exit nat status

datatype bad_handle_policy = MX_POLICY_BAD_HANDLE_IGNORE | MX_POLICY_BAD_HANDLE_LOG | MX_POLICY_BAD_HANDLE_EXIT

record process_handles =
  ph_koid :: mx_koid
  ph_handle_rand :: u32
  ph_handles :: "nat list"
  ph_bad_handle_policy :: bad_handle_policy

record handle_system =
  hs_arena :: arena
  hs_mem :: "nat \<Rightarrow> handle"
  hs_pages :: nat
  hs_disp :: "nat \<Rightarrow> dispatcher"
  hs_proc :: "nat \<Rightarrow> process_handles option"
  hs_koid :: mx_koid
  hs_calls :: "dispatcher_call list"

definition kMaxHandleCount :: nat where "kMaxHandleCount = 32 * 1024"

definition sizeof_Handle :: nat where "sizeof_Handle = 40"

definition zero_handle :: handle where
  "zero_handle = \<lparr>h_process_id = 0, h_rights = 0, h_dispatcher = None\<rparr>"

definition note_call :: "dispatcher_call \<Rightarrow> handle_system \<Rightarrow> handle_system" where
  "note_call c s = s\<lparr>hs_calls := hs_calls s @ [c]\<rparr>"

section \<open>Dispatchers and handles\<close>

definition GenerateKernelObjectId :: "handle_system \<Rightarrow> mx_koid \<times> handle_system" where
  "GenerateKernelObjectId s = (hs_koid s, s\<lparr>hs_koid := hs_koid s + 1\<rparr>)"

definition Dispatcher_new :: "nat \<Rightarrow> mx_obj_type \<Rightarrow> bool \<Rightarrow> handle_system \<Rightarrow> handle_system" where
  "Dispatcher_new d type has_tracker s =
     (let (koid, s) = GenerateKernelObjectId s
      in s\<lparr>hs_disp := (hs_disp s)(d := \<lparr>di_koid = koid, di_type = type, di_has_tracker = has_tracker, di_handle_count = 0\<rparr>)\<rparr>)"

definition add_handle :: "nat \<Rightarrow> handle_system \<Rightarrow> handle_system" where
  "add_handle d s = s\<lparr>hs_disp := (hs_disp s)(d := (hs_disp s d)\<lparr>di_handle_count := di_handle_count (hs_disp s d) + 1\<rparr>)\<rparr>"

definition remove_handle :: "nat \<Rightarrow> handle_system \<Rightarrow> handle_system" where
  "remove_handle d s =
     (let c = di_handle_count (hs_disp s d);
          s = s\<lparr>hs_disp := (hs_disp s)(d := (hs_disp s d)\<lparr>di_handle_count := c - 1\<rparr>)\<rparr>
      in if c = 1 then note_call (Zero_Handles d) s else s)"

definition Handle_new :: "nat \<Rightarrow> nat \<Rightarrow> mx_rights \<Rightarrow> handle_system \<Rightarrow> handle_system" where
  "Handle_new h d rights s =
     add_handle d (s\<lparr>hs_mem := (hs_mem s)(h := \<lparr>h_process_id = 0, h_rights = rights, h_dispatcher = Some d\<rparr>)\<rparr>)"

definition Handle_dup :: "nat \<Rightarrow> nat \<Rightarrow> mx_rights \<Rightarrow> handle_system \<Rightarrow> handle_system" where
  "Handle_dup h rhs rights s =
     s\<lparr>hs_mem := (hs_mem s)(h := \<lparr>h_process_id = h_process_id (hs_mem s rhs), h_rights = rights,
                                 h_dispatcher = h_dispatcher (hs_mem s rhs)\<rparr>)\<rparr>"

text \<open>The destructor's body, and then the reference its member holds.\<close>

definition Handle_destroy :: "nat \<Rightarrow> handle_system \<Rightarrow> handle_system option" where
  "Handle_destroy h s = do {
     d \<leftarrow> h_dispatcher (hs_mem s h);
     Some (note_call (Released d) (remove_handle d s))
   }"

section \<open>The handle arena\<close>

text \<open>The status of the initialisation is dropped.\<close>

definition magenta_init :: "status \<times> nat \<Rightarrow> bool \<Rightarrow> bool \<Rightarrow> status \<times> nat \<Rightarrow> handle_system \<Rightarrow> handle_system option" where
  "magenta_init ctrl alloc_ok array_ok data s = do {
     (_, a) \<leftarrow> Arena_Init 7 sizeof_Handle kMaxHandleCount ctrl alloc_ok array_ok data (hs_arena s);
     Some (s\<lparr>hs_arena := a\<rparr>)
   }"

text \<open>\<^verbatim>\<open>TypedArena::New\<close>: the slot, for the constructor to fill.\<close>

definition arena_slot :: "handle_system \<Rightarrow> (nat option \<times> handle_system) option" where
  "arena_slot s = do {
     (r, a, free) \<leftarrow> Arena_Alloc (hs_arena s) (hs_pages s);
     Some (r, s\<lparr>hs_arena := a, hs_pages := free\<rparr>)
   }"

definition MakeHandle :: "nat \<Rightarrow> mx_rights \<Rightarrow> handle_system \<Rightarrow> (nat option \<times> handle_system) option" where
  "MakeHandle d rights s = do {
     (r, s) \<leftarrow> arena_slot s;
     case r of None \<Rightarrow> Some (None, s) | Some h \<Rightarrow> Some (Some h, Handle_new h d rights s)
   }"

definition DupHandle :: "nat \<Rightarrow> mx_rights \<Rightarrow> handle_system \<Rightarrow> (nat option \<times> handle_system) option" where
  "DupHandle src rights s = do {
     (r, s) \<leftarrow> arena_slot s;
     case r of None \<Rightarrow> Some (None, s) | Some h \<Rightarrow> Some (Some h, Handle_dup h src rights s)
   }"

text \<open>The first part of \<^verbatim>\<open>DeleteHandle\<close>: the observers waiting through the handle are cancelled, or the object closed.\<close>

definition cancel_or_close :: "nat \<Rightarrow> nat \<Rightarrow> handle_system \<Rightarrow> handle_system" where
  "cancel_or_close d h s =
     (if di_has_tracker (hs_disp s d) then note_call (Cancelled d h) s
      else case di_type (hs_disp s d) of
             MX_OBJ_TYPE_PCI_INT \<Rightarrow> note_call (Closed d) s
           | MX_OBJ_TYPE_IOMAP \<Rightarrow> note_call (Closed d) s
           | _ \<Rightarrow> s)"

definition DeleteHandle :: "nat \<Rightarrow> handle_system \<Rightarrow> handle_system option" where
  "DeleteHandle h s = do {
     d \<leftarrow> h_dispatcher (hs_mem s h);
     s \<leftarrow> Handle_destroy h (cancel_or_close d h s);
     let s = s\<lparr>hs_mem := (hs_mem s)(h := zero_handle)\<rparr>;
     a \<leftarrow> Arena_Free h (hs_arena s);
     Some (s\<lparr>hs_arena := a\<rparr>)
   }"

definition HandleInRange :: "nat \<Rightarrow> handle_system \<Rightarrow> bool" where
  "HandleInRange addr s = in_range addr (hs_arena s)"

definition MapHandleToU32 :: "nat \<Rightarrow> handle_system \<Rightarrow> u32" where
  "MapHandleToU32 h s = word_of_int (int h - int (ar_d_start (hs_arena s)))"

definition MapU32ToHandle :: "u32 \<Rightarrow> handle_system \<Rightarrow> nat option" where
  "MapU32ToHandle v s =
     (let va = unat v + ar_d_start (hs_arena s)
      in if unat v mod sizeof_Handle \<noteq> 0 then None
         else if \<not> HandleInRange va s then None
         else Some va)"

section \<open>The handle table of a process\<close>

definition handle_rand_of :: "u32 \<Rightarrow> u32" where
  "handle_rand_of r = push_bit 2 r AND 0x7fffffff"

definition MapHandleToValue :: "process_handles \<Rightarrow> nat \<Rightarrow> handle_system \<Rightarrow> u32" where
  "MapHandleToValue P h s = (MapHandleToU32 h s + 1) XOR ph_handle_rand P"

definition GetHandle_NoLock :: "process_handles \<Rightarrow> u32 \<Rightarrow> handle_system \<Rightarrow> nat option" where
  "GetHandle_NoLock P v s =
     (case MapU32ToHandle ((v XOR ph_handle_rand P) - 1) s of
        None \<Rightarrow> None
      | Some h \<Rightarrow> if h_process_id (hs_mem s h) = ph_koid P then Some h else None)"

text \<open>Inserting a node that is in the list and erasing one that is not fail the list's assertions.\<close>

definition AddHandle :: "nat \<Rightarrow> nat \<Rightarrow> handle_system \<Rightarrow> handle_system option" where
  "AddHandle p h s = do {
     P \<leftarrow> hs_proc s p;
     kassert (h \<notin> set (ph_handles P));
     Some (s\<lparr>hs_mem := (hs_mem s)(h := (hs_mem s h)\<lparr>h_process_id := ph_koid P\<rparr>),
             hs_proc := (hs_proc s)(p \<mapsto> P\<lparr>ph_handles := h # ph_handles P\<rparr>)\<rparr>)
   }"

definition RemoveHandle :: "nat \<Rightarrow> u32 \<Rightarrow> handle_system \<Rightarrow> (nat option \<times> handle_system) option" where
  "RemoveHandle p v s = do {
     P \<leftarrow> hs_proc s p;
     case GetHandle_NoLock P v s of
       None \<Rightarrow> Some (None, s)
     | Some h \<Rightarrow> do {
         kassert (h \<in> set (ph_handles P));
         Some (Some h, s\<lparr>hs_mem := (hs_mem s)(h := (hs_mem s h)\<lparr>h_process_id := 0\<rparr>),
                         hs_proc := (hs_proc s)(p \<mapsto> P\<lparr>ph_handles := remove1 h (ph_handles P)\<rparr>)\<rparr>)
       }
   }"

definition UndoRemoveHandle :: "nat \<Rightarrow> u32 \<Rightarrow> handle_system \<Rightarrow> handle_system option" where
  "UndoRemoveHandle p v s = do {
     P \<leftarrow> hs_proc s p;
     h \<leftarrow> MapU32ToHandle ((v XOR ph_handle_rand P) - 1) s;
     AddHandle p h s
   }"

text \<open>The outer None is a process that does not exist or a null dispatcher, the inner one a bad handle.\<close>

definition GetDispatcher :: "nat \<Rightarrow> u32 \<Rightarrow> handle_system \<Rightarrow> (nat \<times> mx_rights) option option" where
  "GetDispatcher p v s = do {
     P \<leftarrow> hs_proc s p;
     case GetHandle_NoLock P v s of
       None \<Rightarrow> Some None
     | Some h \<Rightarrow> do { d \<leftarrow> h_dispatcher (hs_mem s h); Some (Some (d, h_rights (hs_mem s h))) }
   }"

text \<open>The loop of the \<^verbatim>\<open>DEAD\<close> transition that empties the table.\<close>

fun delete_handles :: "nat list \<Rightarrow> handle_system \<Rightarrow> handle_system option" where
  "delete_handles [] s = Some s"
| "delete_handles (h # hs) s = do { s \<leftarrow> DeleteHandle h s; delete_handles hs s }"

definition clean_handle_table :: "nat \<Rightarrow> handle_system \<Rightarrow> handle_system option" where
  "clean_handle_table p s = do {
     P \<leftarrow> hs_proc s p;
     s \<leftarrow> delete_handles (ph_handles P) s;
     Some (s\<lparr>hs_proc := (hs_proc s)(p \<mapsto> P\<lparr>ph_handles := []\<rparr>)\<rparr>)
   }"

section \<open>System calls on handles\<close>

text \<open>Under the exit policy the process leaves and the call does not come back; the exit is recorded, and the status is seen by nobody.\<close>

definition BadHandle :: "nat \<Rightarrow> handle_system \<Rightarrow> (status \<times> handle_system) option" where
  "BadHandle p s = do {
     P \<leftarrow> hs_proc s p;
     let s = (if ph_bad_handle_policy P = MX_POLICY_BAD_HANDLE_EXIT then note_call (Policy_Exit p ERR_BAD_HANDLE) s else s);
     Some (ERR_BAD_HANDLE, s)
   }"

definition sys_handle_close :: "nat \<Rightarrow> u32 \<Rightarrow> handle_system \<Rightarrow> (status \<times> handle_system) option" where
  "sys_handle_close p v s = do {
     (r, s) \<leftarrow> RemoveHandle p v s;
     case r of
       None \<Rightarrow> BadHandle p s
     | Some h \<Rightarrow> do { s \<leftarrow> DeleteHandle h s; Some (NO_ERROR, s) }
   }"

text \<open>
  \<^verbatim>\<open>sys_handle_duplicate\<close> holds the lock of the table twice: to make the duplicate, and to add it. The two critical sections
  are the two definitions after which it is composed.
\<close>

definition handle_duplicate_make :: "nat \<Rightarrow> u32 \<Rightarrow> mx_rights \<Rightarrow> handle_system \<Rightarrow> ((status + nat) \<times> handle_system) option" where
  "handle_duplicate_make p v rights s = do {
     P \<leftarrow> hs_proc s p;
     case GetHandle_NoLock P v s of
       None \<Rightarrow> do { (st, s) \<leftarrow> BadHandle p s; Some (Inl st, s) }
     | Some src \<Rightarrow>
         if \<not> magenta_rights_check (h_rights (hs_mem s src)) MX_RIGHT_DUPLICATE then Some (Inl ERR_ACCESS_DENIED, s)
         else if rights \<noteq> MX_RIGHT_SAME_RIGHTS \<and> h_rights (hs_mem s src) AND rights \<noteq> rights then Some (Inl ERR_INVALID_ARGS, s)
         else do {
           (r, s) \<leftarrow> DupHandle src (if rights = MX_RIGHT_SAME_RIGHTS then h_rights (hs_mem s src) else rights) s;
           Some (case r of None \<Rightarrow> Inl ERR_NO_MEMORY | Some h \<Rightarrow> Inr h, s)
         }
   }"

definition handle_duplicate_add :: "nat \<Rightarrow> nat \<Rightarrow> handle_system \<Rightarrow> (u32 \<times> handle_system) option" where
  "handle_duplicate_add p h s = do {
     P \<leftarrow> hs_proc s p;
     let dup_hv = MapHandleToValue P h s;
     s \<leftarrow> AddHandle p h s;
     Some (dup_hv, s)
   }"

definition sys_handle_duplicate :: "nat \<Rightarrow> u32 \<Rightarrow> mx_rights \<Rightarrow> handle_system \<Rightarrow> ((status + u32) \<times> handle_system) option" where
  "sys_handle_duplicate p v rights s = do {
     (r, s) \<leftarrow> handle_duplicate_make p v rights s;
     case r of
       Inl st \<Rightarrow> Some (Inl st, s)
     | Inr h \<Rightarrow> do { (hv, s) \<leftarrow> handle_duplicate_add p h s; Some (Inr hv, s) }
   }"

text \<open>
  The end of every system call that creates an object: a handle is made for the dispatcher, and added. The caller has created
  the dispatcher at the fresh address \<open>d\<close>.
\<close>

definition install_handle :: "nat \<Rightarrow> nat \<Rightarrow> mx_rights \<Rightarrow> handle_system \<Rightarrow> ((status + u32) \<times> handle_system) option" where
  "install_handle p d rights s = do {
     (r, s) \<leftarrow> MakeHandle d rights s;
     case r of
       None \<Rightarrow> Some (Inl ERR_NO_MEMORY, s)
     | Some h \<Rightarrow> do {
         P \<leftarrow> hs_proc s p;
         let hv = MapHandleToValue P h s;
         s \<leftarrow> AddHandle p h s;
         Some (Inr hv, s)
       }
   }"

definition kDefaultEventRights :: mx_rights where
  "kDefaultEventRights = MX_RIGHT_DUPLICATE OR MX_RIGHT_TRANSFER OR MX_RIGHT_READ OR MX_RIGHT_WRITE"

definition sys_event_create :: "bool \<Rightarrow> nat \<Rightarrow> nat \<Rightarrow> handle_system \<Rightarrow> ((status + u32) \<times> handle_system) option" where
  "sys_event_create alloc_ok d p s =
     (if \<not> alloc_ok then Some (Inl ERR_NO_MEMORY, s)
      else install_handle p d kDefaultEventRights (Dispatcher_new d MX_OBJ_TYPE_EVENT True s))"

definition kDefaultProcessRights :: mx_rights where
  "kDefaultProcessRights = MX_RIGHT_READ OR MX_RIGHT_WRITE OR MX_RIGHT_TRANSFER"

text \<open>A process is a dispatcher; its handle table starts empty, under its new id and a fresh mask.\<close>

definition ProcessDispatcher_new :: "u32 \<Rightarrow> nat \<Rightarrow> handle_system \<Rightarrow> handle_system" where
  "ProcessDispatcher_new rnd p s =
     (let s = Dispatcher_new p MX_OBJ_TYPE_PROCESS True s
      in s\<lparr>hs_proc := (hs_proc s)(p \<mapsto> \<lparr>ph_koid = di_koid (hs_disp s p), ph_handle_rand = handle_rand_of rnd, ph_handles = [],
                                      ph_bad_handle_policy = MX_POLICY_BAD_HANDLE_IGNORE\<rparr>)\<rparr>)"

definition set_bad_handle_policy :: "nat \<Rightarrow> u32 \<Rightarrow> handle_system \<Rightarrow> (status \<times> handle_system) option" where
  "set_bad_handle_policy p new_policy s = do {
     P \<leftarrow> hs_proc s p;
     if new_policy > 2 then Some (ERR_NOT_SUPPORTED, s)
     else do {
       let pol = (if new_policy = 0 then MX_POLICY_BAD_HANDLE_IGNORE else if new_policy = 1 then MX_POLICY_BAD_HANDLE_LOG
                  else MX_POLICY_BAD_HANDLE_EXIT);
       Some (NO_ERROR, s\<lparr>hs_proc := (hs_proc s)(p \<mapsto> P\<lparr>ph_bad_handle_policy := pol\<rparr>)\<rparr>)
     }
   }"

section \<open>The invariant\<close>

definition live_handles :: "handle_system \<Rightarrow> nat set" where
  "live_handles s = {h. h_dispatcher (hs_mem s h) \<noteq> None}"

definition rand_ok :: "u32 \<Rightarrow> bool" where
  "rand_ok r \<longleftrightarrow> \<not> bit r 0 \<and> \<not> bit r 1 \<and> \<not> bit r 31"

definition table_ok :: "handle_system \<Rightarrow> process_handles \<Rightarrow> bool" where
  "table_ok s P \<longleftrightarrow> ph_koid P \<noteq> 0 \<and> rand_ok (ph_handle_rand P) \<and> distinct (ph_handles P) \<and>
     set (ph_handles P) = {h \<in> live_handles s. h_process_id (hs_mem s h) = ph_koid P}"

text \<open>Memory outside the handles in use is zero; the table of a process is exactly the handles that carry its id.\<close>

definition arena_inv :: "handle_system \<Rightarrow> bool" where
  "arena_inv s \<longleftrightarrow> arena_ok kMaxHandleCount (live_handles s) (hs_arena s) (hs_pages s) \<and>
     ar_ob_size (hs_arena s) = sizeof_Handle \<and> (\<forall>h. h \<notin> live_handles s \<longrightarrow> hs_mem s h = zero_handle)"

definition hs_inv :: "handle_system \<Rightarrow> bool" where
  "hs_inv s \<longleftrightarrow> arena_inv s \<and> (\<forall>p P. hs_proc s p = Some P \<longrightarrow> table_ok s P) \<and>
     (\<forall>p q P Q. hs_proc s p = Some P \<longrightarrow> hs_proc s q = Some Q \<longrightarrow> ph_koid P = ph_koid Q \<longrightarrow> p = q) \<and>
     0 < hs_koid s \<and> (\<forall>h\<in>live_handles s. h_process_id (hs_mem s h) < hs_koid s) \<and>
     (\<forall>p P. hs_proc s p = Some P \<longrightarrow> ph_koid P < hs_koid s)"

lemma rand_ok_handle_rand_of: "rand_ok (handle_rand_of r)"
proof -
  have "bit (0x7fffffff :: u32) n \<longleftrightarrow> n < 31" for n
    using mask_eq_exp_minus_1 [of 31, where 'a = "32 word"] bit_mask_iff [of 31 n, where 'a = "32 word"] by auto
  then show ?thesis by (simp add: rand_ok_def handle_rand_of_def bit_and_iff bit_push_bit_iff)
qed

section \<open>Handle values\<close>

lemma live_slot:
  assumes "arena_inv s" "h \<in> live_handles s"
  shows "ar_d_start (hs_arena s) \<le> h" "h < ar_d_start (hs_arena s) + 1310720" "sizeof_Handle dvd h - ar_d_start (hs_arena s)"
    "in_range h (hs_arena s)" "0 < h"
proof -
  have ok: "arena_ok kMaxHandleCount (live_handles s) (hs_arena s) (hs_pages s)" and ob: "ar_ob_size (hs_arena s) = 40"
    using assms(1) by (simp_all add: arena_inv_def sizeof_Handle_def)
  note r = arena_ok_slot [OF ok assms(2)]
  have "ar_d_end (hs_arena s) = ar_d_start (hs_arena s) + 1310720"
    using ok ob by (simp add: arena_ok_def kMaxHandleCount_def)
  with r ob show "ar_d_start (hs_arena s) \<le> h" "h < ar_d_start (hs_arena s) + 1310720" "sizeof_Handle dvd h - ar_d_start (hs_arena s)"
    "in_range h (hs_arena s)" "0 < h" by (simp_all add: sizeof_Handle_def)
qed

lemma unat_MapHandleToU32:
  assumes "arena_inv s" "h \<in> live_handles s"
  shows "unat (MapHandleToU32 h s) = h - ar_d_start (hs_arena s)"
proof -
  note r = live_slot [OF assms]
  have "MapHandleToU32 h s = of_nat (h - ar_d_start (hs_arena s))"
    using r(1) by (metis MapHandleToU32_def of_int_of_nat_eq of_nat_diff)
  moreover have "h - ar_d_start (hs_arena s) < 2 ^ 32" using r(2) by simp
  ultimately show ?thesis by (simp add: unat_of_nat)
qed

lemma MapU32ToHandle_live:
  assumes "arena_inv s" "h \<in> live_handles s"
  shows "MapU32ToHandle (MapHandleToU32 h s) s = Some h"
  using live_slot [OF assms] unat_MapHandleToU32 [OF assms]
  by (simp add: MapU32ToHandle_def HandleInRange_def Let_def flip: dvd_eq_mod_eq_0)

lemma value_index: "(((x + 1) XOR r) XOR r) - 1 = (x :: u32)"
  by (simp add: xor.assoc)

lemma GetHandle_value:
  assumes "arena_inv s" "h \<in> live_handles s"
  shows "GetHandle_NoLock P (MapHandleToValue P h s) s = (if h_process_id (hs_mem s h) = ph_koid P then Some h else None)"
  by (simp add: GetHandle_NoLock_def MapHandleToValue_def value_index MapU32ToHandle_live [OF assms])

lemma GetHandle_SomeD:
  assumes "hs_inv s" "hs_proc s p = Some P" "GetHandle_NoLock P v s = Some h"
  shows "h \<in> set (ph_handles P)" "h \<in> live_handles s" "h_process_id (hs_mem s h) = ph_koid P" "v = MapHandleToValue P h s"
proof -
  have m: "MapU32ToHandle ((v XOR ph_handle_rand P) - 1) s = Some h" and id: "h_process_id (hs_mem s h) = ph_koid P"
    using assms(3) by (auto simp: GetHandle_NoLock_def split: option.splits if_splits)
  have t: "table_ok s P" and a: "arena_inv s" using assms(1,2) by (auto simp: hs_inv_def)
  show live: "h \<in> live_handles s" using t a id by (auto simp: table_ok_def arena_inv_def zero_handle_def)
  show "h \<in> set (ph_handles P)" using t live id by (simp add: table_ok_def)
  show "h_process_id (hs_mem s h) = ph_koid P" by (rule id)
  have "unat ((v XOR ph_handle_rand P) - 1) = h - ar_d_start (hs_arena s)"
    using m by (auto simp: MapU32ToHandle_def Let_def split: if_splits)
  then have "(v XOR ph_handle_rand P) - 1 = MapHandleToU32 h s"
    using unat_MapHandleToU32 [OF a live] by (intro unsigned_word_eqI [where 'a = nat]) simp
  then have "v XOR ph_handle_rand P = MapHandleToU32 h s + 1" by (simp add: diff_eq_eq)
  then show "v = MapHandleToValue P h s" by (metis MapHandleToValue_def xor.assoc xor_self_eq xor.right_neutral)
qed

lemma word_high_bit: "unat (w :: u32) < 2 ^ 31 \<Longrightarrow> \<not> bit w 31"
proof -
  assume "unat w < 2 ^ 31"
  then have "\<not> bit (unat w) 31" by (simp add: bit_iff_odd)
  then show ?thesis by (simp add: bit_unsigned_iff)
qed

lemma handle_value_positive:
  assumes "arena_inv s" "h \<in> live_handles s" "rand_ok (ph_handle_rand P)"
  shows "bit (MapHandleToValue P h s) 0" "\<not> bit (MapHandleToValue P h s) 31" "0 <s MapHandleToValue P h s"
proof -
  note r = live_slot [OF assms(1,2)]
  let ?x = "MapHandleToU32 h s + 1"
  have u: "unat ?x = h - ar_d_start (hs_arena s) + 1"
    using unat_MapHandleToU32 [OF assms(1,2)] r(2) by (subst unat_word_ariths) simp
  have "even (h - ar_d_start (hs_arena s))" using r(3) by (metis dvd_trans even_numeral sizeof_Handle_def)
  then have "odd (unat ?x)" unfolding u by simp
  then have "bit (unat ?x) 0" by (simp add: bit_0)
  then have b0: "bit ?x 0" by (simp add: bit_unsigned_iff)
  have "\<not> bit ?x 31" using u r(2) by (intro word_high_bit) simp
  with b0 show v: "bit (MapHandleToValue P h s) 0" "\<not> bit (MapHandleToValue P h s) 31"
    using assms(3) by (auto simp: MapHandleToValue_def bit_xor_iff rand_ok_def)
  then have "MapHandleToValue P h s \<noteq> 0" by auto
  moreover have "0 \<le>s MapHandleToValue P h s"
    using v(2) bit_last_iff [of "MapHandleToValue P h s"] by (simp add: word_sle_eq)
  ultimately show "0 <s MapHandleToValue P h s" by (simp add: word_sless_eq)
qed

end
