(* ===== verification/Handle_Reach.thy ===== *)
theory Handle_Reach
  imports Handle_Table
begin

unbundle bit_operations_syntax

text \<open>
  What the operations on handles keep. Every operation of \<open>Handle_Table\<close> returns on a well-formed system and leaves it
  well-formed; \<open>hs_reach\<close> is a system used by its processes in any order, together with the rights each object was created
  with.
\<close>

section \<open>The operations keep the invariant\<close>

lemma hs_invD:
  assumes "hs_inv s"
  shows "arena_inv s" "hs_proc s p = Some P \<Longrightarrow> table_ok s P"
    "hs_proc s p = Some P \<Longrightarrow> hs_proc s q = Some Q \<Longrightarrow> ph_koid P = ph_koid Q \<Longrightarrow> p = q"
    "hs_proc s p = Some P \<Longrightarrow> ph_koid P < hs_koid s \<and> ph_koid P \<noteq> 0"
  using assms by (auto simp: hs_inv_def table_ok_def)

lemma table_okD:
  assumes "table_ok s P"
  shows "h \<in> set (ph_handles P) \<longleftrightarrow> h \<in> live_handles s \<and> h_process_id (hs_mem s h) = ph_koid P"
    "distinct (ph_handles P)" "ph_koid P \<noteq> 0" "rand_ok (ph_handle_rand P)"
  using assms by (auto simp: table_ok_def)

lemma arena_slot_ok:
  assumes "arena_inv s"
  shows "\<exists>r a f. arena_slot s = Some (r, s\<lparr>hs_arena := a, hs_pages := f\<rparr>) \<and> ar_ob_size a = sizeof_Handle \<and>
    ar_d_start a = ar_d_start (hs_arena s) \<and>
    (case r of
       None \<Rightarrow> a = hs_arena s \<and> f = hs_pages s \<and> card (live_handles s) = kMaxHandleCount
     | Some h \<Rightarrow> h \<notin> live_handles s \<and> h \<noteq> 0 \<and> arena_ok kMaxHandleCount (insert h (live_handles s)) a f)"
proof -
  have ok: "arena_ok kMaxHandleCount (live_handles s) (hs_arena s) (hs_pages s)" using assms by (simp add: arena_inv_def)
  obtain r a f where "Arena_Alloc (hs_arena s) (hs_pages s) = Some (r, a, f)" "ar_ob_size a = ar_ob_size (hs_arena s)"
    "ar_d_start a = ar_d_start (hs_arena s)"
    "case r of Some slot \<Rightarrow> slot \<notin> live_handles s \<and> in_range slot a \<and> slot \<in> arena_slots a \<and>
       arena_ok kMaxHandleCount (insert slot (live_handles s)) a f
     | None \<Rightarrow> a = hs_arena s \<and> card (live_handles s) = kMaxHandleCount \<and> f = hs_pages s"
    using Arena_Alloc_ok [OF ok] by blast
  moreover have "h \<noteq> 0" if "arena_ok kMaxHandleCount (insert h (live_handles s)) a f" for h
    using arena_ok_slot(2) [OF that, of h] by simp
  ultimately show ?thesis using assms
    by (intro exI [of _ r] exI [of _ a] exI [of _ f]) (auto simp: arena_slot_def arena_inv_def split: option.splits)
qed

text \<open>A new handle that belongs to no process, at a slot that was free.\<close>

lemma hs_inv_new:
  assumes inv: "hs_inv s" and h: "h \<notin> live_handles s"
    and a: "arena_ok kMaxHandleCount (insert h (live_handles s)) a f" "ar_ob_size a = sizeof_Handle"
    and s': "hs_arena s' = a" "hs_pages s' = f" "hs_proc s' = hs_proc s" "hs_koid s \<le> hs_koid s'" "hs_mem s' = (hs_mem s)(h := x)"
    and x: "h_process_id x = 0" "h_dispatcher x \<noteq> None"
  shows "hs_inv s'" "live_handles s' = insert h (live_handles s)"
proof -
  show live: "live_handles s' = insert h (live_handles s)" using x by (auto simp: live_handles_def s')
  have ai: "arena_inv s'" using a hs_invD(1) [OF inv] live by (auto simp: arena_inv_def s')
  have t: "table_ok s' P" if "hs_proc s p = Some P" for p P
    using hs_invD(2) [OF inv that] h live x by (auto simp: table_ok_def s')
  have k: "\<forall>h\<in>live_handles s. h_process_id (hs_mem s h) < hs_koid s'" "\<forall>p P. hs_proc s p = Some P \<longrightarrow> ph_koid P < hs_koid s'"
    using inv s'(4) unfolding hs_inv_def by (meson order_less_le_trans)+
  have z: "0 < hs_koid s'" using inv s'(4) unfolding hs_inv_def by (meson order_less_le_trans)
  show "hs_inv s'"
    unfolding hs_inv_def using ai t k z inv live x by (auto simp: s' hs_inv_def)
qed

lemma MakeHandle_ok:
  assumes inv: "hs_inv s"
  shows "\<exists>r s'. MakeHandle d rights s = Some (r, s') \<and>
    (case r of
       None \<Rightarrow> s' = s \<and> card (live_handles s) = kMaxHandleCount
     | Some h \<Rightarrow> h \<notin> live_handles s \<and> hs_inv s' \<and> live_handles s' = insert h (live_handles s) \<and> hs_proc s' = hs_proc s \<and>
         hs_mem s' = (hs_mem s)(h := \<lparr>h_process_id = 0, h_rights = rights, h_dispatcher = Some d\<rparr>))"
proof -
  obtain r a f where r: "arena_slot s = Some (r, s\<lparr>hs_arena := a, hs_pages := f\<rparr>)" "ar_ob_size a = sizeof_Handle"
    "case r of None \<Rightarrow> a = hs_arena s \<and> f = hs_pages s \<and> card (live_handles s) = kMaxHandleCount
     | Some h \<Rightarrow> h \<notin> live_handles s \<and> h \<noteq> 0 \<and> arena_ok kMaxHandleCount (insert h (live_handles s)) a f"
    using arena_slot_ok [OF hs_invD(1) [OF inv]] by blast
  show ?thesis
  proof (cases r)
    case None
    then show ?thesis using r by (simp add: MakeHandle_def)
  next
    case (Some h)
    let ?s = "Handle_new h d rights (s\<lparr>hs_arena := a, hs_pages := f\<rparr>)"
    have "hs_inv ?s" "live_handles ?s = insert h (live_handles s)"
      using hs_inv_new [OF inv, of h a f ?s] r(2,3) Some by (auto simp: Handle_new_def add_handle_def)
    then show ?thesis using r(1,3) Some by (simp add: MakeHandle_def Handle_new_def add_handle_def)
  qed
qed

text \<open>Adding a handle overwrites its process id, so that of the handle before does not matter.\<close>

definition with_pid :: "nat \<Rightarrow> mx_koid \<Rightarrow> handle_system \<Rightarrow> handle_system" where
  "with_pid h k s = s\<lparr>hs_mem := (hs_mem s)(h := (hs_mem s h)\<lparr>h_process_id := k\<rparr>)\<rparr>"

lemma with_pid_sel [simp]:
  "hs_arena (with_pid h k s) = hs_arena s" "hs_pages (with_pid h k s) = hs_pages s" "hs_proc (with_pid h k s) = hs_proc s"
  "hs_koid (with_pid h k s) = hs_koid s" "hs_calls (with_pid h k s) = hs_calls s" "hs_disp (with_pid h k s) = hs_disp s"
  "live_handles (with_pid h k s) = live_handles s"
  "h_dispatcher (hs_mem (with_pid h k s) x) = h_dispatcher (hs_mem s x)" "h_rights (hs_mem (with_pid h k s) x) = h_rights (hs_mem s x)"
  by (auto simp: with_pid_def live_handles_def)

lemma live_handles_simps [simp]:
  "live_handles (s\<lparr>hs_mem := (hs_mem s)(h := (hs_mem s h)\<lparr>h_process_id := k\<rparr>), hs_proc := pr\<rparr>) = live_handles s"
  "live_handles (s\<lparr>hs_mem := (hs_mem s)(h := (hs_mem s h)\<lparr>h_process_id := k\<rparr>)\<rparr>) = live_handles s"
  "live_handles (s\<lparr>hs_proc := pr\<rparr>) = live_handles s"
  by (auto simp: live_handles_def)

lemma hs_inv_set_table:
  assumes inv: "hs_inv s" and P: "hs_proc s p = Some P" and k: "ph_koid P' = ph_koid P"
    and s': "arena_inv s'" "hs_proc s' = (hs_proc s)(p \<mapsto> P')" "hs_koid s' = hs_koid s"
    and t: "table_ok s' P'" "\<And>q Q. q \<noteq> p \<Longrightarrow> hs_proc s q = Some Q \<Longrightarrow> ph_koid Q \<noteq> ph_koid P \<Longrightarrow> table_ok s' Q"
    and l: "\<And>h. h \<in> live_handles s' \<Longrightarrow> h_process_id (hs_mem s' h) < hs_koid s"
  shows "hs_inv s'"
  unfolding hs_inv_def
proof (intro conjI allI impI ballI)
  note uq = hs_invD(3) [OF inv]
  show "arena_inv s'" by (rule s'(1))
  show "table_ok s' Q" if "hs_proc s' q = Some Q" for q Q
    using that t(1) t(2) [of q Q] uq [OF _ P, of q Q] by (auto simp: s'(2) split: if_splits)
  show "q = r" if "hs_proc s' q = Some Q" "hs_proc s' r = Some R" "ph_koid Q = ph_koid R" for q r Q R
    using that uq [of q Q r R] uq [OF _ P, of q Q] uq [OF _ P, of r R] k by (auto simp: s'(2) split: if_splits)
  show "0 < hs_koid s'" using inv by (simp add: s' hs_inv_def)
  show "h_process_id (hs_mem s' h) < hs_koid s'" if "h \<in> live_handles s'" for h using l [OF that] by (simp add: s')
  show "ph_koid Q < hs_koid s'" if "hs_proc s' q = Some Q" for q Q
    using that hs_invD(4) [OF inv] P k by (auto simp: s' split: if_splits)
qed

lemma AddHandle_ok:
  assumes inv: "hs_inv (with_pid h 0 s)" and P: "hs_proc s p = Some P" and h: "h \<in> live_handles s"
  shows "\<exists>s'. AddHandle p h s = Some s' \<and> hs_inv s' \<and> live_handles s' = live_handles s \<and> hs_koid s' = hs_koid s \<and> hs_disp s' = hs_disp s \<and>
    hs_calls s' = hs_calls s \<and> hs_arena s' = hs_arena s \<and>
    hs_proc s' = (hs_proc s)(p \<mapsto> P\<lparr>ph_handles := h # ph_handles P\<rparr>) \<and> hs_mem s' = hs_mem (with_pid h (ph_koid P) s)"
proof -
  let ?P = "P\<lparr>ph_handles := h # ph_handles P\<rparr>"
  let ?s = "s\<lparr>hs_mem := (hs_mem s)(h := (hs_mem s h)\<lparr>h_process_id := ph_koid P\<rparr>), hs_proc := (hs_proc s)(p \<mapsto> ?P)\<rparr>"
  have t: "table_ok (with_pid h 0 s) Q" if "hs_proc s q = Some Q" for q Q
    using hs_invD(2) [OF inv] that by simp
  have nin: "h \<notin> set (ph_handles P)" using table_okD(1,3) [OF t [OF P]] by (simp add: with_pid_def)
  have k: "ph_koid P < hs_koid s" using hs_invD(4) [OF inv, of p P] P by simp
  have "arena_inv ?s"
    using hs_invD(1) [OF inv] h by (auto simp: arena_inv_def with_pid_def split: if_splits)
  moreover have "table_ok ?s ?P"
    using t [OF P] nin h by (auto simp: table_ok_def with_pid_def)
  moreover have "table_ok ?s Q" if "hs_proc s q = Some Q" "ph_koid Q \<noteq> ph_koid P" for q Q
    using t [OF that(1)] that(2) by (auto simp: table_ok_def with_pid_def)
  moreover have "h_process_id (hs_mem ?s x) < hs_koid s" if "x \<in> live_handles s" for x
  proof -
    have "h_process_id (hs_mem (with_pid h 0 s) x) < hs_koid s" using inv that by (simp add: hs_inv_def)
    then show ?thesis using k by (cases "x = h") (simp_all add: with_pid_def)
  qed
  ultimately have "hs_inv ?s"
    using P by (intro hs_inv_set_table [OF inv, of p P ?P]) simp_all
  then show ?thesis using P nin by (simp add: AddHandle_def with_pid_def)
qed

lemma RemoveHandle_ok:
  assumes inv: "hs_inv s" and P: "hs_proc s p = Some P"
  shows "\<exists>r s'. RemoveHandle p v s = Some (r, s') \<and> r = GetHandle_NoLock P v s \<and>
    (case r of
       None \<Rightarrow> s' = s
     | Some h \<Rightarrow> h \<in> live_handles s \<and> hs_inv s' \<and> live_handles s' = live_handles s \<and> hs_mem s' = hs_mem (with_pid h 0 s) \<and>
         hs_koid s' = hs_koid s \<and> hs_disp s' = hs_disp s \<and> hs_calls s' = hs_calls s \<and> hs_arena s' = hs_arena s \<and>
         hs_proc s' = (hs_proc s)(p \<mapsto> P\<lparr>ph_handles := remove1 h (ph_handles P)\<rparr>))"
proof (cases "GetHandle_NoLock P v s")
  case None
  then show ?thesis using P by (simp add: RemoveHandle_def)
next
  case (Some h)
  note g = GetHandle_SomeD [OF inv P Some]
  let ?P = "P\<lparr>ph_handles := remove1 h (ph_handles P)\<rparr>"
  let ?s = "s\<lparr>hs_mem := (hs_mem s)(h := (hs_mem s h)\<lparr>h_process_id := 0\<rparr>), hs_proc := (hs_proc s)(p \<mapsto> ?P)\<rparr>"
  have "arena_inv ?s" using hs_invD(1) [OF inv] g(2) by (auto simp: arena_inv_def)
  moreover have "table_ok ?s ?P"
    using hs_invD(2) [OF inv P] by (auto simp: table_ok_def)
  moreover have "table_ok ?s Q" if "hs_proc s q = Some Q" "ph_koid Q \<noteq> ph_koid P" for q Q
    using hs_invD(2) [OF inv that(1)] that(2) g(3) by (auto simp: table_ok_def)
  moreover have "h_process_id (hs_mem ?s x) < hs_koid s" if "x \<in> live_handles s" for x
    using inv that by (simp add: hs_inv_def)
  ultimately have "hs_inv ?s"
    using P by (intro hs_inv_set_table [OF inv, of p P ?P]) simp_all
  then show ?thesis using P Some g by (simp add: RemoveHandle_def with_pid_def)
qed

lemma dispatcher_calls_keep [simp]:
  "hs_mem (note_call c s) = hs_mem s" "hs_proc (note_call c s) = hs_proc s" "hs_koid (note_call c s) = hs_koid s"
  "hs_arena (note_call c s) = hs_arena s" "hs_pages (note_call c s) = hs_pages s" "hs_disp (note_call c s) = hs_disp s"
  "hs_mem (remove_handle d s) = hs_mem s" "hs_proc (remove_handle d s) = hs_proc s" "hs_koid (remove_handle d s) = hs_koid s"
  "hs_arena (remove_handle d s) = hs_arena s" "hs_pages (remove_handle d s) = hs_pages s"
  "hs_mem (cancel_or_close d h s) = hs_mem s" "hs_proc (cancel_or_close d h s) = hs_proc s" "hs_koid (cancel_or_close d h s) = hs_koid s"
  "hs_arena (cancel_or_close d h s) = hs_arena s" "hs_pages (cancel_or_close d h s) = hs_pages s"
  "hs_disp (cancel_or_close d h s) = hs_disp s"
  by (simp_all add: note_call_def remove_handle_def cancel_or_close_def Let_def split: mx_obj_type.split)

lemma DeleteHandle_ok:
  assumes inv: "hs_inv s" and h: "h \<in> live_handles s" "\<And>p P. hs_proc s p = Some P \<Longrightarrow> ph_koid P \<noteq> h_process_id (hs_mem s h)"
  shows "\<exists>s'. DeleteHandle h s = Some s' \<and> hs_inv s' \<and> live_handles s' = live_handles s - {h} \<and> hs_mem s' = (hs_mem s)(h := zero_handle) \<and>
    hs_proc s' = hs_proc s \<and> hs_koid s' = hs_koid s"
proof -
  obtain d where d: "h_dispatcher (hs_mem s h) = Some d" using h(1) by (auto simp: live_handles_def)
  have ok: "arena_ok kMaxHandleCount (live_handles s) (hs_arena s) (hs_pages s)" using hs_invD(1) [OF inv] by (simp add: arena_inv_def)
  obtain a where a: "Arena_Free h (hs_arena s) = Some a" "arena_ok kMaxHandleCount (live_handles s - {h}) a (hs_pages s)"
    "ar_ob_size a = ar_ob_size (hs_arena s)"
    using Arena_Free_ok [OF ok h(1)] by blast
  obtain s' where s': "DeleteHandle h s = Some s'" "hs_mem s' = (hs_mem s)(h := zero_handle)" "hs_proc s' = hs_proc s" "hs_koid s' = hs_koid s"
    "hs_arena s' = a" "hs_pages s' = hs_pages s"
    using d a(1) by (simp add: DeleteHandle_def Handle_destroy_def)
  have live: "live_handles s' = live_handles s - {h}" by (auto simp: live_handles_def s' zero_handle_def)
  have "arena_inv s'" using hs_invD(1) [OF inv] a live by (auto simp: arena_inv_def s')
  moreover have "table_ok s' P" if "hs_proc s p = Some P" for p P
    using hs_invD(2) [OF inv that] h(2) [OF that] live by (auto simp: table_ok_def s' zero_handle_def)
  ultimately have "hs_inv s'"
    using inv live unfolding hs_inv_def by (auto simp: s')
  then show ?thesis using s' live by blast
qed

lemma DeleteHandle_in_transit:
  assumes "hs_inv s" "h \<in> live_handles s" "h_process_id (hs_mem s h) = 0"
  shows "\<exists>s'. DeleteHandle h s = Some s' \<and> hs_inv s' \<and> live_handles s' = live_handles s - {h} \<and> hs_mem s' = (hs_mem s)(h := zero_handle) \<and>
    hs_proc s' = hs_proc s \<and> hs_koid s' = hs_koid s"
  using DeleteHandle_ok [OF assms(1,2)] hs_invD(4) [OF assms(1)] assms(3) by simp

lemma BadHandle_ok:
  assumes "hs_inv s" "hs_proc s p = Some P"
  shows "\<exists>s'. BadHandle p s = Some (ERR_BAD_HANDLE, s') \<and> hs_inv s' \<and> hs_mem s' = hs_mem s \<and> hs_proc s' = hs_proc s"
proof -
  have "hs_inv (note_call c s)" for c
    using assms(1) by (simp add: hs_inv_def arena_inv_def table_ok_def live_handles_def)
  then show ?thesis using assms by (simp add: BadHandle_def)
qed

lemma sys_handle_close_ok:
  assumes inv: "hs_inv s" and P: "hs_proc s p = Some P"
  shows "\<exists>st s'. sys_handle_close p v s = Some (st, s') \<and> hs_inv s' \<and>
    (case GetHandle_NoLock P v s of
       None \<Rightarrow> st = ERR_BAD_HANDLE \<and> hs_mem s' = hs_mem s \<and> hs_proc s' = hs_proc s
     | Some h \<Rightarrow> st = NO_ERROR \<and> hs_mem s' = (hs_mem s)(h := zero_handle) \<and>
         hs_proc s' = (hs_proc s)(p \<mapsto> P\<lparr>ph_handles := remove1 h (ph_handles P)\<rparr>))"
proof (cases "GetHandle_NoLock P v s")
  case None
  then show ?thesis using RemoveHandle_ok [OF inv P, of v] BadHandle_ok [OF inv P] by (auto simp: sys_handle_close_def)
next
  case (Some h)
  obtain s1 where s1: "RemoveHandle p v s = Some (Some h, s1)" "hs_inv s1" "live_handles s1 = live_handles s" "h \<in> live_handles s"
    "hs_mem s1 = hs_mem (with_pid h 0 s)" "hs_proc s1 = (hs_proc s)(p \<mapsto> P\<lparr>ph_handles := remove1 h (ph_handles P)\<rparr>)"
    using RemoveHandle_ok [OF inv P, of v] Some by auto
  obtain s2 where "DeleteHandle h s1 = Some s2" "hs_inv s2" "hs_mem s2 = (hs_mem s1)(h := zero_handle)" "hs_proc s2 = hs_proc s1"
    using DeleteHandle_in_transit [OF s1(2), of h] s1(3-5) by (auto simp: with_pid_def)
  then show ?thesis using s1 Some by (simp add: sys_handle_close_def with_pid_def)
qed

text \<open>The first half of a duplication leaves the new handle with the id of the process, and outside its table.\<close>

lemma handle_duplicate_make_ok:
  assumes inv: "hs_inv s" and P: "hs_proc s p = Some P"
  shows "\<exists>r s'. handle_duplicate_make p v rights s = Some (r, s') \<and> hs_proc s' = hs_proc s \<and>
    (case r of
       Inl _ \<Rightarrow> hs_inv s' \<and> hs_mem s' = hs_mem s
     | Inr h \<Rightarrow> hs_inv (with_pid h 0 s') \<and> h \<notin> live_handles s \<and> live_handles s' = insert h (live_handles s) \<and>
         (\<exists>src new. GetHandle_NoLock P v s = Some src \<and> new AND h_rights (hs_mem s src) = new \<and>
            (rights = MX_RIGHT_SAME_RIGHTS \<or> new = rights) \<and>
            hs_mem s' = (hs_mem s)(h := \<lparr>h_process_id = ph_koid P, h_rights = new, h_dispatcher = h_dispatcher (hs_mem s src)\<rparr>)))"
proof (cases "GetHandle_NoLock P v s")
  case None
  then show ?thesis using P BadHandle_ok [OF inv P] by (auto simp: handle_duplicate_make_def)
next
  case (Some src)
  note g = GetHandle_SomeD [OF inv P Some]
  obtain r a f where r: "arena_slot s = Some (r, s\<lparr>hs_arena := a, hs_pages := f\<rparr>)" "ar_ob_size a = sizeof_Handle"
    "case r of None \<Rightarrow> a = hs_arena s \<and> f = hs_pages s \<and> card (live_handles s) = kMaxHandleCount
     | Some h \<Rightarrow> h \<notin> live_handles s \<and> h \<noteq> 0 \<and> arena_ok kMaxHandleCount (insert h (live_handles s)) a f"
    using arena_slot_ok [OF hs_invD(1) [OF inv]] by blast
  let ?new = "if rights = MX_RIGHT_SAME_RIGHTS then h_rights (hs_mem s src) else rights"
  let ?bad = "\<not> magenta_rights_check (h_rights (hs_mem s src)) MX_RIGHT_DUPLICATE \<or>
    rights \<noteq> MX_RIGHT_SAME_RIGHTS \<and> h_rights (hs_mem s src) AND rights \<noteq> rights"
  show ?thesis
  proof (cases "?bad \<or> r = None")
    case True
    then show ?thesis using P Some inv r by (auto simp: handle_duplicate_make_def DupHandle_def)
  next
    case False
    then obtain h where h: "r = Some h" by auto
    define new where "new = ?new"
    let ?s = "Handle_dup h src new (s\<lparr>hs_arena := a, hs_pages := f\<rparr>)"
    have hs: "h \<notin> live_handles s" "arena_ok kMaxHandleCount (insert h (live_handles s)) a f" using r(3) h by auto
    have inv': "hs_inv (with_pid h 0 ?s)" "live_handles (with_pid h 0 ?s) = insert h (live_handles s)"
      using hs_inv_new [OF inv hs r(2), of "with_pid h 0 ?s" "(hs_mem ?s h)\<lparr>h_process_id := 0\<rparr>"] g(2)
      by (auto simp: Handle_dup_def with_pid_def live_handles_def)
    have "handle_duplicate_make p v rights s = Some (Inr h, ?s)"
      using False P Some r(1) h by (auto simp: handle_duplicate_make_def DupHandle_def new_def)
    moreover have "new AND h_rights (hs_mem s src) = new" "rights = MX_RIGHT_SAME_RIGHTS \<or> new = rights"
      using False by (auto simp: new_def and.commute)
    ultimately show ?thesis using inv' hs(1) Some g(3)
      by (intro exI [of _ "Inr h"] exI [of _ ?s]) (auto simp: Handle_dup_def)
  qed
qed

lemma sys_handle_duplicate_ok:
  assumes inv: "hs_inv s" and P: "hs_proc s p = Some P"
  shows "\<exists>r s'. sys_handle_duplicate p v rights s = Some (r, s') \<and> hs_inv s' \<and>
    (case r of
       Inl _ \<Rightarrow> hs_mem s' = hs_mem s \<and> hs_proc s' = hs_proc s
     | Inr hv \<Rightarrow> (\<exists>h src new. h \<notin> live_handles s \<and> GetHandle_NoLock P v s = Some src \<and> new AND h_rights (hs_mem s src) = new \<and>
         (rights = MX_RIGHT_SAME_RIGHTS \<or> new = rights) \<and> hv = MapHandleToValue P h s' \<and>
         hs_proc s' = (hs_proc s)(p \<mapsto> P\<lparr>ph_handles := h # ph_handles P\<rparr>) \<and>
         hs_mem s' = (hs_mem s)(h := \<lparr>h_process_id = ph_koid P, h_rights = new, h_dispatcher = h_dispatcher (hs_mem s src)\<rparr>)))"
proof -
  obtain r s1 where m: "handle_duplicate_make p v rights s = Some (r, s1)" "hs_proc s1 = hs_proc s"
    "case r of Inl _ \<Rightarrow> hs_inv s1 \<and> hs_mem s1 = hs_mem s
     | Inr h \<Rightarrow> hs_inv (with_pid h 0 s1) \<and> h \<notin> live_handles s \<and> live_handles s1 = insert h (live_handles s) \<and>
         (\<exists>src new. GetHandle_NoLock P v s = Some src \<and> new AND h_rights (hs_mem s src) = new \<and>
            (rights = MX_RIGHT_SAME_RIGHTS \<or> new = rights) \<and>
            hs_mem s1 = (hs_mem s)(h := \<lparr>h_process_id = ph_koid P, h_rights = new, h_dispatcher = h_dispatcher (hs_mem s src)\<rparr>))"
    using handle_duplicate_make_ok [OF inv P] by blast
  show ?thesis
  proof (cases r)
    case (Inl st)
    then show ?thesis using m by (simp add: sys_handle_duplicate_def)
  next
    case (Inr h)
    have P1: "hs_proc s1 p = Some P" using P m(2) by simp
    obtain s2 where s2: "AddHandle p h s1 = Some s2" "hs_inv s2" "hs_arena s2 = hs_arena s1"
      "hs_proc s2 = (hs_proc s1)(p \<mapsto> P\<lparr>ph_handles := h # ph_handles P\<rparr>)" "hs_mem s2 = hs_mem (with_pid h (ph_koid P) s1)"
      using AddHandle_ok [of h s1 p P] P1 m(3) Inr by auto
    have "MapHandleToValue P h s1 = MapHandleToValue P h s2" using s2(3) by (simp add: MapHandleToValue_def MapHandleToU32_def)
    moreover have "hs_mem s2 = hs_mem s1" using m(3) Inr s2(5) by (auto simp: with_pid_def)
    ultimately show ?thesis using m Inr P1 s2 by (auto simp: sys_handle_duplicate_def handle_duplicate_add_def)
  qed
qed

lemma install_handle_ok:
  assumes inv: "hs_inv s" and P: "hs_proc s p = Some P"
  shows "\<exists>r s'. install_handle p d rights s = Some (r, s') \<and> hs_inv s' \<and>
    (case r of
       Inl _ \<Rightarrow> s' = s \<and> card (live_handles s) = kMaxHandleCount
     | Inr hv \<Rightarrow> (\<exists>h. h \<notin> live_handles s \<and> hv = MapHandleToValue P h s' \<and>
         hs_proc s' = (hs_proc s)(p \<mapsto> P\<lparr>ph_handles := h # ph_handles P\<rparr>) \<and>
         hs_mem s' = (hs_mem s)(h := \<lparr>h_process_id = ph_koid P, h_rights = rights, h_dispatcher = Some d\<rparr>)))"
proof -
  obtain r s1 where m: "MakeHandle d rights s = Some (r, s1)"
    "case r of None \<Rightarrow> s1 = s \<and> card (live_handles s) = kMaxHandleCount
     | Some h \<Rightarrow> h \<notin> live_handles s \<and> hs_inv s1 \<and> live_handles s1 = insert h (live_handles s) \<and> hs_proc s1 = hs_proc s \<and>
         hs_mem s1 = (hs_mem s)(h := \<lparr>h_process_id = 0, h_rights = rights, h_dispatcher = Some d\<rparr>)"
    using MakeHandle_ok [OF inv] by blast
  show ?thesis
  proof (cases r)
    case None
    then show ?thesis using m inv by (simp add: install_handle_def)
  next
    case (Some h)
    then have s1: "h \<notin> live_handles s" "hs_inv s1" "live_handles s1 = insert h (live_handles s)" "hs_proc s1 = hs_proc s"
      "hs_mem s1 = (hs_mem s)(h := \<lparr>h_process_id = 0, h_rights = rights, h_dispatcher = Some d\<rparr>)" using m(2) by auto
    have "with_pid h 0 s1 = s1" using s1(5) by (simp add: with_pid_def fun_upd_idem)
    then obtain s2 where s2: "AddHandle p h s1 = Some s2" "hs_inv s2" "hs_arena s2 = hs_arena s1"
      "hs_proc s2 = (hs_proc s1)(p \<mapsto> P\<lparr>ph_handles := h # ph_handles P\<rparr>)" "hs_mem s2 = hs_mem (with_pid h (ph_koid P) s1)"
      using AddHandle_ok [of h s1 p P] P s1(2-4) by auto
    have "MapHandleToValue P h s1 = MapHandleToValue P h s2" using s2(3) by (simp add: MapHandleToValue_def MapHandleToU32_def)
    then show ?thesis using m(1) Some s1 s2 P by (auto simp: install_handle_def with_pid_def)
  qed
qed

text \<open>Emptying a table: its process is set aside while its handles go.\<close>

lemma calls_proc:
  "note_call c (s\<lparr>hs_proc := pr\<rparr>) = (note_call c s)\<lparr>hs_proc := pr\<rparr>"
  "remove_handle d (s\<lparr>hs_proc := pr\<rparr>) = (remove_handle d s)\<lparr>hs_proc := pr\<rparr>"
  "cancel_or_close d h (s\<lparr>hs_proc := pr\<rparr>) = (cancel_or_close d h s)\<lparr>hs_proc := pr\<rparr>"
  by (simp_all add: note_call_def remove_handle_def cancel_or_close_def Let_def split: mx_obj_type.split)

lemma DeleteHandle_proc:
  "DeleteHandle h (s\<lparr>hs_proc := pr\<rparr>) = map_option (hs_proc_update (\<lambda>_. pr)) (DeleteHandle h s)"
  by (cases "h_dispatcher (hs_mem s h)"; cases "Arena_Free h (hs_arena s)") (simp_all add: DeleteHandle_def Handle_destroy_def calls_proc)

lemma DeleteHandle_keeps: "DeleteHandle h s = Some s' \<Longrightarrow> hs_proc s' = hs_proc s"
  by (cases "h_dispatcher (hs_mem s h)"; cases "Arena_Free h (hs_arena s)") (auto simp: DeleteHandle_def Handle_destroy_def)

lemma delete_handles_keeps: "delete_handles hs s = Some s' \<Longrightarrow> hs_proc s' = hs_proc s"
proof (induction hs arbitrary: s)
  case (Cons h hs)
  then show ?case using DeleteHandle_keeps [of h s] by (cases "DeleteHandle h s") auto
qed simp

lemma delete_handles_proc:
  "delete_handles hs (s\<lparr>hs_proc := pr\<rparr>) = map_option (hs_proc_update (\<lambda>_. pr)) (delete_handles hs s)"
proof (induction hs arbitrary: s)
  case (Cons h hs)
  then show ?case by (cases "DeleteHandle h s") (auto simp: DeleteHandle_proc)
qed simp

lemma delete_handles_ok:
  assumes "hs_inv s" "set hs \<subseteq> live_handles s" "distinct hs"
    "\<And>h p P. h \<in> set hs \<Longrightarrow> hs_proc s p = Some P \<Longrightarrow> ph_koid P \<noteq> h_process_id (hs_mem s h)"
  shows "\<exists>s'. delete_handles hs s = Some s' \<and> hs_inv s' \<and> hs_proc s' = hs_proc s \<and> hs_koid s' = hs_koid s \<and>
    hs_mem s' = (\<lambda>h. if h \<in> set hs then zero_handle else hs_mem s h)"
  using assms
proof (induction hs arbitrary: s)
  case (Cons h hs)
  obtain s1 where s1: "DeleteHandle h s = Some s1" "hs_inv s1" "live_handles s1 = live_handles s - {h}"
    "hs_mem s1 = (hs_mem s)(h := zero_handle)" "hs_proc s1 = hs_proc s" "hs_koid s1 = hs_koid s"
    using DeleteHandle_ok [OF Cons.prems(1), of h] Cons.prems(2) Cons.prems(4) [of h] by auto
  have sub: "set hs \<subseteq> live_handles s1" using Cons.prems(2,3) s1(3) by auto
  have pid: "ph_koid P \<noteq> h_process_id (hs_mem s1 h')" if "h' \<in> set hs" "hs_proc s1 p = Some P" for h' p P
  proof -
    have "h' \<noteq> h" using Cons.prems(3) that(1) by auto
    then show ?thesis using Cons.prems(4) [of h' p P] that s1(4,5) by simp
  qed
  have dist: "distinct hs" using Cons.prems(3) by simp
  have "\<exists>s2. delete_handles hs s1 = Some s2 \<and> hs_inv s2 \<and> hs_proc s2 = hs_proc s1 \<and> hs_koid s2 = hs_koid s1 \<and>
    hs_mem s2 = (\<lambda>h. if h \<in> set hs then zero_handle else hs_mem s1 h)"
    by (rule Cons.IH [OF s1(2) sub dist]) (rule pid)
  then show ?case using s1(1,4,5,6) by (auto simp: fun_eq_iff)
qed auto

lemma clean_handle_table_ok:
  assumes inv: "hs_inv s" and P: "hs_proc s p = Some P"
  shows "\<exists>s'. clean_handle_table p s = Some s' \<and> hs_inv s' \<and> hs_proc s' = (hs_proc s)(p \<mapsto> P\<lparr>ph_handles := []\<rparr>) \<and>
    hs_koid s' = hs_koid s \<and> hs_mem s' = (\<lambda>h. if h \<in> set (ph_handles P) then zero_handle else hs_mem s h)"
proof -
  let ?s0 = "s\<lparr>hs_proc := (hs_proc s)(p := None)\<rparr>" let ?hs = "ph_handles P"
  have t: "table_ok s P" by (rule hs_invD(2) [OF inv P])
  have inv0: "hs_inv ?s0"
    using inv by (auto simp: hs_inv_def arena_inv_def table_ok_def split: if_splits)
  have pid: "ph_koid Q \<noteq> h_process_id (hs_mem ?s0 h)" if "h \<in> set ?hs" "hs_proc ?s0 q = Some Q" for h q Q
    using hs_invD(3) [OF inv _ P, of q Q] table_okD(1) [OF t, of h] that by (auto split: if_splits)
  have sub: "set ?hs \<subseteq> live_handles ?s0" using table_okD(1) [OF t] by auto
  have "\<exists>s'. delete_handles ?hs ?s0 = Some s' \<and> hs_inv s' \<and> hs_proc s' = hs_proc ?s0 \<and> hs_koid s' = hs_koid ?s0 \<and>
    hs_mem s' = (\<lambda>h. if h \<in> set ?hs then zero_handle else hs_mem ?s0 h)"
    by (rule delete_handles_ok [OF inv0 sub table_okD(2) [OF t]]) (rule pid)
  then obtain s1 where s1: "delete_handles ?hs ?s0 = Some s1" "hs_inv s1" "hs_proc s1 = (hs_proc s)(p := None)" "hs_koid s1 = hs_koid s"
    "hs_mem s1 = (\<lambda>h. if h \<in> set ?hs then zero_handle else hs_mem s h)"
    by (auto cong: if_cong)
  obtain s2 where s2: "delete_handles ?hs s = Some s2" "s1 = s2\<lparr>hs_proc := (hs_proc s)(p := None)\<rparr>"
    using s1(1) delete_handles_proc [of ?hs "(hs_proc s)(p := None)" s] by auto
  have proc2: "hs_proc s2 = hs_proc s" by (rule delete_handles_keeps [OF s2(1)])
  let ?P = "P\<lparr>ph_handles := []\<rparr>" let ?s = "s2\<lparr>hs_proc := (hs_proc s)(p \<mapsto> ?P)\<rparr>"
  have mem: "hs_mem ?s = (\<lambda>h. if h \<in> set ?hs then zero_handle else hs_mem s h)" using s1(5) s2(2) by simp
  have live: "live_handles ?s = live_handles s - set ?hs" by (auto simp: live_handles_def mem zero_handle_def split: if_splits)
  have "hs_inv ?s"
  proof (rule hs_inv_set_table [OF inv P])
    show "arena_inv ?s" using hs_invD(1) [OF s1(2)] s2(2) by (simp add: arena_inv_def live_handles_def)
    show "table_ok ?s ?P" using t live by (auto simp: table_ok_def mem)
    show "table_ok ?s Q" if "hs_proc s q = Some Q" "ph_koid Q \<noteq> ph_koid P" for q Q
      using hs_invD(2) [OF inv that(1)] that(2) t live by (auto simp: table_ok_def mem)
    show "h_process_id (hs_mem ?s h) < hs_koid s" if "h \<in> live_handles ?s" for h
      using that live inv by (auto simp: mem hs_inv_def)
  qed (use s1(4) s2(2) in simp_all)
  then show ?thesis using P s2(1) mem s1(4) s2(2) proc2 by (simp add: clean_handle_table_def)
qed

section \<open>Any use of the handle system\<close>

definition unreferenced :: "nat \<Rightarrow> handle_system \<Rightarrow> bool" where
  "unreferenced d s \<longleftrightarrow> (\<forall>h. h_dispatcher (hs_mem s h) \<noteq> Some d)"

definition boot_system :: "nat \<Rightarrow> handle_system" where
  "boot_system pages = \<lparr>hs_arena = Arena, hs_mem = (\<lambda>_. zero_handle), hs_pages = pages,
     hs_disp = (\<lambda>_. \<lparr>di_koid = 0, di_type = MX_OBJ_TYPE_NONE, di_has_tracker = False, di_handle_count = 0\<rparr>),
     hs_proc = (\<lambda>_. None), hs_koid = 255, hs_calls = []\<rparr>"

text \<open>
  The steps are the operations under the locks that protect them; a handle taken out of a table (by a message write) is in
  transit until it is added to another or deleted. Duplication is one step here. \<open>lim\<close> is the rights each object's
  first handle was made with. The counter of object ids is 64 bits wide and taken not to wrap.
\<close>

inductive hs_reach :: "handle_system \<Rightarrow> (nat \<Rightarrow> mx_rights) \<Rightarrow> bool" where
  hr_boot: "\<lbrakk>magenta_init (NO_ERROR, c) True True (NO_ERROR, start) (boot_system pages) = Some s; 0 < start; start < 2 ^ 62;
    320 \<le> pages\<rbrakk> \<Longrightarrow> hs_reach s lim"
| hr_dispatcher: "\<lbrakk>hs_reach s lim; hs_koid s \<noteq> - 1; unreferenced d s\<rbrakk> \<Longrightarrow> hs_reach (Dispatcher_new d type tr s) lim"
| hr_process: "\<lbrakk>hs_reach s lim; hs_koid s \<noteq> - 1; unreferenced p s; hs_proc s p = None\<rbrakk> \<Longrightarrow>
    hs_reach (ProcessDispatcher_new rnd p s) lim"
| hr_install: "\<lbrakk>hs_reach s lim; hs_proc s p = Some P; unreferenced d s; install_handle p d rights s = Some (r, s')\<rbrakk> \<Longrightarrow>
    hs_reach s' (lim(d := rights))"
| hr_close: "\<lbrakk>hs_reach s lim; hs_proc s p = Some P; sys_handle_close p v s = Some (st, s')\<rbrakk> \<Longrightarrow> hs_reach s' lim"
| hr_duplicate: "\<lbrakk>hs_reach s lim; hs_proc s p = Some P; sys_handle_duplicate p v rights s = Some (r, s')\<rbrakk> \<Longrightarrow> hs_reach s' lim"
| hr_remove: "\<lbrakk>hs_reach s lim; hs_proc s p = Some P; RemoveHandle p v s = Some (r, s')\<rbrakk> \<Longrightarrow> hs_reach s' lim"
| hr_add: "\<lbrakk>hs_reach s lim; hs_proc s p = Some P; h \<in> live_handles s; h_process_id (hs_mem s h) = 0; AddHandle p h s = Some s'\<rbrakk> \<Longrightarrow>
    hs_reach s' lim"
| hr_delete: "\<lbrakk>hs_reach s lim; h \<in> live_handles s; h_process_id (hs_mem s h) = 0; DeleteHandle h s = Some s'\<rbrakk> \<Longrightarrow> hs_reach s' lim"
| hr_clean: "\<lbrakk>hs_reach s lim; hs_proc s p = Some P; clean_handle_table p s = Some s'\<rbrakk> \<Longrightarrow> hs_reach s' lim"

definition hs_rights :: "(nat \<Rightarrow> mx_rights) \<Rightarrow> handle_system \<Rightarrow> bool" where
  "hs_rights lim s \<longleftrightarrow> (\<forall>h d. h_dispatcher (hs_mem s h) = Some d \<longrightarrow> h_rights (hs_mem s h) AND lim d = h_rights (hs_mem s h))"

lemma boot_inv:
  assumes "magenta_init (NO_ERROR, c) True True (NO_ERROR, start) (boot_system pages) = Some s" "0 < start" "start < 2 ^ 62" "320 \<le> pages"
  shows "hs_inv s" "hs_mem s = (\<lambda>_. zero_handle)"
proof -
  obtain st a where i: "Arena_Init 7 sizeof_Handle kMaxHandleCount (NO_ERROR, c) True True (NO_ERROR, start) Arena = Some (st, a)"
    and s: "s = (boot_system pages)\<lparr>hs_arena := a\<rparr>"
    using assms(1) by (auto simp: magenta_init_def boot_system_def split: bind_splits)
  have "st = NO_ERROR"
    using i by (auto simp: Arena_Init_def sizeof_Handle_def kMaxHandleCount_def PAGE_SIZE_def VmObject_Create_def VMO_MAX_SIZE_def
        Resize_def VmObject_def ROUNDUP_PAGE_SIZE_def Let_def)
  with i have "arena_ok kMaxHandleCount {} a pages \<and> ar_ob_size a = sizeof_Handle"
    using Arena_Init_ok [of 7 sizeof_Handle kMaxHandleCount "(NO_ERROR, c)" True True "(NO_ERROR, start)" a pages] assms(2-4)
    by (simp add: sizeof_Handle_def kMaxHandleCount_def PAGE_SIZE_def)
  then show "hs_inv s" "hs_mem s = (\<lambda>_. zero_handle)"
    by (auto simp: s boot_system_def hs_inv_def arena_inv_def live_handles_def zero_handle_def)
qed

lemma koid_next: "k \<noteq> - 1 \<Longrightarrow> (k :: mx_koid) < k + 1"
  using unatSuc [of k] by (simp add: word_less_nat_alt add.commute add_eq_0_iff)

lemma Dispatcher_new_inv:
  assumes inv: "hs_inv s" and k: "hs_koid s \<noteq> - 1"
  shows "hs_inv (Dispatcher_new d type tr s)" "hs_mem (Dispatcher_new d type tr s) = hs_mem s" "hs_proc (Dispatcher_new d type tr s) = hs_proc s"
proof -
  have "live_handles (Dispatcher_new d type tr s) = live_handles s"
    by (simp add: live_handles_def Dispatcher_new_def GenerateKernelObjectId_def)
  then show "hs_inv (Dispatcher_new d type tr s)"
    using inv less_trans [OF _ koid_next [OF k]] unfolding hs_inv_def
    by (simp add: Dispatcher_new_def GenerateKernelObjectId_def arena_inv_def table_ok_def)
  show "hs_mem (Dispatcher_new d type tr s) = hs_mem s" "hs_proc (Dispatcher_new d type tr s) = hs_proc s"
    by (simp_all add: Dispatcher_new_def GenerateKernelObjectId_def)
qed

lemma ProcessDispatcher_new_inv:
  assumes inv: "hs_inv s" and k: "hs_koid s \<noteq> - 1" and p: "hs_proc s p = None"
  shows "hs_inv (ProcessDispatcher_new rnd p s)" "hs_mem (ProcessDispatcher_new rnd p s) = hs_mem s"
proof -
  let ?s = "ProcessDispatcher_new rnd p s"
  let ?P = "\<lparr>ph_koid = hs_koid s, ph_handle_rand = handle_rand_of rnd, ph_handles = [], ph_bad_handle_policy = MX_POLICY_BAD_HANDLE_IGNORE\<rparr>"
  show mem: "hs_mem ?s = hs_mem s"
    by (simp add: ProcessDispatcher_new_def Dispatcher_new_def GenerateKernelObjectId_def)
  have proc: "hs_proc ?s = (hs_proc s)(p \<mapsto> ?P)" and koid: "hs_koid ?s = hs_koid s + 1" and ar: "hs_arena ?s = hs_arena s" "hs_pages ?s = hs_pages s"
    by (simp_all add: ProcessDispatcher_new_def Dispatcher_new_def GenerateKernelObjectId_def Let_def)
  have live: "live_handles ?s = live_handles s" by (simp add: live_handles_def mem)
  have lt: "h_process_id (hs_mem s h) < hs_koid s" if "h \<in> live_handles s" for h using inv that by (simp add: hs_inv_def)
  have new: "table_ok ?s ?P"
    using less_imp_neq [OF lt] inv by (auto simp: table_ok_def live mem rand_ok_handle_rand_of hs_inv_def)
  have old: "table_ok ?s Q" "ph_koid Q < hs_koid s" if "hs_proc s q = Some Q" for q Q
    using hs_invD(2,4) [OF inv that] by (auto simp: table_ok_def live mem)
  show "hs_inv ?s"
    unfolding hs_inv_def
  proof (intro conjI allI impI ballI)
    show "arena_inv ?s" using hs_invD(1) [OF inv] by (simp add: arena_inv_def live mem ar)
    show "table_ok ?s Q" if "hs_proc ?s q = Some Q" for q Q using that new old by (auto simp: proc split: if_splits)
    show "q = r" if "hs_proc ?s q = Some Q" "hs_proc ?s r = Some R" "ph_koid Q = ph_koid R" for q r Q R
      using that old(2) [of q Q] old(2) [of r R] hs_invD(3) [OF inv, of q Q r R] by (auto simp: proc split: if_splits)
    show "0 < hs_koid ?s" using inv koid_next [OF k] unfolding koid hs_inv_def by (meson order_less_trans)
    show "h_process_id (hs_mem ?s h) < hs_koid ?s" if "h \<in> live_handles ?s" for h
      using lt [of h] that koid_next [OF k] unfolding koid mem live by (meson order_less_trans)
    show "ph_koid Q < hs_koid ?s" if "hs_proc ?s q = Some Q" for q Q
      using that old(2) [of q Q] koid_next [OF k] unfolding koid by (auto simp: proc split: if_splits intro: order_less_trans)
  qed
qed

lemma hs_rights_mem: "hs_mem s' = hs_mem s \<Longrightarrow> hs_rights lim s \<Longrightarrow> hs_rights lim s'"
  by (simp add: hs_rights_def)

lemma hs_rights_upd:
  assumes "hs_rights lim s" "hs_mem s' = (hs_mem s)(h := x)" "\<And>d. h_dispatcher x = Some d \<Longrightarrow> h_rights x AND lim d = h_rights x"
  shows "hs_rights lim s'"
  using assms by (simp add: hs_rights_def)

text \<open>Creating the first handle of an object, on a system where nothing refers to it.\<close>

lemma hs_rights_new:
  assumes "hs_rights lim s" "unreferenced d s" "hs_mem s' = (hs_mem s)(h := x)" "h_dispatcher x = Some d" "h_rights x = rights"
  shows "hs_rights (lim(d := rights)) s'"
  using assms by (auto simp: hs_rights_def unreferenced_def)

lemma duplicate_rights:
  assumes "hs_rights lim s" "new AND h_rights (hs_mem s src) = new" "h_dispatcher (hs_mem s src) = Some d"
  shows "new AND lim d = new"
proof -
  have "h_rights (hs_mem s src) AND lim d = h_rights (hs_mem s src)" using assms(1,3) by (simp add: hs_rights_def)
  then show ?thesis using assms(2) by (metis and.assoc)
qed

lemma hs_rights_dup:
  assumes "hs_rights lim s" "new AND h_rights (hs_mem s src) = new"
    "hs_mem s' = (hs_mem s)(h := \<lparr>h_process_id = k, h_rights = new, h_dispatcher = h_dispatcher (hs_mem s src)\<rparr>)"
  shows "hs_rights lim s'"
  using hs_rights_upd [OF assms(1,3)] duplicate_rights [OF assms(1,2)] by simp

lemma hs_reach_inv: "hs_reach s lim \<Longrightarrow> hs_inv s \<and> hs_rights lim s"
proof (induction rule: hs_reach.induct)
  case (hr_boot c start pages s lim)
  then show ?case using boot_inv [of c start pages s] by (simp add: hs_rights_def zero_handle_def)
next
  case (hr_dispatcher s lim d type tr)
  then show ?case using Dispatcher_new_inv [of s d type tr] by (auto intro: hs_rights_mem)
next
  case (hr_process s lim p rnd)
  then show ?case using ProcessDispatcher_new_inv [of s p rnd] by (auto intro: hs_rights_mem)
next
  case (hr_install s lim p P d rights r s')
  have new: "hs_rights (lim(d := rights)) s" using hr_install.IH hr_install.hyps(3) by (auto simp: hs_rights_def unreferenced_def)
  obtain r2 s2 where i: "install_handle p d rights s = Some (r2, s2)" "hs_inv s2" "case r2 of Inl _ \<Rightarrow> s2 = s \<and> card (live_handles s) = kMaxHandleCount
     | Inr hv \<Rightarrow> (\<exists>h. h \<notin> live_handles s \<and> hv = MapHandleToValue P h s2 \<and>
         hs_proc s2 = (hs_proc s)(p \<mapsto> P\<lparr>ph_handles := h # ph_handles P\<rparr>) \<and>
         hs_mem s2 = (hs_mem s)(h := \<lparr>h_process_id = ph_koid P, h_rights = rights, h_dispatcher = Some d\<rparr>))"
    using install_handle_ok [of s p P d rights] hr_install by blast
  then have "hs_rights (lim(d := rights)) s2" using new by (auto split: sum.splits intro: hs_rights_upd)
  then show ?case using hr_install.hyps(4) i(1,2) by (simp add: fun_upd_def)
next
  case (hr_close s lim p P v st s')
  obtain st2 s2 where "sys_handle_close p v s = Some (st2, s2)" "hs_inv s2" "hs_mem s2 = hs_mem s \<or> (\<exists>h. hs_mem s2 = (hs_mem s)(h := zero_handle))"
    using sys_handle_close_ok [of s p P v] hr_close by (auto split: option.splits)
  then show ?case using hr_close by (auto intro: hs_rights_mem hs_rights_upd simp: zero_handle_def)
next
  case (hr_duplicate s lim p P v rights r s')
  obtain r2 s2 where d: "sys_handle_duplicate p v rights s = Some (r2, s2)" "hs_inv s2"
    "hs_mem s2 = hs_mem s \<or> (\<exists>h src new. new AND h_rights (hs_mem s src) = new \<and>
       hs_mem s2 = (hs_mem s)(h := \<lparr>h_process_id = ph_koid P, h_rights = new, h_dispatcher = h_dispatcher (hs_mem s src)\<rparr>))"
    using sys_handle_duplicate_ok [of s p P v rights] hr_duplicate by (fastforce split: sum.splits)
  have "hs_rights lim s2"
    using d(3) hr_duplicate.IH hs_rights_mem hs_rights_dup by blast
  then show ?case using d(1,2) hr_duplicate.hyps(3) by simp
next
  case (hr_remove s lim p P v r s')
  then obtain r2 s2 where "RemoveHandle p v s = Some (r2, s2)" "hs_inv s2" "s2 = s \<or> (\<exists>h. hs_mem s2 = hs_mem (with_pid h 0 s))"
    using RemoveHandle_ok [of s p P v] by (auto split: option.splits)
  moreover have "hs_rights lim s2" if "hs_mem s2 = hs_mem (with_pid h 0 s)" for h s2
    using hr_remove.IH that by (auto simp: hs_rights_def)
  ultimately show ?case using hr_remove by auto
next
  case (hr_add s lim p P h s')
  have "with_pid h 0 s = s" using hr_add.hyps(4) by (simp add: with_pid_def fun_upd_idem)
  then obtain s2 where "AddHandle p h s = Some s2" "hs_inv s2" "hs_mem s2 = hs_mem (with_pid h (ph_koid P) s)"
    using AddHandle_ok [of h s p P] hr_add by auto
  then show ?case using hr_add by (auto simp: hs_rights_def)
next
  case (hr_delete s lim h s')
  then obtain s2 where "DeleteHandle h s = Some s2" "hs_inv s2" "hs_mem s2 = (hs_mem s)(h := zero_handle)"
    using DeleteHandle_in_transit [of s h] by auto
  then show ?case using hr_delete by (auto intro: hs_rights_upd simp: zero_handle_def)
next
  case (hr_clean s lim p P s')
  then obtain s2 where "clean_handle_table p s = Some s2" "hs_inv s2"
    "hs_mem s2 = (\<lambda>h. if h \<in> set (ph_handles P) then zero_handle else hs_mem s h)"
    using clean_handle_table_ok [of s p P] by auto
  then show ?case using hr_clean by (auto simp: hs_rights_def zero_handle_def split: if_splits)
qed

section \<open>A system with two processes\<close>

lemma boot_returns: "\<exists>s. magenta_init (NO_ERROR, 4096) True True (NO_ERROR, 8192) (boot_system 320) = Some s \<and> hs_proc s = (\<lambda>_. None) \<and> hs_koid s = 255"
  by (simp add: magenta_init_def boot_system_def Arena_Init_def sizeof_Handle_def kMaxHandleCount_def PAGE_SIZE_def VmObject_Create_def
      VMO_MAX_SIZE_def Resize_def VmObject_def ROUNDUP_PAGE_SIZE_def Let_def)

text \<open>Process 7 holds the first handle of an event, with the event's default rights; process 8 holds none.\<close>

definition two_processes :: "handle_system \<Rightarrow> (nat \<Rightarrow> mx_rights) \<Rightarrow> process_handles \<Rightarrow> process_handles \<Rightarrow> nat \<Rightarrow> bool" where
  "two_processes s lim P Q h \<longleftrightarrow> hs_reach s lim \<and> hs_proc s 7 = Some P \<and> hs_proc s 8 = Some Q \<and> ph_handles P = [h] \<and> ph_handles Q = [] \<and>
     h_rights (hs_mem s h) = kDefaultEventRights \<and> h_dispatcher (hs_mem s h) = Some 3 \<and> lim 3 = kDefaultEventRights \<and>
     live_handles s = {h} \<and> di_handle_count (hs_disp s 3) = 1 \<and> di_has_tracker (hs_disp s 3)"

lemma two_processes_ex: "\<exists>s lim P Q h. two_processes s lim P Q h"
proof -
  obtain s0 where s0: "magenta_init (NO_ERROR, 4096) True True (NO_ERROR, 8192) (boot_system 320) = Some s0"
    "hs_proc s0 = (\<lambda>_. None)" "hs_koid s0 = 255" using boot_returns by blast
  have r0: "hs_reach s0 (\<lambda>_. 0)" using s0(1) by (rule hr_boot) simp_all
  have m0: "hs_mem s0 = (\<lambda>_. zero_handle)" using boot_inv(2) [OF s0(1)] by simp
  let ?s1 = "ProcessDispatcher_new 5 7 s0" let ?s2 = "ProcessDispatcher_new 9 8 ?s1" let ?s3 = "Dispatcher_new 3 MX_OBJ_TYPE_EVENT True ?s2"
  note defs = ProcessDispatcher_new_def Dispatcher_new_def GenerateKernelObjectId_def Let_def
  have u: "unreferenced d s" if "hs_mem s = (\<lambda>_. zero_handle)" for d s using that by (simp add: unreferenced_def zero_handle_def)
  have r1: "hs_reach ?s1 (\<lambda>_. 0)" using r0 by (rule hr_process) (simp_all add: s0 u m0)
  have r2: "hs_reach ?s2 (\<lambda>_. 0)" using r1 by (rule hr_process) (simp_all add: s0 u m0 defs)
  have r3: "hs_reach ?s3 (\<lambda>_. 0)" using r2 by (rule hr_dispatcher) (simp_all add: s0 u m0 defs)
  have m3: "hs_mem ?s3 = (\<lambda>_. zero_handle)" by (simp add: defs m0)
  have l3: "live_handles ?s3 = {}" by (simp add: live_handles_def m3 zero_handle_def)
  have c3: "di_handle_count (hs_disp ?s3 3) = 0" "di_has_tracker (hs_disp ?s3 3)" by (simp_all add: defs)
  obtain P Q where P: "hs_proc ?s3 7 = Some P" "hs_proc ?s3 8 = Some Q" "ph_handles P = []" "ph_handles Q = []" by (simp add: defs)
  obtain r4 s4 where s4: "MakeHandle 3 kDefaultEventRights ?s3 = Some (r4, s4)" "case r4 of None \<Rightarrow> s4 = ?s3 \<and> card (live_handles ?s3) = kMaxHandleCount
     | Some h \<Rightarrow> h \<notin> live_handles ?s3 \<and> hs_inv s4 \<and> live_handles s4 = insert h (live_handles ?s3) \<and> hs_proc s4 = hs_proc ?s3 \<and>
         hs_mem s4 = (hs_mem ?s3)(h := \<lparr>h_process_id = 0, h_rights = kDefaultEventRights, h_dispatcher = Some 3\<rparr>)"
    using MakeHandle_ok [of ?s3 3 kDefaultEventRights] hs_reach_inv [OF r3] by blast
  then obtain h where h: "r4 = Some h" "hs_inv s4" "live_handles s4 = {h}" "hs_proc s4 = hs_proc ?s3"
    "hs_mem s4 = (hs_mem ?s3)(h := \<lparr>h_process_id = 0, h_rights = kDefaultEventRights, h_dispatcher = Some 3\<rparr>)"
    using l3 by (auto simp: kMaxHandleCount_def split: option.splits)
  have d4: "di_handle_count (hs_disp s4 3) = 1" "di_has_tracker (hs_disp s4 3)"
    using s4(1) h(1) c3 by (auto simp: MakeHandle_def arena_slot_def Handle_new_def add_handle_def split: bind_splits option.splits)
  have w: "with_pid h 0 s4 = s4" using h(5) by (simp add: with_pid_def fun_upd_idem)
  obtain s5 where s5: "AddHandle 7 h s4 = Some s5" "live_handles s5 = live_handles s4" "hs_disp s5 = hs_disp s4"
    "hs_proc s5 = (hs_proc s4)(7 \<mapsto> P\<lparr>ph_handles := h # ph_handles P\<rparr>)" "hs_mem s5 = hs_mem (with_pid h (ph_koid P) s4)"
    using AddHandle_ok [of h s4 7 P] h P(1) by (auto simp: w)
  have "install_handle 7 3 kDefaultEventRights ?s3 = Some (Inr (MapHandleToValue P h s4), s5)"
    using s4(1) h(1,4) P(1) s5(1) by (simp add: install_handle_def)
  with r3 P(1) have "hs_reach s5 ((\<lambda>_. 0)(3 := kDefaultEventRights))" by (rule hr_install [OF _ _ u [OF m3]])
  then have "two_processes s5 ((\<lambda>_. 0)(3 := kDefaultEventRights)) (P\<lparr>ph_handles := [h]\<rparr>) Q h"
    using s5 h P d4 by (simp add: two_processes_def with_pid_def)
  then show ?thesis by blast
qed

lemma two_processes_finite: "two_processes s lim P Q h \<Longrightarrow> card (live_handles s) \<noteq> kMaxHandleCount"
  by (simp add: two_processes_def kMaxHandleCount_def)

section \<open>Values stay valid\<close>

lemma Arena_Alloc_start: "Arena_Alloc a f = Some (r, a', f') \<Longrightarrow> ar_d_start a' = ar_d_start a"
  by (auto simp: Arena_Alloc_def CommitMemoryAheadIfNeeded_def split: list.splits if_splits bind_splits sum.splits)

lemma Arena_Free_start: "Arena_Free h a = Some a' \<Longrightarrow> ar_d_start a' = ar_d_start a"
  by (auto simp: Arena_Free_def split: if_splits bind_splits)

lemma DeleteHandle_shape:
  assumes "DeleteHandle h s = Some s'"
  shows "ar_d_start (hs_arena s') = ar_d_start (hs_arena s)"
    "\<exists>d. h_dispatcher (hs_mem s h) = Some d \<and> hs_calls s' = hs_calls (note_call (Released d) (remove_handle d (cancel_or_close d h s)))"
proof -
  obtain d a where "h_dispatcher (hs_mem s h) = Some d" "Arena_Free h (hs_arena s) = Some a"
    "s' = (note_call (Released d) (remove_handle d (cancel_or_close d h s)))\<lparr>hs_mem := (hs_mem s)(h := zero_handle), hs_arena := a\<rparr>"
    using assms by (cases "h_dispatcher (hs_mem s h)"; cases "Arena_Free h (hs_arena s)") (auto simp: DeleteHandle_def Handle_destroy_def)
  then show "ar_d_start (hs_arena s') = ar_d_start (hs_arena s)"
    "\<exists>d. h_dispatcher (hs_mem s h) = Some d \<and> hs_calls s' = hs_calls (note_call (Released d) (remove_handle d (cancel_or_close d h s)))"
    using Arena_Free_start by auto
qed

lemma cancel_or_close_calls: "\<exists>c. hs_calls (cancel_or_close d h s) = hs_calls s @ c"
  by (auto simp: cancel_or_close_def note_call_def split: mx_obj_type.splits)

lemma RemoveHandle_shape:
  assumes "RemoveHandle p v s = Some (r, s')"
  shows "hs_arena s' = hs_arena s" "hs_calls s' = hs_calls s" "hs_disp s' = hs_disp s"
  using assms by (auto simp: RemoveHandle_def split: bind_splits option.splits)

lemma sys_handle_close_start: "sys_handle_close p v s = Some (st, s') \<Longrightarrow> ar_d_start (hs_arena s') = ar_d_start (hs_arena s)"
  using RemoveHandle_shape(1) [of p v s] DeleteHandle_shape(1)
  by (fastforce simp: sys_handle_close_def BadHandle_def Let_def split: bind_splits option.splits if_splits)

lemma sys_handle_duplicate_shape:
  assumes "sys_handle_duplicate p v rights s = Some (Inr hv, s')"
  shows "ar_d_start (hs_arena s') = ar_d_start (hs_arena s)" "hs_disp s' = hs_disp s"
  using assms Arena_Alloc_start
  by (auto simp: sys_handle_duplicate_def handle_duplicate_make_def handle_duplicate_add_def DupHandle_def Handle_dup_def arena_slot_def
      AddHandle_def BadHandle_def Let_def split: bind_splits option.splits if_splits sum.splits)

lemma value_cong:
  assumes "ar_d_start (hs_arena s') = ar_d_start (hs_arena s)" "ph_handle_rand P' = ph_handle_rand P"
  shows "MapHandleToValue P' h s' = MapHandleToValue P h s"
  using assms by (simp add: MapHandleToValue_def MapHandleToU32_def)

text \<open>A handle that is in the table is found under its value, and nothing else is found.\<close>

lemma GetHandle_iff:
  assumes "hs_inv s" "hs_proc s p = Some P"
  shows "GetHandle_NoLock P v s = Some h \<longleftrightarrow> h \<in> set (ph_handles P) \<and> v = MapHandleToValue P h s"
proof
  show "GetHandle_NoLock P v s = Some h \<Longrightarrow> h \<in> set (ph_handles P) \<and> v = MapHandleToValue P h s"
    using GetHandle_SomeD [OF assms] by blast
  assume a: "h \<in> set (ph_handles P) \<and> v = MapHandleToValue P h s"
  then have "h \<in> live_handles s" "h_process_id (hs_mem s h) = ph_koid P"
    using table_okD(1) [OF hs_invD(2) [OF assms]] by auto
  then show "GetHandle_NoLock P v s = Some h" using GetHandle_value [OF hs_invD(1) [OF assms(1)]] a by simp
qed

lemma duplicate_succeeds:
  assumes t: "two_processes s lim P Q h"
  shows "\<exists>hv s'. sys_handle_duplicate 7 (MapHandleToValue P h s) MX_RIGHT_SAME_RIGHTS s = Some (Inr hv, s')"
proof -
  have r: "hs_reach s lim" "hs_proc s 7 = Some P" "h \<in> set (ph_handles P)" "h_rights (hs_mem s h) = kDefaultEventRights"
    using t by (simp_all add: two_processes_def)
  have inv: "hs_inv s" using hs_reach_inv [OF r(1)] by simp
  have v: "GetHandle_NoLock P (MapHandleToValue P h s) s = Some h" using GetHandle_iff [OF inv r(2)] r(3) by simp
  have "kDefaultEventRights AND MX_RIGHT_DUPLICATE = MX_RIGHT_DUPLICATE"
    by (rule bit_word_eqI) (auto simp: kDefaultEventRights_def bit_simps)
  then have "magenta_rights_check (h_rights (hs_mem s h)) MX_RIGHT_DUPLICATE" by (simp add: magenta_rights_check_def r(4))
  moreover obtain x s1 where "arena_slot s = Some (Some x, s1)"
    using arena_slot_ok [OF hs_invD(1) [OF inv]] two_processes_finite [OF t] by (auto split: option.splits)
  ultimately have "\<exists>s2. handle_duplicate_make 7 (MapHandleToValue P h s) MX_RIGHT_SAME_RIGHTS s = Some (Inr x, s2)"
    using r(2) v by (simp add: handle_duplicate_make_def DupHandle_def)
  then show ?thesis using sys_handle_duplicate_ok [OF inv r(2), of "MapHandleToValue P h s" MX_RIGHT_SAME_RIGHTS]
    by (auto simp: sys_handle_duplicate_def split: bind_splits)
qed

section \<open>Properties\<close>

text \<open>
  C27: over any use of the arena of handles, from its initialisation on, every handle in a process's table is found under the value user
  code holds for it and under no other value. The value is never zero and never negative as the signed integer user code
  sees.
\<close>

theorem handle_value_roundtrip:
  assumes reach: "hs_reach s lim" and P: "hs_proc s p = Some P" and h: "h \<in> set (ph_handles P)"
  shows "(GetHandle_NoLock P v s = Some h \<longleftrightarrow> v = MapHandleToValue P h s) \<and> 0 <s MapHandleToValue P h s"
proof
  have inv: "hs_inv s" using hs_reach_inv [OF reach] by simp
  note t = table_okD [OF hs_invD(2) [OF inv P]]
  show "GetHandle_NoLock P v s = Some h \<longleftrightarrow> v = MapHandleToValue P h s" using GetHandle_iff [OF inv P] h by simp
  show "0 <s MapHandleToValue P h s" using handle_value_positive [OF hs_invD(1) [OF inv] _ t(4)] t(1) h by blast
qed

theorem handle_value_roundtrip_witness:
  "\<exists>s lim P Q h. two_processes s lim P Q h \<and> GetHandle_NoLock P (MapHandleToValue P h s) s = Some h \<and> 0 <s MapHandleToValue P h s"
proof -
  obtain s lim P Q h where t: "two_processes s lim P Q h" using two_processes_ex by blast
  then have "hs_reach s lim" "hs_proc s 7 = Some P" "h \<in> set (ph_handles P)" by (simp_all add: two_processes_def)
  from handle_value_roundtrip [OF this] t show ?thesis by blast
qed



text \<open>
  C28: in every reachable system, a handle one process can name cannot be named by another, and the rights a process has through any value
  are among those the object's first handle was made with: no sequence of duplications and transfers adds a right.
\<close>

theorem handle_isolation_rights:
  assumes reach: "hs_reach s lim" and P: "hs_proc s p = Some P" and v: "GetHandle_NoLock P v s = Some h"
  shows "(\<forall>q Q w. hs_proc s q = Some Q \<and> q \<noteq> p \<longrightarrow> GetHandle_NoLock Q w s \<noteq> Some h) \<and>
    (\<exists>d rights. GetDispatcher p v s = Some (Some (d, rights)) \<and> rights AND lim d = rights)"
proof
  have inv: "hs_inv s" and r: "hs_rights lim s" using hs_reach_inv [OF reach] by simp_all
  note g = GetHandle_SomeD [OF inv P v]
  show "\<forall>q Q w. hs_proc s q = Some Q \<and> q \<noteq> p \<longrightarrow> GetHandle_NoLock Q w s \<noteq> Some h"
    using GetHandle_SomeD(3) [OF inv] g(3) hs_invD(3) [OF inv _ P] by metis
  obtain d where d: "h_dispatcher (hs_mem s h) = Some d" using g(2) by (auto simp: live_handles_def)
  then show "\<exists>d rights. GetDispatcher p v s = Some (Some (d, rights)) \<and> rights AND lim d = rights"
    using P v r by (simp add: GetDispatcher_def hs_rights_def)
qed

theorem handle_isolation_rights_witness:
  "\<exists>s lim P Q h. two_processes s lim P Q h \<and> (\<forall>w. GetHandle_NoLock Q w s \<noteq> Some h) \<and>
     GetDispatcher 7 (MapHandleToValue P h s) s = Some (Some (3, kDefaultEventRights))"
proof -
  obtain s lim P Q h where t: "two_processes s lim P Q h" using two_processes_ex by blast
  then have r: "hs_reach s lim" "hs_proc s 7 = Some P" "hs_proc s 8 = Some Q" "h_dispatcher (hs_mem s h) = Some 3"
    "h_rights (hs_mem s h) = kDefaultEventRights" "h \<in> set (ph_handles P)" by (simp_all add: two_processes_def)
  have inv: "hs_inv s" using hs_reach_inv [OF r(1)] by simp
  have v: "GetHandle_NoLock P (MapHandleToValue P h s) s = Some h" using GetHandle_iff [OF inv r(2)] r(6) by simp
  have "\<forall>w. GetHandle_NoLock Q w s \<noteq> Some h" using handle_isolation_rights [OF r(1,2) v] r(3) by (auto dest: spec [of _ 8])
  moreover have "GetDispatcher 7 (MapHandleToValue P h s) s = Some (Some (3, kDefaultEventRights))"
    using r(2,4,5) v by (simp add: GetDispatcher_def)
  ultimately show ?thesis using t by blast
qed

text \<open>
  C29: closing a value a process holds succeeds, removes exactly that handle and revokes exactly that value: afterwards the value
  is a bad handle, and every other value of the process names the same handle, with the same object and rights, as before.
\<close>

theorem handle_close_revokes:
  assumes reach: "hs_reach s lim" and P: "hs_proc s p = Some P" and v: "GetHandle_NoLock P v s = Some h"
  shows "\<exists>s' P'. sys_handle_close p v s = Some (NO_ERROR, s') \<and> hs_proc s' p = Some P' \<and> GetHandle_NoLock P' v s' = None \<and>
    h \<notin> live_handles s' \<and>
    (\<forall>w k. w \<noteq> v \<longrightarrow> (GetHandle_NoLock P' w s' = Some k \<longleftrightarrow> GetHandle_NoLock P w s = Some k)) \<and> (\<forall>k. k \<noteq> h \<longrightarrow> hs_mem s' k = hs_mem s k)"
proof -
  have inv: "hs_inv s" using hs_reach_inv [OF reach] by simp
  let ?P = "P\<lparr>ph_handles := remove1 h (ph_handles P)\<rparr>"
  obtain s' where s': "sys_handle_close p v s = Some (NO_ERROR, s')" "hs_inv s'" "hs_mem s' = (hs_mem s)(h := zero_handle)"
    "hs_proc s' = (hs_proc s)(p \<mapsto> ?P)"
    using sys_handle_close_ok [OF inv P, of v] v by auto
  have P': "hs_proc s' p = Some ?P" by (simp add: s'(4))
  have d: "distinct (ph_handles P)" using table_okD(2) [OF hs_invD(2) [OF inv P]] .
  have val: "MapHandleToValue ?P k s' = MapHandleToValue P k s" for k
    by (rule value_cong) (use sys_handle_close_start [OF s'(1)] in simp_all)
  note g = GetHandle_iff [OF s'(2) P', unfolded val] and g0 = GetHandle_iff [OF inv P]
  have vh: "v = MapHandleToValue P h s" using v g0 by simp
  have inj: "k = h" if "k \<in> set (ph_handles P)" "v = MapHandleToValue P k s" for k using v g0 [of v k] that by simp
  have "GetHandle_NoLock ?P v s' \<noteq> Some k" for k using g [of v k] inj [of k] d by auto
  then have "GetHandle_NoLock ?P v s' = None" by (cases "GetHandle_NoLock ?P v s'") auto
  moreover have "GetHandle_NoLock ?P w s' = Some k \<longleftrightarrow> GetHandle_NoLock P w s = Some k" if "w \<noteq> v" for w k
    using g [of w k] g0 [of w k] that vh d by auto
  moreover have "h \<notin> live_handles s'" by (simp add: live_handles_def s'(3) zero_handle_def)
  ultimately show ?thesis using s'(1,3) P' by (intro exI [of _ s'] exI [of _ ?P]) simp
qed

theorem handle_close_revokes_witness:
  "\<exists>s lim P Q h s' P'. two_processes s lim P Q h \<and> sys_handle_close 7 (MapHandleToValue P h s) s = Some (NO_ERROR, s') \<and>
     hs_proc s' 7 = Some P' \<and> GetHandle_NoLock P' (MapHandleToValue P h s) s' = None"
proof -
  obtain s lim P Q h where t: "two_processes s lim P Q h" using two_processes_ex by blast
  then have r: "hs_reach s lim" "hs_proc s 7 = Some P" "h \<in> set (ph_handles P)" by (simp_all add: two_processes_def)
  have "hs_inv s" using hs_reach_inv [OF r(1)] by simp
  then have "GetHandle_NoLock P (MapHandleToValue P h s) s = Some h" using GetHandle_iff [of s 7 P] r by simp
  from handle_close_revokes [OF r(1,2) this] t show ?thesis by blast
qed

text \<open>
  C38: the duplicate of a handle is not counted by the object. When an object has one handle, and that handle is duplicated and the
  duplicate closed, the object is told that it has no handles, while the process still holds the first one and can use it.
\<close>

theorem handle_duplicate_not_counted:
  assumes reach: "hs_reach s lim" and P: "hs_proc s p = Some P" and v: "GetHandle_NoLock P v s = Some h"
    and d: "h_dispatcher (hs_mem s h) = Some d" "di_handle_count (hs_disp s d) = 1"
    and dup: "sys_handle_duplicate p v rights s = Some (Inr hv, s1)"
  shows "\<exists>s2. sys_handle_close p hv s1 = Some (NO_ERROR, s2) \<and> (\<exists>cs. hs_calls s2 = hs_calls s1 @ cs \<and> Zero_Handles d \<in> set cs) \<and>
    GetDispatcher p v s2 = Some (Some (d, h_rights (hs_mem s h)))"
proof -
  have inv: "hs_inv s" using hs_reach_inv [OF reach] by simp
  obtain h' new where h': "h' \<notin> live_handles s" "hv = MapHandleToValue P h' s1" "hs_inv s1"
    "hs_proc s1 = (hs_proc s)(p \<mapsto> P\<lparr>ph_handles := h' # ph_handles P\<rparr>)"
    "hs_mem s1 = (hs_mem s)(h' := \<lparr>h_process_id = ph_koid P, h_rights = new, h_dispatcher = Some d\<rparr>)"
    using sys_handle_duplicate_ok [OF inv P, of v rights] dup v d(1) by auto
  let ?P1 = "P\<lparr>ph_handles := h' # ph_handles P\<rparr>"
  note g = GetHandle_SomeD [OF inv P v] and sh = sys_handle_duplicate_shape [OF dup]
  have hh: "h' \<noteq> h" using h'(1) g(2) by auto
  have P1: "hs_proc s1 p = Some ?P1" by (simp add: h'(4))
  have "GetHandle_NoLock ?P1 hv s1 = Some h'" using GetHandle_iff [OF h'(3) P1] h'(2) by (simp add: value_cong [of s1 s1 ?P1 P])
  moreover from this obtain s2 where s2: "sys_handle_close p hv s1 = Some (NO_ERROR, s2)" "hs_inv s2" "hs_mem s2 = (hs_mem s1)(h' := zero_handle)"
    "hs_proc s2 = (hs_proc s1)(p \<mapsto> ?P1\<lparr>ph_handles := remove1 h' (ph_handles ?P1)\<rparr>)"
    using sys_handle_close_ok [OF h'(3) P1, of hv] by auto
  ultimately obtain s3 where s3: "RemoveHandle p hv s1 = Some (Some h', s3)" "DeleteHandle h' s3 = Some s2"
    "hs_mem s3 = hs_mem (with_pid h' 0 s1)"
    using RemoveHandle_ok [OF h'(3) P1, of hv] by (auto simp: sys_handle_close_def split: bind_splits)
  have "di_handle_count (hs_disp s3 d) = 1" using d(2) sh(2) RemoveHandle_shape(3) [OF s3(1)] by simp
  moreover obtain c where "hs_calls (cancel_or_close d h' s3) = hs_calls s3 @ c" using cancel_or_close_calls by blast
  ultimately have "\<exists>cs. hs_calls s2 = hs_calls s1 @ cs \<and> Zero_Handles d \<in> set cs"
    using DeleteHandle_shape(2) [OF s3(2)] h'(5) RemoveHandle_shape(2) [OF s3(1)] by (auto simp: s3(3) remove_handle_def note_call_def)
  moreover have "GetDispatcher p v s2 = Some (Some (d, h_rights (hs_mem s h)))"
  proof -
    have P2: "hs_proc s2 p = Some (?P1\<lparr>ph_handles := ph_handles P\<rparr>)" by (simp add: s2(4))
    have "MapHandleToValue (?P1\<lparr>ph_handles := ph_handles P\<rparr>) h s2 = v"
      using g(4) sh(1) sys_handle_close_start [OF s2(1)] by (simp add: value_cong [of s2 s _ P])
    then have "GetHandle_NoLock (?P1\<lparr>ph_handles := ph_handles P\<rparr>) v s2 = Some h" using GetHandle_iff [OF s2(2) P2] g(1) by simp
    then show ?thesis using P2 d(1) hh by (simp add: GetDispatcher_def s2(3) h'(5))
  qed
  ultimately show ?thesis using s2(1) by blast
qed

theorem handle_duplicate_not_counted_witness:
  "\<exists>s lim P Q h hv s1 s2. two_processes s lim P Q h \<and>
     sys_handle_duplicate 7 (MapHandleToValue P h s) MX_RIGHT_SAME_RIGHTS s = Some (Inr hv, s1) \<and>
     sys_handle_close 7 hv s1 = Some (NO_ERROR, s2) \<and> Zero_Handles 3 \<in> set (hs_calls s2) \<and>
     GetDispatcher 7 (MapHandleToValue P h s) s2 = Some (Some (3, kDefaultEventRights))"
proof -
  obtain s lim P Q h where t: "two_processes s lim P Q h" using two_processes_ex by blast
  then have r: "hs_reach s lim" "hs_proc s 7 = Some P" "h \<in> set (ph_handles P)" "h_dispatcher (hs_mem s h) = Some 3"
    "di_handle_count (hs_disp s 3) = 1" "h_rights (hs_mem s h) = kDefaultEventRights" by (simp_all add: two_processes_def)
  have v: "GetHandle_NoLock P (MapHandleToValue P h s) s = Some h"
    using GetHandle_iff [of s 7 P] hs_reach_inv [OF r(1)] r by simp
  obtain hv s1 where dup: "sys_handle_duplicate 7 (MapHandleToValue P h s) MX_RIGHT_SAME_RIGHTS s = Some (Inr hv, s1)"
    using duplicate_succeeds [OF t] by blast
  from handle_duplicate_not_counted [OF r(1,2) v r(4,5) dup] t dup r(6) show ?thesis by fastforce
qed

text \<open>
  Between the two critical sections of a duplication the new handle already carries the id of its process and is not yet in
  the table. Another thread of the process that closes the value of the new handle at that moment (for instance a stale value, since the
  arena hands out the slot freed last) finds the handle, and taking it out of the table fails an assertion of the kernel.
\<close>

lemma handle_duplicate_race_panics:
  assumes reach: "hs_reach s lim" and P: "hs_proc s p = Some P"
    and dup: "handle_duplicate_make p v rights s = Some (Inr h, s1)"
  shows "GetHandle_NoLock P (MapHandleToValue P h s1) s1 = Some h \<and> h \<notin> set (ph_handles P) \<and>
    sys_handle_close p (MapHandleToValue P h s1) s1 = None"
proof -
  have inv: "hs_inv s" using hs_reach_inv [OF reach] by simp
  have m: "hs_inv (with_pid h 0 s1)" "h \<notin> live_handles s" "live_handles s1 = insert h (live_handles s)" "hs_proc s1 = hs_proc s"
    "h_process_id (hs_mem s1 h) = ph_koid P"
    using handle_duplicate_make_ok [OF inv P, of v rights] dup by auto
  have "arena_inv s1" using hs_invD(1) [OF m(1)] m(3) by (auto simp: arena_inv_def with_pid_def split: if_splits)
  then have g: "GetHandle_NoLock P (MapHandleToValue P h s1) s1 = Some h" using GetHandle_value [of s1 h P] m(3,5) by simp
  have nin: "h \<notin> set (ph_handles P)" using m(2) table_okD(1) [OF hs_invD(2) [OF inv P]] by blast
  then have "RemoveHandle p (MapHandleToValue P h s1) s1 = None" using g P m(4) by (simp add: RemoveHandle_def)
  then show ?thesis using g nin by (simp add: sys_handle_close_def)
qed

lemma handle_duplicate_race_panics_witness:
  "\<exists>s lim P Q h h1 s1. two_processes s lim P Q h \<and>
     handle_duplicate_make 7 (MapHandleToValue P h s) MX_RIGHT_SAME_RIGHTS s = Some (Inr h1, s1) \<and>
     sys_handle_close 7 (MapHandleToValue P h1 s1) s1 = None"
proof -
  obtain s lim P Q h where t: "two_processes s lim P Q h" using two_processes_ex by blast
  then have r: "hs_reach s lim" "hs_proc s 7 = Some P" by (simp_all add: two_processes_def)
  obtain hv s2 where "sys_handle_duplicate 7 (MapHandleToValue P h s) MX_RIGHT_SAME_RIGHTS s = Some (Inr hv, s2)"
    using duplicate_succeeds [OF t] by blast
  then obtain h1 s1 where dup: "handle_duplicate_make 7 (MapHandleToValue P h s) MX_RIGHT_SAME_RIGHTS s = Some (Inr h1, s1)"
    by (auto simp: sys_handle_duplicate_def split: bind_splits sum.splits)
  from handle_duplicate_race_panics [OF r dup] t dup show ?thesis by blast
qed

end
