(* ===== verification/Msg_Syscalls.thy ===== *)
theory Msg_Syscalls
  imports Msg_Pipe Handle_Reach
begin

unbundle bit_operations_syntax

text \<open>
  The system calls that move messages, and with them handles, between processes: \<^verbatim>\<open>sys_message_write\<close>, \<^verbatim>\<open>sys_message_read\<close> and
  \<^verbatim>\<open>sys_message_pipe_create\<close> of \<^verbatim>\<open>kernel/lib/syscalls/syscalls_magenta.cpp\<close>, on top of the handle table and the message pipes. What a copy
  from user memory gives and whether a copy to it succeeds are arguments.
\<close>

section \<open>State\<close>

text \<open>The dispatcher of a side of a pipe is found by its address, with the pipe it belongs to.\<close>

record ('o, 'w) msg_state =
  ms_hs :: handle_system
  ms_side :: "nat \<Rightarrow> (nat \<times> msg_pipe_dispatcher) option"
  ms_pipe :: "nat \<Rightarrow> 'o msg_pipe"
  ms_world :: 'w

definition kMaxMessageSize :: nat where "kMaxMessageSize = 65536"

definition kMaxMessageHandles :: nat where "kMaxMessageHandles = 1024"

definition is_reply_pipe :: "msg_pipe_dispatcher \<Rightarrow> bool" where
  "is_reply_pipe md \<longleftrightarrow> md_flags md AND MX_FLAG_REPLY_PIPE \<noteq> 0"

section \<open>Writing\<close>

text \<open>The arguments of a write: which pointers are null, the sizes, and what is copied in from user memory.\<close>

record write_args =
  wa_bytes_ptr :: bool
  wa_num_bytes :: nat
  wa_bytes :: "status + u8 list"
  wa_handles_ptr :: bool
  wa_num_handles :: nat
  wa_handles :: "status + u32 list"
  wa_list_alloc :: bool
  wa_packet_alloc :: bool

definition copy_from_user_dynamic :: "nat \<Rightarrow> nat \<Rightarrow> status + 'a list \<Rightarrow> status + 'a list" where
  "copy_from_user_dynamic len max_len r = (if len > max_len then Inl ERR_INVALID_ARGS else r)"

text \<open>The other copy reports every failure but that of its allocation as an invalid argument.\<close>

definition magenta_copy_user_dynamic :: "nat \<Rightarrow> nat \<Rightarrow> status + 'a list \<Rightarrow> status + 'a list" where
  "magenta_copy_user_dynamic len max_len r =
     (if len > max_len then Inl ERR_INVALID_ARGS
      else case r of Inl st \<Rightarrow> Inl (if st = ERR_NO_MEMORY then ERR_NO_MEMORY else ERR_INVALID_ARGS) | Inr buf \<Rightarrow> Inr buf)"

definition message_write_args :: "write_args \<Rightarrow> status + (u8 list \<times> u32 list)" where
  "message_write_args a =
     (if wa_num_bytes a \<noteq> 0 \<and> \<not> wa_bytes_ptr a then Inl ERR_INVALID_ARGS
      else if wa_num_handles a \<noteq> 0 \<and> \<not> wa_handles_ptr a then Inl ERR_INVALID_ARGS
      else if wa_num_bytes a > kMaxMessageSize then Inl ERR_TOO_BIG
      else if wa_num_handles a > kMaxMessageHandles then Inl ERR_TOO_BIG
      else case (if wa_num_bytes a \<noteq> 0 then magenta_copy_user_dynamic (wa_num_bytes a) kMaxMessageSize (wa_bytes a) else Inr []) of
             Inl st \<Rightarrow> Inl st
           | Inr bytes \<Rightarrow>
               (case (if wa_num_handles a \<noteq> 0
                      then copy_from_user_dynamic (wa_num_handles a * 4) kMaxMessageHandles (wa_handles a) else Inr []) of
                  Inl st \<Rightarrow> Inl st
                | Inr handles \<Rightarrow> if \<not> wa_list_alloc a then Inl ERR_NO_MEMORY else Inr (bytes, handles)))"

text \<open>
  The first loop over the handles. The error None is a bad handle; the result is the handles and the index at which the pipe itself was
  found last.
\<close>

fun collect_handles ::
  "process_handles \<Rightarrow> bool \<Rightarrow> nat \<Rightarrow> handle_system \<Rightarrow> u32 list \<Rightarrow> nat \<Rightarrow> nat option \<Rightarrow> status option + (nat list \<times> nat option)" where
  "collect_handles P is_reply d s [] ix found = Inr ([], found)"
| "collect_handles P is_reply d s (v # vs) ix found =
     (case GetHandle_NoLock P v s of
        None \<Rightarrow> Inl None
      | Some h \<Rightarrow>
          if h_dispatcher (hs_mem s h) = Some d \<and> \<not> is_reply then Inl (Some ERR_NOT_SUPPORTED)
          else if \<not> magenta_rights_check (h_rights (hs_mem s h)) MX_RIGHT_TRANSFER then Inl (Some ERR_ACCESS_DENIED)
          else case collect_handles P is_reply d s vs (ix + 1) (if h_dispatcher (hs_mem s h) = Some d then Some ix else found) of
                 Inl e \<Rightarrow> Inl e
               | Inr (hs, f) \<Rightarrow> Inr (h # hs, f))"

fun undo_handles :: "nat \<Rightarrow> u32 list \<Rightarrow> handle_system \<Rightarrow> handle_system option" where
  "undo_handles p [] s = Some s"
| "undo_handles p (v # vs) s = do { s \<leftarrow> UndoRemoveHandle p v s; undo_handles p vs s }"

text \<open>The second loop: the handles leave the table, and go back when one of them is not there any more.\<close>

fun remove_handles :: "nat \<Rightarrow> u32 list \<Rightarrow> u32 list \<Rightarrow> handle_system \<Rightarrow> (bool \<times> handle_system) option" where
  "remove_handles p [] seen s = Some (True, s)"
| "remove_handles p (v # vs) seen s = do {
     (r, s) \<leftarrow> RemoveHandle p v s;
     case r of
       None \<Rightarrow> do { s \<leftarrow> undo_handles p seen s; Some (False, s) }
     | Some h \<Rightarrow> remove_handles p vs (seen @ [v]) s
   }"

definition message_write_take ::
  "nat \<Rightarrow> nat \<Rightarrow> bool \<Rightarrow> u32 list \<Rightarrow> handle_system \<Rightarrow> ((status + nat list) \<times> handle_system) option" where
  "message_write_take p d is_reply handles s = do {
     P \<leftarrow> hs_proc s p;
     case collect_handles P is_reply d s handles 0 None of
       Inl None \<Rightarrow> do { (st, s) \<leftarrow> BadHandle p s; Some (Inl st, s) }
     | Inl (Some st) \<Rightarrow> Some (Inl st, s)
     | Inr (hs, found) \<Rightarrow>
         if is_reply \<and> (handles = [] \<or> found \<noteq> Some (length handles - 1)) then Some (Inl ERR_BAD_STATE, s)
         else do {
           (ok, s) \<leftarrow> remove_handles p handles [] s;
           Some (if ok then Inr hs else Inl ERR_INVALID_ARGS, s)
         }
   }"

definition sys_message_write ::
  "('o, 'w) observer_ops \<Rightarrow> nat \<Rightarrow> u32 \<Rightarrow> write_args \<Rightarrow> ('o, 'w) msg_state \<Rightarrow> (status \<times> ('o, 'w) msg_state) option" where
  "sys_message_write ops p v a s = do {
     r \<leftarrow> GetDispatcher p v (ms_hs s);
     case r of
       None \<Rightarrow> do { (st, hs) \<leftarrow> BadHandle p (ms_hs s); Some (st, s\<lparr>ms_hs := hs\<rparr>) }
     | Some (d, rights) \<Rightarrow>
         (case ms_side s d of
            None \<Rightarrow> Some (ERR_WRONG_TYPE, s)
          | Some (pipe, md) \<Rightarrow>
              if \<not> magenta_rights_check rights MX_RIGHT_WRITE then Some (ERR_ACCESS_DENIED, s)
              else (case message_write_args a of
                 Inl st \<Rightarrow> Some (st, s)
               | Inr (bytes, handles) \<Rightarrow> do {
                   (taken, hs) \<leftarrow> message_write_take p d (is_reply_pipe md) handles (ms_hs s);
                   case taken of
                     Inl st \<Rightarrow> Some (st, s\<lparr>ms_hs := hs\<rparr>)
                   | Inr handle_list \<Rightarrow> do {
                       (result, q, w) \<leftarrow> MessagePipeDispatcher_Write ops (wa_packet_alloc a) md bytes handle_list (ms_pipe s pipe) (ms_world s);
                       hs \<leftarrow> (if result \<noteq> NO_ERROR then undo_handles p handles hs else Some hs);
                       Some (result, s\<lparr>ms_hs := hs, ms_pipe := (ms_pipe s)(pipe := q), ms_world := w\<rparr>)
                     }
                 }))
   }"

section \<open>Reading\<close>

text \<open>
  The arguments of a read. \<open>ra_heap\<close> is the kernel memory that follows the message's bytes, which the copy to the user reaches when
  the caller's buffer is larger than the message.
\<close>

record read_args =
  ra_bytes_ptr :: bool
  ra_num_bytes_ptr :: bool
  ra_num_bytes :: "nat option"
  ra_handles_ptr :: bool
  ra_num_handles_ptr :: bool
  ra_num_handles :: "nat option"
  ra_alloc :: bool
  ra_sizes_copy :: bool
  ra_bytes_copy :: bool
  ra_handle_copy :: "nat \<Rightarrow> bool"
  ra_heap :: "u8 list"

definition message_read_args :: "read_args \<Rightarrow> status + (nat \<times> nat)" where
  "message_read_args a =
     (case (if ra_num_bytes_ptr a then ra_num_bytes a else Some 0) of
        None \<Rightarrow> Inl ERR_INVALID_ARGS
      | Some num_bytes \<Rightarrow>
          (case (if ra_num_handles_ptr a then ra_num_handles a else Some 0) of
             None \<Rightarrow> Inl ERR_INVALID_ARGS
           | Some num_handles \<Rightarrow>
               if ra_bytes_ptr a \<and> \<not> ra_num_bytes_ptr a then Inl ERR_INVALID_ARGS
               else if ra_handles_ptr a \<and> \<not> ra_num_handles_ptr a then Inl ERR_INVALID_ARGS
               else if num_handles \<noteq> 0 \<and> \<not> ra_alloc a then Inl ERR_NO_MEMORY
               else Inr (num_bytes, num_handles)))"

text \<open>
  Copying \<open>n\<close> bytes from the array of the message's bytes, which is null when there is no message. The copy fails when user memory faults,
  and also when the kernel memory read does: a fault on either side ends it.
\<close>

definition copy_message_bytes :: "nat \<Rightarrow> u8 list option \<Rightarrow> read_args \<Rightarrow> u8 list option" where
  "copy_message_bytes n bytes a =
     (if \<not> ra_bytes_copy a then None
      else if n = 0 then Some []
      else case bytes of
             None \<Rightarrow> None
           | Some bs \<Rightarrow> if n \<le> length (bs @ ra_heap a) then Some (take n (bs @ ra_heap a)) else None)"

text \<open>The values stored in user memory, up to the first that faults, and whether all were.\<close>

fun copy_handle_values :: "(nat \<Rightarrow> bool) \<Rightarrow> nat \<Rightarrow> u32 list \<Rightarrow> bool \<times> u32 list" where
  "copy_handle_values ok ix [] = (True, [])"
| "copy_handle_values ok ix (v # vs) =
     (if \<not> ok ix then (False, []) else let (b, ws) = copy_handle_values ok (ix + 1) vs in (b, v # ws))"

fun receive_handles :: "nat \<Rightarrow> nat list \<Rightarrow> handle_system \<Rightarrow> handle_system option" where
  "receive_handles p [] s = Some s"
| "receive_handles p (h # hs) s = do {
     d \<leftarrow> h_dispatcher (hs_mem s h);
     s \<leftarrow> AddHandle p h (if di_has_tracker (hs_disp s d) then note_call (Cancelled d h) s else s);
     receive_handles p hs s
   }"

text \<open>
  The part of a read after the sizes were found to fit: the message is accepted and copied out. Another reader may have accepted it in the
  meantime. The result is the status, the bytes and the handle values stored in user memory.
\<close>

definition message_read_accept ::
  "nat \<Rightarrow> nat \<Rightarrow> nat \<Rightarrow> nat \<Rightarrow> read_args \<Rightarrow> ('o, 'w) msg_state \<Rightarrow> ((status \<times> u8 list \<times> u32 list) \<times> ('o, 'w) msg_state) option" where
  "message_read_accept p d num_bytes next_num_handles a s = do {
     P \<leftarrow> hs_proc (ms_hs s) p;
     (pipe, md) \<leftarrow> ms_side s d;
     let ((result, msg), md) = AcceptRead md;
     let s = s\<lparr>ms_side := (ms_side s)(d \<mapsto> (pipe, md))\<rparr>;
     case (if ra_bytes_ptr a then copy_message_bytes num_bytes (map_option fst msg) a else Some []) of
       None \<Rightarrow> Some ((ERR_INVALID_ARGS, [], []), s)
     | Some user_bytes \<Rightarrow> do {
         handle_list \<leftarrow> (if next_num_handles \<noteq> 0 then map_option snd msg else Some []);
         let (ok, hvs) = copy_handle_values (ra_handle_copy a) 0 (map (\<lambda>h. MapHandleToValue P h (ms_hs s)) handle_list);
         if \<not> ok then Some ((ERR_INVALID_ARGS, user_bytes, hvs), s)
         else do {
           hs \<leftarrow> receive_handles p handle_list (ms_hs s);
           Some ((result, user_bytes, hvs), s\<lparr>ms_hs := hs\<rparr>)
         }
       }
   }"

definition sys_message_read ::
  "('o, 'w) observer_ops \<Rightarrow> nat \<Rightarrow> u32 \<Rightarrow> read_args \<Rightarrow> ('o, 'w) msg_state \<Rightarrow>
   ((status \<times> u8 list \<times> u32 list) \<times> ('o, 'w) msg_state) option" where
  "sys_message_read ops p v a s = do {
     r \<leftarrow> GetDispatcher p v (ms_hs s);
     case r of
       None \<Rightarrow> do { (st, hs) \<leftarrow> BadHandle p (ms_hs s); Some ((st, [], []), s\<lparr>ms_hs := hs\<rparr>) }
     | Some (d, rights) \<Rightarrow>
         (case ms_side s d of
            None \<Rightarrow> Some ((ERR_WRONG_TYPE, [], []), s)
          | Some (pipe, md) \<Rightarrow>
              if \<not> magenta_rights_check rights MX_RIGHT_READ then Some ((ERR_ACCESS_DENIED, [], []), s)
              else (case message_read_args a of
                 Inl st \<Rightarrow> Some ((st, [], []), s)
               | Inr (num_bytes, num_handles) \<Rightarrow> do {
                   ((result, next_size, next_num), md, q, w) \<leftarrow> BeginRead ops md (ms_pipe s pipe) (ms_world s);
                   let s = s\<lparr>ms_side := (ms_side s)(d \<mapsto> (pipe, md)), ms_pipe := (ms_pipe s)(pipe := q), ms_world := w\<rparr>;
                   if result \<noteq> NO_ERROR then Some ((result, [], []), s)
                   else if (ra_num_bytes_ptr a \<or> ra_num_handles_ptr a) \<and> \<not> ra_sizes_copy a then Some ((ERR_INVALID_ARGS, [], []), s)
                   else if num_bytes < unat next_size \<or> num_handles < unat next_num then Some ((ERR_NOT_ENOUGH_BUFFER, [], []), s)
                   else message_read_accept p d num_bytes (unat next_num) a s
                 }))
   }"

section \<open>Creating a pipe\<close>

text \<open>
  The two dispatchers get the fresh addresses \<open>d0\<close> and \<open>d1\<close>. A handle that was made and is not given out is deleted by its
  owning pointer.
\<close>

definition sys_message_pipe_create ::
  "bool \<Rightarrow> u32 \<Rightarrow> bool \<Rightarrow> bool \<Rightarrow> nat \<Rightarrow> nat \<Rightarrow> nat \<Rightarrow> nat \<Rightarrow> ('o, 'w) msg_state \<Rightarrow>
   ((status \<times> u32 list) \<times> ('o, 'w) msg_state) option" where
  "sys_message_pipe_create out_ptr flags alloc_ok copy_ok pipe d0 d1 p s =
     (if \<not> out_ptr then Some ((ERR_INVALID_ARGS, []), s)
      else if flags \<noteq> 0 \<and> flags \<noteq> MX_FLAG_REPLY_PIPE then Some ((ERR_INVALID_ARGS, []), s)
      else do {
        let (koid, hs) = GenerateKernelObjectId (ms_hs s);
        case MessagePipeDispatcher_Create flags alloc_ok koid of
          Inl st \<Rightarrow> Some ((st, []), s\<lparr>ms_hs := hs\<rparr>)
        | Inr (q, md0, md1, rights) \<Rightarrow> do {
            let hs = Dispatcher_new d1 MX_OBJ_TYPE_MESSAGE_PIPE True (Dispatcher_new d0 MX_OBJ_TYPE_MESSAGE_PIPE True hs);
            let s = s\<lparr>ms_side := (ms_side s)(d0 \<mapsto> (pipe, md0), d1 \<mapsto> (pipe, md1)), ms_pipe := (ms_pipe s)(pipe := q)\<rparr>;
            (r0, hs) \<leftarrow> MakeHandle d0 rights hs;
            case r0 of
              None \<Rightarrow> Some ((ERR_NO_MEMORY, []), s\<lparr>ms_hs := hs\<rparr>)
            | Some h0 \<Rightarrow> do {
                (r1, hs) \<leftarrow> MakeHandle d1 rights hs;
                case r1 of
                  None \<Rightarrow> do { hs \<leftarrow> DeleteHandle h0 hs; Some ((ERR_NO_MEMORY, []), s\<lparr>ms_hs := hs\<rparr>) }
                | Some h1 \<Rightarrow> do {
                    P \<leftarrow> hs_proc hs p;
                    let hv = [MapHandleToValue P h0 hs, MapHandleToValue P h1 hs];
                    if \<not> copy_ok
                    then do { hs \<leftarrow> DeleteHandle h1 hs; hs \<leftarrow> DeleteHandle h0 hs; Some ((ERR_INVALID_ARGS, []), s\<lparr>ms_hs := hs\<rparr>) }
                    else do { hs \<leftarrow> AddHandle p h0 hs; hs \<leftarrow> AddHandle p h1 hs; Some ((NO_ERROR, hv), s\<lparr>ms_hs := hs\<rparr>) }
                  }
              }
          }
      })"

section \<open>Taking handles out of a table and putting them back\<close>

text \<open>The system after the handles of \<open>S\<close> were taken out of the table of \<open>p\<close>.\<close>

definition table_minus :: "nat \<Rightarrow> process_handles \<Rightarrow> nat set \<Rightarrow> handle_system \<Rightarrow> handle_system \<Rightarrow> bool" where
  "table_minus p P S s s' \<longleftrightarrow> hs_inv s' \<and> hs_arena s' = hs_arena s \<and> hs_disp s' = hs_disp s \<and> hs_calls s' = hs_calls s \<and> S \<subseteq> set (ph_handles P) \<and>
     (\<exists>l. set l = set (ph_handles P) - S \<and> hs_proc s' = (hs_proc s)(p \<mapsto> P\<lparr>ph_handles := l\<rparr>)) \<and>
     hs_mem s' = (\<lambda>h. if h \<in> S then (hs_mem s h)\<lparr>h_process_id := 0\<rparr> else hs_mem s h)"

lemma table_minus_refl: "hs_inv s \<Longrightarrow> hs_proc s p = Some P \<Longrightarrow> table_minus p P {} s s"
  by (auto simp: table_minus_def fun_upd_idem intro!: exI [of _ "ph_handles P"])

lemma table_minus_live: "table_minus p P S s s' \<Longrightarrow> live_handles s' = live_handles s"
  by (auto simp: table_minus_def live_handles_def split: if_splits)

lemma table_minus_value: "table_minus p P S s s' \<Longrightarrow> ph_handle_rand P' = ph_handle_rand P \<Longrightarrow> MapHandleToValue P' h s' = MapHandleToValue P h s"
  by (rule value_cong) (simp_all add: table_minus_def)

lemma table_minus_remove:
  assumes inv: "hs_inv s" and P: "hs_proc s p = Some P" and t: "table_minus p P S s s1" and v: "GetHandle_NoLock P v s = Some h"
  shows "h \<in> S \<Longrightarrow> RemoveHandle p v s1 = Some (None, s1)"
    and "h \<notin> S \<Longrightarrow> \<exists>s2. RemoveHandle p v s1 = Some (Some h, s2) \<and> table_minus p P (insert h S) s s2"
proof -
  note g = GetHandle_SomeD [OF inv P v]
  obtain l where l: "set l = set (ph_handles P) - S" "hs_proc s1 = (hs_proc s)(p \<mapsto> P\<lparr>ph_handles := l\<rparr>)"
    and inv1: "hs_inv s1" and mem1: "hs_mem s1 = (\<lambda>h. if h \<in> S then (hs_mem s h)\<lparr>h_process_id := 0\<rparr> else hs_mem s h)"
    using t by (auto simp: table_minus_def)
  let ?P = "P\<lparr>ph_handles := l\<rparr>"
  have P1: "hs_proc s1 p = Some ?P" by (simp add: l(2))
  have val: "MapHandleToValue ?P k s1 = MapHandleToValue P k s" for k by (rule table_minus_value [OF t]) simp
  note gi = GetHandle_iff [OF inv1 P1, unfolded val]
  have uq: "k = h" if "k \<in> set (ph_handles P)" "v = MapHandleToValue P k s" for k
    using GetHandle_iff [OF inv P, of v k] v that by simp
  { assume "h \<in> S"
    then have "GetHandle_NoLock ?P v s1 \<noteq> Some k" for k using gi [of v k] uq [of k] l(1) by auto
    then have "GetHandle_NoLock ?P v s1 = None" by (cases "GetHandle_NoLock ?P v s1") auto
    then show "RemoveHandle p v s1 = Some (None, s1)" using P1 by (simp add: RemoveHandle_def) }
  { assume h: "h \<notin> S"
    then have "GetHandle_NoLock ?P v s1 = Some h" using gi [of v h] g(1,4) l(1) by simp
    then obtain s2 where s2: "RemoveHandle p v s1 = Some (Some h, s2)" "hs_inv s2" "hs_mem s2 = hs_mem (with_pid h 0 s1)"
      "hs_disp s2 = hs_disp s1" "hs_calls s2 = hs_calls s1" "hs_arena s2 = hs_arena s1"
      "hs_proc s2 = (hs_proc s1)(p \<mapsto> ?P\<lparr>ph_handles := remove1 h l\<rparr>)"
      using RemoveHandle_ok [OF inv1 P1, of v] by auto
    have "distinct l" using table_okD(2) [OF hs_invD(2) [OF inv1 P1]] by simp
    then have "set (remove1 h l) = set (ph_handles P) - insert h S" using l(1) by auto
    moreover have "hs_mem s2 = (\<lambda>k. if k \<in> insert h S then (hs_mem s k)\<lparr>h_process_id := 0\<rparr> else hs_mem s k)"
      using h by (auto simp: s2(3) with_pid_def mem1 fun_eq_iff)
    ultimately have "table_minus p P (insert h S) s s2"
      using t s2 g(1) l(2) unfolding table_minus_def by (auto intro!: exI [of _ "remove1 h l"])
    then show "\<exists>s2. RemoveHandle p v s1 = Some (Some h, s2) \<and> table_minus p P (insert h S) s s2" using s2(1) by blast }
qed

lemma table_minus_undo:
  assumes inv: "hs_inv s" and P: "hs_proc s p = Some P" and t: "table_minus p P (insert h S) s s1" and h: "h \<notin> S"
    and v: "GetHandle_NoLock P v s = Some h"
  shows "\<exists>s2. UndoRemoveHandle p v s1 = Some s2 \<and> table_minus p P S s s2"
proof -
  note g = GetHandle_SomeD [OF inv P v]
  obtain l where l: "set l = set (ph_handles P) - insert h S" "hs_proc s1 = (hs_proc s)(p \<mapsto> P\<lparr>ph_handles := l\<rparr>)"
    and inv1: "hs_inv s1" and ar: "hs_arena s1 = hs_arena s"
    and mem1: "hs_mem s1 = (\<lambda>k. if k \<in> insert h S then (hs_mem s k)\<lparr>h_process_id := 0\<rparr> else hs_mem s k)"
    using t by (auto simp: table_minus_def)
  let ?P = "P\<lparr>ph_handles := l\<rparr>"
  have P1: "hs_proc s1 p = Some ?P" by (simp add: l(2))
  have live: "h \<in> live_handles s1" using table_minus_live [OF t] g(2) by simp
  have "with_pid h 0 s1 = s1" by (simp add: with_pid_def mem1 fun_upd_idem)
  then obtain s2 where s2: "AddHandle p h s1 = Some s2" "hs_inv s2" "hs_disp s2 = hs_disp s1" "hs_calls s2 = hs_calls s1" "hs_arena s2 = hs_arena s1"
    "hs_proc s2 = (hs_proc s1)(p \<mapsto> ?P\<lparr>ph_handles := h # l\<rparr>)" "hs_mem s2 = hs_mem (with_pid h (ph_koid P) s1)"
    using AddHandle_ok [of h s1 p ?P] inv1 P1 live by auto
  have "v = MapHandleToValue P h s1" using g(4) ar by (simp add: MapHandleToValue_def MapHandleToU32_def)
  then have "MapU32ToHandle ((v XOR ph_handle_rand P) - 1) s1 = Some h"
    by (simp add: MapHandleToValue_def value_index MapU32ToHandle_live [OF hs_invD(1) [OF inv1] live])
  then have u: "UndoRemoveHandle p v s1 = Some s2" using P1 s2(1) by (simp add: UndoRemoveHandle_def)
  have "set (h # l) = set (ph_handles P) - S" using l(1) h g(1) by auto
  moreover have "hs_mem s2 = (\<lambda>k. if k \<in> S then (hs_mem s k)\<lparr>h_process_id := 0\<rparr> else hs_mem s k)"
    using h g(3) by (auto simp: s2(7) with_pid_def mem1 fun_eq_iff)
  ultimately have "table_minus p P S s s2"
    using t s2 l(2) unfolding table_minus_def by (auto intro!: exI [of _ "h # l"])
  then show ?thesis using u by blast
qed

lemma undo_handles_ok:
  assumes "hs_inv s" "hs_proc s p = Some P" "list_all2 (\<lambda>v h. GetHandle_NoLock P v s = Some h) vs hs" "distinct hs" "set hs \<inter> S = {}"
    "table_minus p P (set hs \<union> S) s s1"
  shows "\<exists>s2. undo_handles p vs s1 = Some s2 \<and> table_minus p P S s s2"
  using assms(3-6)
proof (induction vs arbitrary: hs s1)
  case (Cons v vs)
  then obtain h hs' where hs: "hs = h # hs'" "GetHandle_NoLock P v s = Some h" "list_all2 (\<lambda>v h. GetHandle_NoLock P v s = Some h) vs hs'"
    by (auto simp: list_all2_Cons1)
  have "table_minus p P (insert h (set hs' \<union> S)) s s1" using Cons.prems(4) hs(1) by simp
  moreover have "h \<notin> set hs' \<union> S" using Cons.prems(2,3) hs(1) by auto
  ultimately obtain s2 where "UndoRemoveHandle p v s1 = Some s2" "table_minus p P (set hs' \<union> S) s s2"
    using table_minus_undo [OF assms(1,2) _ _ hs(2)] by blast
  then show ?case using Cons.IH [OF hs(3), of s2] Cons.prems(2,3) hs(1) by auto
qed simp

lemma remove_handles_ok:
  assumes "hs_inv s" "hs_proc s p = Some P" "list_all2 (\<lambda>v h. GetHandle_NoLock P v s = Some h) vs hs"
    "list_all2 (\<lambda>v h. GetHandle_NoLock P v s = Some h) seen ss" "distinct ss" "table_minus p P (set ss) s s1"
  shows "\<exists>s2. remove_handles p vs seen s1 = Some (distinct (ss @ hs), s2) \<and>
    table_minus p P (if distinct (ss @ hs) then set (ss @ hs) else {}) s s2"
  using assms(3-6)
proof (induction vs arbitrary: hs seen ss s1)
  case Nil
  then show ?case by auto
next
  case (Cons v vs)
  then obtain h hs' where hs: "hs = h # hs'" "GetHandle_NoLock P v s = Some h" "list_all2 (\<lambda>v h. GetHandle_NoLock P v s = Some h) vs hs'"
    by (auto simp: list_all2_Cons1)
  show ?case
  proof (cases "h \<in> set ss")
    case True
    then have "RemoveHandle p v s1 = Some (None, s1)" using table_minus_remove(1) [OF assms(1,2) Cons.prems(4) hs(2)] by simp
    moreover obtain s2 where "undo_handles p seen s1 = Some s2" "table_minus p P {} s s2"
      using undo_handles_ok [OF assms(1,2) Cons.prems(2,3), of "{}" s1] Cons.prems(4) by auto
    ultimately show ?thesis using True hs(1) by auto
  next
    case False
    then obtain s2 where s2: "RemoveHandle p v s1 = Some (Some h, s2)" "table_minus p P (insert h (set ss)) s s2"
      using table_minus_remove(2) [OF assms(1,2) Cons.prems(4) hs(2)] by blast
    have "list_all2 (\<lambda>v h. GetHandle_NoLock P v s = Some h) (seen @ [v]) (ss @ [h])"
      using Cons.prems(2) hs(2) by (simp add: list_all2_appendI)
    moreover have "distinct (ss @ [h])" using Cons.prems(3) False by simp
    ultimately obtain s3 where "remove_handles p vs (seen @ [v]) s2 = Some (distinct (ss @ hs), s3)"
      "table_minus p P (if distinct (ss @ hs) then set (ss @ hs) else {}) s s3"
      using Cons.IH [OF hs(3), of "seen @ [v]" "ss @ [h]" s2, unfolded append_assoc append_Cons append_Nil, folded hs(1)] s2(2) by auto
    then show ?thesis using s2(1) by (intro exI [of _ s3]) simp
  qed
qed

lemma collect_handles_ok:
  assumes "collect_handles P r d s vs ix f = Inr (hs, f')"
  shows "list_all2 (\<lambda>v h. GetHandle_NoLock P v s = Some h) vs hs"
    "\<forall>h\<in>set hs. magenta_rights_check (h_rights (hs_mem s h)) MX_RIGHT_TRANSFER \<and> (r \<or> h_dispatcher (hs_mem s h) \<noteq> Some d)"
  using assms by (induction vs arbitrary: ix f hs) (fastforce split: option.splits if_splits sum.splits)+

lemma collect_handles_error: "collect_handles P r d s vs ix f = Inl (Some st) \<Longrightarrow> st \<noteq> NO_ERROR"
  by (induction vs arbitrary: ix f) (auto split: option.splits if_splits sum.splits prod.splits)

text \<open>The tables of the processes hold the same handles, possibly in another order, and no handle has changed.\<close>

definition same_tables :: "handle_system \<Rightarrow> handle_system \<Rightarrow> bool" where
  "same_tables s s' \<longleftrightarrow> hs_inv s' \<and> hs_mem s' = hs_mem s \<and>
     (\<forall>q Q. hs_proc s q = Some Q \<longrightarrow> (\<exists>l. set l = set (ph_handles Q) \<and> hs_proc s' q = Some (Q\<lparr>ph_handles := l\<rparr>)))"

lemma same_tables_eq: "hs_inv s' \<Longrightarrow> hs_mem s' = hs_mem s \<Longrightarrow> hs_proc s' = hs_proc s \<Longrightarrow> same_tables s s'"
  by (auto simp: same_tables_def intro!: exI [of _ "ph_handles _"])

lemma same_tables_minus:
  assumes "hs_proc s p = Some P" "table_minus p P {} s s'"
  shows "same_tables s s'"
proof -
  obtain l where l: "set l = set (ph_handles P)" "hs_proc s' = (hs_proc s)(p \<mapsto> P\<lparr>ph_handles := l\<rparr>)" "hs_inv s'" "hs_mem s' = hs_mem s"
    using assms(2) by (auto simp: table_minus_def)
  have "\<exists>l. set l = set (ph_handles Q) \<and> hs_proc s' q = Some (Q\<lparr>ph_handles := l\<rparr>)" if "hs_proc s q = Some Q" for q Q
  proof (cases "q = p")
    case True
    then show ?thesis using that l(1,2) assms(1) by (intro exI [of _ l]) simp
  next
    case False
    then show ?thesis using that l(2) by (intro exI [of _ "ph_handles Q"]) simp
  qed
  then show ?thesis using l(3,4) by (simp add: same_tables_def)
qed

abbreviation names_handles :: "process_handles \<Rightarrow> handle_system \<Rightarrow> u32 list \<Rightarrow> nat list \<Rightarrow> bool" where
  "names_handles P s vs hs \<equiv> list_all2 (\<lambda>v h. GetHandle_NoLock P v s = Some h) vs hs"

definition may_send :: "handle_system \<Rightarrow> bool \<Rightarrow> nat \<Rightarrow> nat list \<Rightarrow> bool" where
  "may_send s reply d hs \<longleftrightarrow> distinct hs \<and>
     (\<forall>h\<in>set hs. magenta_rights_check (h_rights (hs_mem s h)) MX_RIGHT_TRANSFER \<and> (reply \<or> h_dispatcher (hs_mem s h) \<noteq> Some d))"

lemma message_write_take_ok:
  assumes inv: "hs_inv s" and P: "hs_proc s p = Some P"
  shows "\<exists>r s'. message_write_take p d reply vs s = Some (r, s') \<and>
    (case r of
       Inl st \<Rightarrow> st \<noteq> NO_ERROR \<and> same_tables s s'
     | Inr hs \<Rightarrow> names_handles P s vs hs \<and> may_send s reply d hs \<and> table_minus p P (set hs) s s')"
proof (cases "collect_handles P reply d s vs 0 None")
  case (Inl e)
  show ?thesis
  proof (cases e)
    case None
    then show ?thesis using Inl P BadHandle_ok [OF inv P] by (auto simp: message_write_take_def intro: same_tables_eq)
  next
    case (Some st)
    then have "st \<noteq> NO_ERROR" using Inl collect_handles_error by blast
    then show ?thesis using Inl Some P same_tables_eq [OF inv] by (simp add: message_write_take_def)
  qed
next
  case (Inr hf)
  obtain hs f where hf: "hf = (hs, f)" by force
  note c = collect_handles_ok [OF Inr [unfolded hf]]
  show ?thesis
  proof (cases "reply \<and> (vs = [] \<or> f \<noteq> Some (length vs - 1))")
    case True
    then show ?thesis using Inr hf P same_tables_eq [OF inv] by (simp add: message_write_take_def)
  next
    case False
    obtain s2 where s2: "remove_handles p vs [] s = Some (distinct hs, s2)" "table_minus p P (if distinct hs then set hs else {}) s s2"
      using remove_handles_ok [OF inv P c(1), of "[]" "[]" s, unfolded append_Nil] table_minus_refl [OF inv P] by auto
    show ?thesis
    proof (cases "distinct hs")
      case True
      then show ?thesis using Inr hf False P s2 c by (auto simp: message_write_take_def may_send_def)
    next
      case dup: False
      then show ?thesis using Inr hf False P s2 same_tables_minus [OF P, of s2] by (auto simp: message_write_take_def)
    qed
  qed
qed

section \<open>Receiving handles\<close>

lemma receive_handles_ok:
  assumes "hs_inv s" "hs_proc s q = Some Q" "distinct hs" "\<forall>h\<in>set hs. h \<in> live_handles s \<and> h_process_id (hs_mem s h) = 0"
  shows "\<exists>s'. receive_handles q hs s = Some s' \<and> hs_inv s' \<and> hs_arena s' = hs_arena s \<and>
    hs_mem s' = (\<lambda>h. if h \<in> set hs then (hs_mem s h)\<lparr>h_process_id := ph_koid Q\<rparr> else hs_mem s h) \<and>
    hs_proc s' = (hs_proc s)(q \<mapsto> Q\<lparr>ph_handles := rev hs @ ph_handles Q\<rparr>)"
  using assms
proof (induction hs arbitrary: s Q)
  case Nil
  then show ?case by (auto simp: fun_upd_idem)
next
  case (Cons h hs)
  obtain d where d: "h_dispatcher (hs_mem s h) = Some d" using Cons.prems(4) by (auto simp: live_handles_def)
  define t where "t = (if di_has_tracker (hs_disp s d) then note_call (Cancelled d h) s else s)"
  have t: "hs_mem t = hs_mem s" "hs_proc t = hs_proc s" "hs_arena t = hs_arena s" "hs_pages t = hs_pages s" "hs_koid t = hs_koid s"
    by (simp_all add: t_def)
  have live: "live_handles t = live_handles s" by (simp add: live_handles_def t)
  have inv: "hs_inv t" using Cons.prems(1) by (simp add: hs_inv_def arena_inv_def table_ok_def live t)
  have w: "with_pid h 0 t = t" using Cons.prems(4) t(1) by (simp add: with_pid_def fun_upd_idem)
  obtain s1 where s1: "AddHandle q h t = Some s1" "hs_inv s1" "live_handles s1 = live_handles s" "hs_arena s1 = hs_arena s"
    "hs_proc s1 = (hs_proc s)(q \<mapsto> Q\<lparr>ph_handles := h # ph_handles Q\<rparr>)" "hs_mem s1 = hs_mem (with_pid h (ph_koid Q) t)"
    using AddHandle_ok [of h t q Q, unfolded w] inv Cons.prems(2,4) live t by auto
  have m1: "hs_mem s1 k = (if k = h then (hs_mem s h)\<lparr>h_process_id := ph_koid Q\<rparr> else hs_mem s k)" for k
    by (simp add: s1(6) with_pid_def t)
  have "\<forall>k\<in>set hs. k \<in> live_handles s1 \<and> h_process_id (hs_mem s1 k) = 0" using Cons.prems(3,4) s1(3) by (auto simp: m1)
  then obtain s2 where "receive_handles q hs s1 = Some s2" "hs_inv s2" "hs_arena s2 = hs_arena s1"
    "hs_mem s2 = (\<lambda>k. if k \<in> set hs then (hs_mem s1 k)\<lparr>h_process_id := ph_koid Q\<rparr> else hs_mem s1 k)"
    "hs_proc s2 = (hs_proc s1)(q \<mapsto> Q\<lparr>ph_handles := rev hs @ h # ph_handles Q\<rparr>)"
    using Cons.IH [OF s1(2), of "Q\<lparr>ph_handles := h # ph_handles Q\<rparr>"] s1(5) Cons.prems(3)
    by (auto simp: fun_upd_def cong: if_cong)
  then show ?case using d s1(1,4,5) by (auto simp: m1 fun_eq_iff t_def)
qed

lemma copy_handle_values_all: "(\<And>i. ok i) \<Longrightarrow> copy_handle_values ok ix vs = (True, vs)"
  by (induction vs arbitrary: ix) auto

section \<open>A sender and a receiver\<close>

definition kDefaultPipeRights :: mx_rights where
  "kDefaultPipeRights = MX_RIGHT_TRANSFER OR MX_RIGHT_READ OR MX_RIGHT_WRITE"

lemma GetDispatcher_value:
  assumes "hs_inv s" "hs_proc s p = Some P" "h \<in> set (ph_handles P)" "h_dispatcher (hs_mem s h) = Some d"
  shows "GetDispatcher p (MapHandleToValue P h s) s = Some (Some (d, h_rights (hs_mem s h)))"
    "GetHandle_NoLock P (MapHandleToValue P h s) s = Some h"
proof -
  show "GetHandle_NoLock P (MapHandleToValue P h s) s = Some h" using GetHandle_iff [OF assms(1,2)] assms(3) by simp
  then show "GetDispatcher p (MapHandleToValue P h s) s = Some (Some (d, h_rights (hs_mem s h)))"
    using assms(2,4) by (simp add: GetDispatcher_def)
qed

lemma unreferencedI: "\<forall>h\<in>live_handles s. h_dispatcher (hs_mem s h) \<noteq> Some d \<Longrightarrow> unreferenced d s"
  by (auto simp: unreferenced_def live_handles_def)

text \<open>Process 7 holds one side of a pipe and an event, process 8 the other side.\<close>

lemma sender_receiver_ex:
  "\<exists>s lim P Q v ve v'. hs_reach s lim \<and> hs_proc s 7 = Some P \<and> hs_proc s 8 = Some Q \<and>
    GetDispatcher 7 v s = Some (Some (4, kDefaultPipeRights)) \<and> GetDispatcher 7 ve s = Some (Some (3, kDefaultEventRights)) \<and>
    GetDispatcher 8 v' s = Some (Some (5, kDefaultPipeRights))"
proof -
  obtain s lim P Q h where t: "two_processes s lim P Q h" using two_processes_ex by blast
  then have r: "hs_reach s lim" "hs_proc s 7 = Some P" "hs_proc s 8 = Some Q" "ph_handles P = [h]" "ph_handles Q = []"
    "h_rights (hs_mem s h) = kDefaultEventRights" "h_dispatcher (hs_mem s h) = Some 3" "live_handles s = {h}"
    by (simp_all add: two_processes_def)
  have u: "unreferenced 4 s" by (rule unreferencedI) (simp add: r(7,8))
  obtain r1 s1 where i1: "install_handle 7 4 kDefaultPipeRights s = Some (r1, s1)"
    "case r1 of Inl _ \<Rightarrow> s1 = s \<and> card (live_handles s) = kMaxHandleCount
     | Inr hv \<Rightarrow> (\<exists>h. h \<notin> live_handles s \<and> hv = MapHandleToValue P h s1 \<and>
         hs_proc s1 = (hs_proc s)(7 \<mapsto> P\<lparr>ph_handles := h # ph_handles P\<rparr>) \<and>
         hs_mem s1 = (hs_mem s)(h := \<lparr>h_process_id = ph_koid P, h_rights = kDefaultPipeRights, h_dispatcher = Some 4\<rparr>))"
    using install_handle_ok [of s 7 P] hs_reach_inv [OF r(1)] r(2) by blast
  have reach1: "hs_reach s1 (lim(4 := kDefaultPipeRights))" by (rule hr_install [OF r(1,2) u i1(1)])
  obtain k where k: "k \<noteq> h" "hs_proc s1 = (hs_proc s)(7 \<mapsto> P\<lparr>ph_handles := [k, h]\<rparr>)"
    "hs_mem s1 = (hs_mem s)(k := \<lparr>h_process_id = ph_koid P, h_rights = kDefaultPipeRights, h_dispatcher = Some 4\<rparr>)"
    using i1(2) r(4,8) by (auto simp: kMaxHandleCount_def split: sum.splits)
  have "live_handles s1 = insert k (live_handles s)" by (auto simp: live_handles_def k(3))
  then have live1: "live_handles s1 = {k, h}" by (simp add: r(8))
  have Q1: "hs_proc s1 8 = Some Q" by (simp add: k(2) r(3))
  have u1: "unreferenced 5 s1" by (rule unreferencedI) (use k(1) in \<open>simp add: live1 k(3) r(7)\<close>)
  obtain r2 s2 where i2: "install_handle 8 5 kDefaultPipeRights s1 = Some (r2, s2)"
    "case r2 of Inl _ \<Rightarrow> s2 = s1 \<and> card (live_handles s1) = kMaxHandleCount
     | Inr hv \<Rightarrow> (\<exists>h. h \<notin> live_handles s1 \<and> hv = MapHandleToValue Q h s2 \<and>
         hs_proc s2 = (hs_proc s1)(8 \<mapsto> Q\<lparr>ph_handles := h # ph_handles Q\<rparr>) \<and>
         hs_mem s2 = (hs_mem s1)(h := \<lparr>h_process_id = ph_koid Q, h_rights = kDefaultPipeRights, h_dispatcher = Some 5\<rparr>))"
    using install_handle_ok [of s1 8 Q] hs_reach_inv [OF reach1] Q1 by blast
  have reach2: "hs_reach s2 (lim(4 := kDefaultPipeRights, 5 := kDefaultPipeRights))" by (rule hr_install [OF reach1 Q1 u1 i2(1)])
  obtain j where j: "j \<noteq> k" "j \<noteq> h" "hs_proc s2 = (hs_proc s1)(8 \<mapsto> Q\<lparr>ph_handles := [j]\<rparr>)"
    "hs_mem s2 = (hs_mem s1)(j := \<lparr>h_process_id = ph_koid Q, h_rights = kDefaultPipeRights, h_dispatcher = Some 5\<rparr>)"
    using i2(2) r(5) live1 k(1) by (auto simp: kMaxHandleCount_def split: sum.splits)
  let ?P = "P\<lparr>ph_handles := [k, h]\<rparr>" let ?Q = "Q\<lparr>ph_handles := [j]\<rparr>"
  have inv2: "hs_inv s2" using hs_reach_inv [OF reach2] by simp
  have pr: "hs_proc s2 7 = Some ?P" "hs_proc s2 8 = Some ?Q" by (simp_all add: j(3) k(2))
  have "GetDispatcher 7 (MapHandleToValue ?P k s2) s2 = Some (Some (4, kDefaultPipeRights))"
    using GetDispatcher_value(1) [OF inv2 pr(1), of k 4] j(1) by (simp add: j(4) k(3))
  moreover have "GetDispatcher 7 (MapHandleToValue ?P h s2) s2 = Some (Some (3, kDefaultEventRights))"
    using GetDispatcher_value(1) [OF inv2 pr(1), of h 3] j(2) k(1) r(6,7) by (simp add: j(4) k(3))
  moreover have "GetDispatcher 8 (MapHandleToValue ?Q j s2) s2 = Some (Some (5, kDefaultPipeRights))"
    using GetDispatcher_value(1) [OF inv2 pr(2), of j 5] by (simp add: j(4))
  ultimately show ?thesis using reach2 pr by blast
qed

definition example_state :: "handle_system \<Rightarrow> (observer, world) msg_state" where
  "example_state hs = \<lparr>ms_hs = hs,
     ms_side = [4 \<mapsto> (0, \<lparr>md_side = 0, md_flags = 0, md_pending = None\<rparr>), 5 \<mapsto> (0, \<lparr>md_side = 1, md_flags = 0, md_pending = None\<rparr>)],
     ms_pipe = (\<lambda>_. MessagePipe 7), ms_world = world0\<rparr>"

definition example_write :: "u32 \<Rightarrow> write_args" where
  "example_write v = \<lparr>wa_bytes_ptr = True, wa_num_bytes = 2, wa_bytes = Inr [1, 2], wa_handles_ptr = True, wa_num_handles = 1,
     wa_handles = Inr [v], wa_list_alloc = True, wa_packet_alloc = True\<rparr>"

section \<open>Properties\<close>

lemma MessagePipeDispatcher_Write_ok:
  assumes r: "reach_pipe base e alloc_ok p w" and s: "md_side md < 2" "mp_dispatcher_alive p (md_side md)"
  shows "\<exists>st p' w'. MessagePipeDispatcher_Write (world_ops e alloc_ok) ok md bytes hs p w = Some (st, p', w') \<and>
    mp_dispatcher_alive p' = mp_dispatcher_alive p \<and> reach_pipe base e alloc_ok p' w' \<and>
    (if st = NO_ERROR then ok \<and> mp_messages p' = (mp_messages p)(other_side (md_side md) :=
       mp_messages p (other_side (md_side md)) @ [\<lparr>pk_data = bytes, pk_handles = hs\<rparr>])
     else mp_messages p' = mp_messages p) \<and>
    (ok \<and> mp_dispatcher_alive p (other_side (md_side md)) \<longrightarrow> st = NO_ERROR)"
proof (cases ok)
  case False
  then show ?thesis using r by (simp add: MessagePipeDispatcher_Write_def)
next
  case True
  let ?m = "\<lparr>pk_data = bytes, pk_handles = hs\<rparr>"
  from obs.pipe_write_ok [OF obs.pipe_reach_inv [OF r] s, of alloc_ok ?m] obtain st p' w' where
    x: "MessagePipe_Write (world_ops e alloc_ok) (md_side md) ?m p w = Some (st, p', w')"
      "st = (if mp_dispatcher_alive p (other_side (md_side md)) then NO_ERROR else ERR_BAD_STATE)"
      "mp_messages p' = (if mp_dispatcher_alive p (other_side (md_side md))
        then (mp_messages p)(other_side (md_side md) := mp_messages p (other_side (md_side md)) @ [?m]) else mp_messages p)"
    by blast
  have "reach_pipe base e alloc_ok p' w'" by (rule pipe_reach.pr_write [OF r s x(1)])
  then show ?thesis using True x MessagePipe_Write_alive [OF x(1)] by (auto simp: MessagePipeDispatcher_Write_def)
qed

text \<open>Every side of a pipe that is reachable through a dispatcher is alive, and its pipe was used only through its operations.\<close>

definition pipes_ok :: "lk_time \<Rightarrow> cpu_env \<Rightarrow> bool \<Rightarrow> (observer, world) msg_state \<Rightarrow> bool" where
  "pipes_ok base e alloc_ok s \<longleftrightarrow> (\<forall>d pipe md. ms_side s d = Some (pipe, md) \<longrightarrow>
     md_side md < 2 \<and> mp_dispatcher_alive (ms_pipe s pipe) (md_side md) \<and> reach_pipe base e alloc_ok (ms_pipe s pipe) (ms_world s))"

lemma message_write_args_error:
  "wa_bytes a \<noteq> Inl NO_ERROR \<Longrightarrow> wa_handles a \<noteq> Inl NO_ERROR \<Longrightarrow> message_write_args a \<noteq> Inl NO_ERROR"
  by (auto simp: message_write_args_def copy_from_user_dynamic_def magenta_copy_user_dynamic_def split: sum.splits if_splits)

lemma GetDispatcher_cases:
  assumes "hs_inv s" "hs_proc s p = Some P"
  shows "GetDispatcher p v s = Some None \<or> (\<exists>h d. GetHandle_NoLock P v s = Some h \<and> h_dispatcher (hs_mem s h) = Some d \<and>
    GetDispatcher p v s = Some (Some (d, h_rights (hs_mem s h))))"
  using GetHandle_SomeD(2) [OF assms, of v] assms(2)
  by (cases "GetHandle_NoLock P v s") (auto simp: GetDispatcher_def live_handles_def)


lemma example_pipes_ok: "pipes_ok 0 (env0 0) True (example_state hs)"
  using reach_pipe0 by (auto simp: pipes_ok_def example_state_def split: if_splits)


text \<open>What another process can name is not touched when handles are taken out of a table.\<close>

lemma table_minus_other:
  assumes inv: "hs_inv s" and P: "hs_proc s p = Some P" and Q: "hs_proc s q = Some Q" "p \<noteq> q" and t: "table_minus p P S s s'"
  shows "hs_proc s' q = Some Q" "GetDispatcher q w s' = GetDispatcher q w s"
proof -
  have m: "hs_arena s' = hs_arena s" "hs_mem s' = (\<lambda>h. if h \<in> S then (hs_mem s h)\<lparr>h_process_id := 0\<rparr> else hs_mem s h)" "S \<subseteq> set (ph_handles P)"
    and p: "hs_proc s' q = Some Q" using t Q by (auto simp: table_minus_def)
  show "hs_proc s' q = Some Q" by (rule p)
  have k: "ph_koid Q \<noteq> ph_koid P" "ph_koid Q \<noteq> 0" using hs_invD(3) [OF inv Q(1) P] Q(2) hs_invD(4) [OF inv Q(1)] by auto
  have S: "h_process_id (hs_mem s h) = ph_koid P" if "h \<in> S" for h
    using that m(3) table_okD(1) [OF hs_invD(2) [OF inv P], of h] by auto
  have "MapU32ToHandle x s' = MapU32ToHandle x s" for x by (simp add: MapU32ToHandle_def HandleInRange_def Let_def m(1))
  then have "GetHandle_NoLock Q w s' = GetHandle_NoLock Q w s"
    using S k by (auto simp: GetHandle_NoLock_def m(2) split: option.splits)
  moreover have "h \<notin> S" if "GetHandle_NoLock Q w s = Some h" for h
    using GetHandle_SomeD(3) [OF inv Q(1) that] S [of h] k by auto
  ultimately show "GetDispatcher q w s' = GetDispatcher q w s"
    using p Q(1) by (cases "GetHandle_NoLock Q w s") (auto simp: GetDispatcher_def m(2))
qed

lemma names_GetDispatcher:
  assumes "hs_inv s" "hs_proc s p = Some P" "names_handles P s vs hs" "i < length vs"
  shows "\<exists>d. h_dispatcher (hs_mem s (hs ! i)) = Some d \<and> GetDispatcher p (vs ! i) s = Some (Some (d, h_rights (hs_mem s (hs ! i)))) \<and>
    hs ! i \<in> set (ph_handles P) \<and> vs ! i = MapHandleToValue P (hs ! i) s"
proof -
  have g: "GetHandle_NoLock P (vs ! i) s = Some (hs ! i)" using assms(3,4) by (simp add: list_all2_conv_all_nth)
  note h = GetHandle_SomeD [OF assms(1,2) g]
  then show ?thesis using g assms(2) by (auto simp: GetDispatcher_def live_handles_def)
qed

text \<open>The system after the handles taken from \<open>p\<close> were received by \<open>q\<close>.\<close>

lemma handles_received:
  assumes inv: "hs_inv s" and P: "hs_proc s p = Some P" and Q: "hs_proc s q = Some Q" "p \<noteq> q"
    and t: "table_minus p P (set hs) s s1" and hs: "distinct hs" and n: "names_handles P s vs hs"
  shows "\<exists>s2. receive_handles q hs s1 = Some s2 \<and>
    (\<forall>i<length vs. GetDispatcher q (MapHandleToValue Q (hs ! i) s1) s2 = GetDispatcher p (vs ! i) s \<and> GetDispatcher p (vs ! i) s2 = Some None)"
proof -
  obtain l where l: "set l = set (ph_handles P) - set hs" "hs_proc s1 = (hs_proc s)(p \<mapsto> P\<lparr>ph_handles := l\<rparr>)" and inv1: "hs_inv s1"
    and ar: "hs_arena s1 = hs_arena s" and sub: "set hs \<subseteq> set (ph_handles P)"
    and m1: "hs_mem s1 = (\<lambda>h. if h \<in> set hs then (hs_mem s h)\<lparr>h_process_id := 0\<rparr> else hs_mem s h)"
    using t by (auto simp: table_minus_def)
  have live: "h \<in> live_handles s1" if "h \<in> set hs" for h
    using sub that table_okD(1) [OF hs_invD(2) [OF inv P], of h] table_minus_live [OF t] by auto
  have Q1: "hs_proc s1 q = Some Q" using l(2) Q by simp
  obtain s2 where s2: "receive_handles q hs s1 = Some s2" "hs_inv s2" "hs_arena s2 = hs_arena s1"
    "hs_mem s2 = (\<lambda>h. if h \<in> set hs then (hs_mem s1 h)\<lparr>h_process_id := ph_koid Q\<rparr> else hs_mem s1 h)"
    "hs_proc s2 = (hs_proc s1)(q \<mapsto> Q\<lparr>ph_handles := rev hs @ ph_handles Q\<rparr>)"
    using receive_handles_ok [OF inv1 Q1 hs] live by (auto simp: m1)
  let ?Q = "Q\<lparr>ph_handles := rev hs @ ph_handles Q\<rparr>" let ?P = "P\<lparr>ph_handles := l\<rparr>"
  have q2: "hs_proc s2 q = Some ?Q" and p2: "hs_proc s2 p = Some ?P" using s2(5) l(2) Q(2) by auto
  have len: "length hs = length vs" using n by (simp add: list_all2_lengthD)
  have "GetDispatcher q (MapHandleToValue Q (hs ! i) s1) s2 = GetDispatcher p (vs ! i) s \<and> GetDispatcher p (vs ! i) s2 = Some None"
    if i: "i < length vs" for i
  proof -
    obtain d where d: "h_dispatcher (hs_mem s (hs ! i)) = Some d" "GetDispatcher p (vs ! i) s = Some (Some (d, h_rights (hs_mem s (hs ! i))))"
      "vs ! i = MapHandleToValue P (hs ! i) s" "hs ! i \<in> set (ph_handles P)"
      using names_GetDispatcher [OF inv P n i] by blast
    have in_hs: "hs ! i \<in> set hs" using i len by simp
    have "MapHandleToValue Q (hs ! i) s1 = MapHandleToValue ?Q (hs ! i) s2" by (rule value_cong [symmetric]) (simp_all add: s2(3))
    then have q: "GetDispatcher q (MapHandleToValue Q (hs ! i) s1) s2 = GetDispatcher p (vs ! i) s"
      using GetDispatcher_value(1) [OF s2(2) q2, of "hs ! i" d] d(1,2) in_hs by (simp add: s2(4) m1)
    have val: "MapHandleToValue ?P k s2 = MapHandleToValue P k s" for k by (rule value_cong) (simp_all add: s2(3) ar)
    have "GetHandle_NoLock ?P (vs ! i) s2 \<noteq> Some k" for k
    proof
      assume "GetHandle_NoLock ?P (vs ! i) s2 = Some k"
      then have k: "k \<in> set l" "vs ! i = MapHandleToValue P k s" using GetHandle_iff [OF s2(2) p2] val by auto
      then have "GetHandle_NoLock P (vs ! i) s = Some k" using GetHandle_iff [OF inv P] l(1) by auto
      moreover have "GetHandle_NoLock P (vs ! i) s = Some (hs ! i)" using GetHandle_iff [OF inv P] d(3,4) by simp
      ultimately show False using k(1) l(1) in_hs by simp
    qed
    then have "GetHandle_NoLock ?P (vs ! i) s2 = None" by (cases "GetHandle_NoLock ?P (vs ! i) s2") auto
    then show ?thesis using q p2 by (simp add: GetDispatcher_def)
  qed
  then show ?thesis using s2(1) by blast
qed

lemma collect_handles_sends:
  assumes "names_handles P s vs hs"
    "\<forall>h\<in>set hs. magenta_rights_check (h_rights (hs_mem s h)) MX_RIGHT_TRANSFER \<and> h_dispatcher (hs_mem s h) \<noteq> Some d"
  shows "collect_handles P False d s vs ix f = Inr (hs, f)"
  using assms by (induction vs hs arbitrary: ix rule: list_all2_induct) auto

text \<open>
  A write of the handles \<open>hs\<close>, named by \<open>vs\<close>, that has all it needs: the pipe is open on both sides, the handles may be
  sent, and memory suffices.
\<close>

lemma sys_message_write_sends:
  assumes reach: "hs_reach (ms_hs s) lim" and P: "hs_proc (ms_hs s) p = Some P" and pipes: "pipes_ok base e alloc_ok s"
    and v: "GetDispatcher p v (ms_hs s) = Some (Some (d, rights))" "magenta_rights_check rights MX_RIGHT_WRITE"
    and d: "ms_side s d = Some (pipe, md)" "\<not> is_reply_pipe md" "mp_dispatcher_alive (ms_pipe s pipe) (other_side (md_side md))"
    and a: "message_write_args a = Inr (bytes, vs)" "wa_packet_alloc a"
    and hs: "names_handles P (ms_hs s) vs hs" "may_send (ms_hs s) False d hs"
  shows "\<exists>s'. sys_message_write (world_ops e alloc_ok) p v a s = Some (NO_ERROR, s') \<and> table_minus p P (set hs) (ms_hs s) (ms_hs s') \<and>
    ms_side s' = ms_side s \<and> reach_pipe base e alloc_ok (ms_pipe s' pipe) (ms_world s') \<and>
    mp_dispatcher_alive (ms_pipe s' pipe) = mp_dispatcher_alive (ms_pipe s pipe) \<and>
    mp_messages (ms_pipe s' pipe) = (mp_messages (ms_pipe s pipe))(other_side (md_side md) :=
      mp_messages (ms_pipe s pipe) (other_side (md_side md)) @ [\<lparr>pk_data = bytes, pk_handles = hs\<rparr>])"
proof -
  have inv: "hs_inv (ms_hs s)" using hs_reach_inv [OF reach] by simp
  have side: "md_side md < 2" "mp_dispatcher_alive (ms_pipe s pipe) (md_side md)" "reach_pipe base e alloc_ok (ms_pipe s pipe) (ms_world s)"
    using pipes d(1) by (auto simp: pipes_ok_def)
  have c: "collect_handles P False d (ms_hs s) vs 0 None = Inr (hs, None)"
    using collect_handles_sends [OF hs(1)] hs(2) by (simp add: may_send_def)
  have dist: "distinct hs" using hs(2) by (simp add: may_send_def)
  obtain hs1 where rm: "remove_handles p vs [] (ms_hs s) = Some (True, hs1)" "table_minus p P (set hs) (ms_hs s) hs1"
    using remove_handles_ok [OF inv P hs(1), of "[]" "[]" "ms_hs s", unfolded append_Nil] table_minus_refl [OF inv P] dist by auto
  have tk: "message_write_take p d False vs (ms_hs s) = Some (Inr hs, hs1)" using P c rm(1) by (simp add: message_write_take_def)
  obtain q w where "MessagePipeDispatcher_Write (world_ops e alloc_ok) True md bytes hs (ms_pipe s pipe) (ms_world s) = Some (NO_ERROR, q, w)"
    "mp_dispatcher_alive q = mp_dispatcher_alive (ms_pipe s pipe)" "reach_pipe base e alloc_ok q w"
    "mp_messages q = (mp_messages (ms_pipe s pipe))(other_side (md_side md) :=
      mp_messages (ms_pipe s pipe) (other_side (md_side md)) @ [\<lparr>pk_data = bytes, pk_handles = hs\<rparr>])"
    using MessagePipeDispatcher_Write_ok [OF side(3,1,2), of True bytes hs] d(3) by fastforce
  then show ?thesis using v d a tk rm(2) by (simp add: sys_message_write_def)
qed

text \<open>A read with buffers that fit the message, to memory that can be written.\<close>

definition good_read :: "read_args \<Rightarrow> nat \<Rightarrow> nat \<Rightarrow> bool" where
  "good_read ra nb nh \<longleftrightarrow> message_read_args ra = Inr (nb, nh) \<and> ra_bytes_ptr ra \<and> ra_sizes_copy ra \<and> ra_bytes_copy ra \<and> (\<forall>i. ra_handle_copy ra i)"

lemma sys_message_read_receives:
  assumes q: "hs_proc (ms_hs s) q = Some Q" "GetDispatcher q v (ms_hs s) = Some (Some (d, rights))" "magenta_rights_check rights MX_RIGHT_READ"
    and d: "ms_side s d = Some (pipe, md)" "md_pending md = None" "md_side md < 2" "mp_dispatcher_alive (ms_pipe s pipe) (md_side md)"
      "reach_pipe base e alloc_ok (ms_pipe s pipe) (ms_world s)" "mp_messages (ms_pipe s pipe) (md_side md) = \<lparr>pk_data = bytes, pk_handles = hs\<rparr> # ms"
    and ra: "good_read ra nb nh" "length bytes \<le> nb" "length hs \<le> nh" "nb \<le> length (bytes @ ra_heap ra)" "nb < 2 ^ 32" "nh < 2 ^ 32"
    and r: "receive_handles q hs (ms_hs s) = Some hs'"
  shows "\<exists>s'. sys_message_read (world_ops e alloc_ok) q v ra s =
    Some ((NO_ERROR, take nb (bytes @ ra_heap ra), map (\<lambda>h. MapHandleToValue Q h (ms_hs s)) hs), s') \<and> ms_hs s' = hs'"
proof -
  let ?ops = "world_ops e alloc_ok" let ?m = "\<lparr>pk_data = bytes, pk_handles = hs\<rparr>"
  obtain p' w' where rd: "MessagePipe_Read ?ops (md_side md) (ms_pipe s pipe) (ms_world s) = Some ((NO_ERROR, Some ?m), p', w')"
    using obs.pipe_read_ok [OF obs.pipe_reach_inv [OF d(5)] d(3,4), of alloc_ok, unfolded d(6) list.case] by blast
  let ?md = "md\<lparr>md_pending := Some ?m\<rparr>"
  have len: "unat (of_nat (length bytes) :: u32) = length bytes" "unat (of_nat (length hs) :: u32) = length hs"
    using ra(2,3,5,6) by (simp_all add: unat_of_nat)
  have b: "BeginRead ?ops md (ms_pipe s pipe) (ms_world s) = Some ((NO_ERROR, of_nat (length bytes), of_nat (length hs)), ?md, p', w')"
    using d(2) rd by (simp add: BeginRead_def)
  define s1 where "s1 = s\<lparr>ms_side := (ms_side s)(d \<mapsto> (pipe, ?md)), ms_pipe := (ms_pipe s)(pipe := p'), ms_world := w'\<rparr>"
  have s1: "hs_proc (ms_hs s1) q = Some Q" "ms_side s1 d = Some (pipe, ?md)" "ms_hs s1 = ms_hs s" using q(1) by (simp_all add: s1_def)
  note good = ra(1) [unfolded good_read_def]
  have cp: "copy_message_bytes nb (Some bytes) ra = Some (take nb (bytes @ ra_heap ra))" using good ra(4) by (simp add: copy_message_bytes_def)
  have cv: "copy_handle_values (ra_handle_copy ra) 0 vals = (True, vals)" for vals using good by (intro copy_handle_values_all) simp
  have "\<exists>s'. message_read_accept q d nb (length hs) ra s1 =
    Some ((NO_ERROR, take nb (bytes @ ra_heap ra), map (\<lambda>h. MapHandleToValue Q h (ms_hs s)) hs), s') \<and> ms_hs s' = hs'"
    using s1 good cp cv r by (cases "hs = []") (simp_all add: message_read_accept_def AcceptRead_def)
  moreover have "sys_message_read ?ops q v ra s = message_read_accept q d nb (length hs) ra s1"
    using q(2,3) d(1) good b len ra(2,3) by (simp add: sys_message_read_def s1_def)
  ultimately show ?thesis by simp
qed

text \<open>
  C25: handles travel with messages. When a process writes a message with handles it may send to an open pipe whose other side has nothing
  queued, and another process reads that side with buffers of the right size, both succeed: the reader gets exactly the bytes, and one
  new handle value for every handle, in order. Each new value gives the reader the same object with the same rights as the sender
  had through the value it passed, and that value of the sender is a bad handle from then on.
\<close>

theorem message_transfers_handles:
  assumes reach: "hs_reach (ms_hs s) lim" and P: "hs_proc (ms_hs s) p = Some P" and Q: "hs_proc (ms_hs s) q = Some Q" "p \<noteq> q"
    and pipes: "pipes_ok base e alloc_ok s"
    and v: "GetDispatcher p v (ms_hs s) = Some (Some (d, rights))" "magenta_rights_check rights MX_RIGHT_WRITE"
    and d: "ms_side s d = Some (pipe, md)" "\<not> is_reply_pipe md"
    and v': "GetDispatcher q v' (ms_hs s) = Some (Some (d', rights'))" "magenta_rights_check rights' MX_RIGHT_READ"
    and d': "ms_side s d' = Some (pipe, md')" "md_side md' = other_side (md_side md)" "md_pending md' = None"
      "mp_messages (ms_pipe s pipe) (md_side md') = []"
    and a: "message_write_args a = Inr (bytes, vs)" "wa_packet_alloc a"
    and hs: "names_handles P (ms_hs s) vs hs" "may_send (ms_hs s) False d hs"
    and ra: "good_read ra (length bytes) nh" "length hs \<le> nh" "length bytes < 2 ^ 32" "nh < 2 ^ 32"
  shows "\<exists>s1 s2 vals. sys_message_write (world_ops e alloc_ok) p v a s = Some (NO_ERROR, s1) \<and>
    sys_message_read (world_ops e alloc_ok) q v' ra s1 = Some ((NO_ERROR, bytes, vals), s2) \<and> length vals = length vs \<and>
    (\<forall>i<length vs. GetDispatcher q (vals ! i) (ms_hs s2) = GetDispatcher p (vs ! i) (ms_hs s) \<and>
       GetDispatcher p (vs ! i) (ms_hs s2) = Some None)"
proof -
  have inv: "hs_inv (ms_hs s)" using hs_reach_inv [OF reach] by simp
  have side: "md_side md' < 2" "mp_dispatcher_alive (ms_pipe s pipe) (md_side md')" using pipes d'(1) by (auto simp: pipes_ok_def)
  obtain s1 where s1: "sys_message_write (world_ops e alloc_ok) p v a s = Some (NO_ERROR, s1)" "table_minus p P (set hs) (ms_hs s) (ms_hs s1)"
    "ms_side s1 = ms_side s" "reach_pipe base e alloc_ok (ms_pipe s1 pipe) (ms_world s1)"
    "mp_dispatcher_alive (ms_pipe s1 pipe) = mp_dispatcher_alive (ms_pipe s pipe)"
    "mp_messages (ms_pipe s1 pipe) (md_side md') = [\<lparr>pk_data = bytes, pk_handles = hs\<rparr>]"
    using sys_message_write_sends [OF reach P pipes v d _ a hs] side(2) d'(2,4) by auto
  note other = table_minus_other [OF inv P Q s1(2)]
  have dist: "distinct hs" using hs(2) by (simp add: may_send_def)
  obtain hs2 where hs2: "receive_handles q hs (ms_hs s1) = Some hs2"
    "\<And>i. i < length vs \<Longrightarrow> GetDispatcher q (MapHandleToValue Q (hs ! i) (ms_hs s1)) hs2 = GetDispatcher p (vs ! i) (ms_hs s) \<and>
       GetDispatcher p (vs ! i) hs2 = Some None"
    using handles_received [OF inv P Q s1(2) dist hs(1)] by blast
  have w: "GetDispatcher q v' (ms_hs s1) = Some (Some (d', rights'))" using other(2) v'(1) by simp
  have al: "mp_dispatcher_alive (ms_pipe s1 pipe) (md_side md')" using side(2) s1(5) by simp
  obtain s2 where s2: "sys_message_read (world_ops e alloc_ok) q v' ra s1 = Some ((NO_ERROR, bytes, map (\<lambda>h. MapHandleToValue Q h (ms_hs s1)) hs), s2)"
    "ms_hs s2 = hs2"
    using sys_message_read_receives [OF other(1) w v'(2) d'(1) [folded s1(3)] d'(3) side(1) al s1(4,6) ra(1) order.refl ra(2) _ ra(3,4) hs2(1)]
    by auto
  have "length hs = length vs" using hs(1) by (simp add: list_all2_lengthD)
  then show ?thesis using s1(1) s2 hs2(2) by (intro exI [of _ s1] exI [of _ s2] exI [of _ "map (\<lambda>h. MapHandleToValue Q h (ms_hs s1)) hs"]) auto
qed

definition example_read :: "nat \<Rightarrow> read_args" where
  "example_read nb = \<lparr>ra_bytes_ptr = True, ra_num_bytes_ptr = True, ra_num_bytes = Some nb, ra_handles_ptr = True, ra_num_handles_ptr = True,
     ra_num_handles = Some 1, ra_alloc = True, ra_sizes_copy = True, ra_bytes_copy = True, ra_handle_copy = (\<lambda>_. True), ra_heap = [7, 8, 9]\<rparr>"

lemma good_read_example: "good_read (example_read nb) nb 1"
  by (simp add: good_read_def example_read_def message_read_args_def)

lemma example_read_heap: "ra_heap (example_read nb) = [7, 8, 9]"
  by (simp add: example_read_def)

lemma example_rights:
  "magenta_rights_check kDefaultPipeRights MX_RIGHT_WRITE" "magenta_rights_check kDefaultPipeRights MX_RIGHT_READ"
  "magenta_rights_check kDefaultEventRights MX_RIGHT_TRANSFER"
  unfolding magenta_rights_check_def kDefaultPipeRights_def kDefaultEventRights_def by (rule bit_word_eqI, auto simp: bit_simps)+

lemma example_write_args: "message_write_args (example_write v) = Inr ([1, 2], [v])"
  by (simp add: message_write_args_def example_write_def copy_from_user_dynamic_def magenta_copy_user_dynamic_def kMaxMessageSize_def kMaxMessageHandles_def)

theorem message_transfers_handles_witness:
  "\<exists>hs v ve v' w s1 s2. GetDispatcher 7 ve hs = Some (Some (3, kDefaultEventRights)) \<and>
     sys_message_write (world_ops (env0 0) True) 7 v (example_write ve) (example_state hs) = Some (NO_ERROR, s1) \<and>
     sys_message_read (world_ops (env0 0) True) 8 v' (example_read 2) s1 = Some ((NO_ERROR, [1, 2], [w]), s2) \<and>
     GetDispatcher 8 w (ms_hs s2) = Some (Some (3, kDefaultEventRights)) \<and> GetDispatcher 7 ve (ms_hs s2) = Some None"
proof -
  obtain hs lim P Q v ve v' where x: "hs_reach hs lim" "hs_proc hs 7 = Some P" "hs_proc hs 8 = Some Q"
    "GetDispatcher 7 v hs = Some (Some (4, kDefaultPipeRights))" "GetDispatcher 7 ve hs = Some (Some (3, kDefaultEventRights))"
    "GetDispatcher 8 v' hs = Some (Some (5, kDefaultPipeRights))" using sender_receiver_ex by blast
  let ?s = "example_state hs"
  have e: "ms_hs ?s = hs" "ms_side ?s 4 = Some (0, \<lparr>md_side = 0, md_flags = 0, md_pending = None\<rparr>)"
    "ms_side ?s 5 = Some (0, \<lparr>md_side = 1, md_flags = 0, md_pending = None\<rparr>)" "mp_messages (ms_pipe ?s 0) 1 = []"
    by (simp_all add: example_state_def)
  obtain h where h: "GetHandle_NoLock P ve hs = Some h" "h_dispatcher (hs_mem hs h) = Some 3" "h_rights (hs_mem hs h) = kDefaultEventRights"
    using x(2,5) by (auto simp: GetDispatcher_def split: option.splits bind_splits)
  have send: "names_handles P hs [ve] [h]" "may_send hs False 4 [h]" using h example_rights(3) by (simp_all add: may_send_def)
  have g: "good_read (example_read 2) (Suc (Suc 0)) (Suc 0)" using good_read_example [of 2] by (metis One_nat_def Suc_1)
  have al: "wa_packet_alloc (example_write ve)" by (simp add: example_write_def)
  obtain s1 s2 vals where "sys_message_write (world_ops (env0 0) True) 7 v (example_write ve) ?s = Some (NO_ERROR, s1)"
    "sys_message_read (world_ops (env0 0) True) 8 v' (example_read 2) s1 = Some ((NO_ERROR, [1, 2], vals), s2)" "length vals = 1"
    "GetDispatcher 8 (vals ! 0) (ms_hs s2) = GetDispatcher 7 ve hs" "GetDispatcher 7 ve (ms_hs s2) = Some None"
    using message_transfers_handles [of ?s lim 7 P 8 Q 0 "env0 0" True v 4 kDefaultPipeRights 0 "\<lparr>md_side = 0, md_flags = 0, md_pending = None\<rparr>" v' 5
        kDefaultPipeRights "\<lparr>md_side = 1, md_flags = 0, md_pending = None\<rparr>" "example_write ve" "[1, 2]" "[ve]" "[h]" "example_read 2" 1]
      x e send example_pipes_ok example_rights example_write_args g al
    by (auto simp: is_reply_pipe_def)
  moreover from this obtain w where "vals = [w]" by (auto simp: length_Suc_conv)
  ultimately show ?thesis using x(5) by (simp, blast)
qed



text \<open>
  A read does not check that it still has a message. When two threads have begun to read the same message with handles, and the first has
  accepted it, the second one indexes an array of handles that is empty, which fails an assertion of the kernel.
\<close>

lemma message_read_race_panics:
  assumes "ms_side s d = Some (pipe, md)" "md_pending md = Some m" "pk_handles m \<noteq> []"
    and first: "message_read_accept p d nb (length (pk_handles m)) ra s = Some (r, s1)"
    and second: "\<not> ra_bytes_ptr ra'"
  shows "message_read_accept p' d nb' (length (pk_handles m)) ra' s1 = None"
proof -
  have "\<exists>md1. ms_side s1 d = Some (pipe, md1) \<and> md_pending md1 = None"
    using assms(1,2) first by (auto simp: message_read_accept_def AcceptRead_def Let_def split: bind_splits option.splits prod.splits if_splits)
  then show ?thesis using assms(3) second
    by (cases "hs_proc (ms_hs s1) p'") (auto simp: message_read_accept_def AcceptRead_def)
qed

lemma message_read_race_panics_witness:
  "\<exists>(s :: (observer, world) msg_state) r s1. message_read_accept 8 5 1 1 ((example_read 1)\<lparr>ra_bytes_copy := False\<rparr>) s = Some (r, s1) \<and>
     message_read_accept 8 5 0 1 ((example_read 0)\<lparr>ra_bytes_ptr := False\<rparr>) s1 = None"
proof -
  obtain hs Q where Q: "hs_proc (hs :: handle_system) 8 = Some Q" using sender_receiver_ex by blast
  let ?m = "\<lparr>pk_data = [5], pk_handles = [9]\<rparr>" let ?md = "\<lparr>md_side = 1, md_flags = 0, md_pending = Some ?m\<rparr>"
  let ?s = "(example_state hs)\<lparr>ms_side := [5 \<mapsto> (0, ?md)]\<rparr>"
  have "\<exists>r s1. message_read_accept 8 5 1 (length (pk_handles ?m)) ((example_read 1)\<lparr>ra_bytes_copy := False\<rparr>) ?s = Some (r, s1)"
    using Q by (simp add: message_read_accept_def AcceptRead_def example_state_def example_read_def copy_message_bytes_def)
  then obtain r s1 where r: "message_read_accept 8 5 1 (length (pk_handles ?m)) ((example_read 1)\<lparr>ra_bytes_copy := False\<rparr>) ?s = Some (r, s1)" by blast
  from message_read_race_panics [OF _ _ _ r, of 0 ?md "(example_read 0)\<lparr>ra_bytes_ptr := False\<rparr>" 8 0]
  have "message_read_accept 8 5 0 1 ((example_read 0)\<lparr>ra_bytes_ptr := False\<rparr>) s1 = None" by simp
  moreover have "message_read_accept 8 5 1 1 ((example_read 1)\<lparr>ra_bytes_copy := False\<rparr>) ?s = Some (r, s1)" using r by simp
  ultimately show ?thesis by blast
qed

text \<open>The limit of 1024 handles is compared with the bytes of their values, so that no more than 256 can be sent.\<close>

lemma message_write_handle_limit:
  assumes "256 < wa_num_handles a" "wa_num_handles a \<le> kMaxMessageHandles" "wa_handles_ptr a" "wa_num_bytes a = 0"
  shows "message_write_args a = Inl ERR_INVALID_ARGS"
  using assms by (simp add: message_write_args_def copy_from_user_dynamic_def magenta_copy_user_dynamic_def kMaxMessageHandles_def)

end
