(* ===== verification/Process.thy ===== *)
theory Process
  imports Msg_Syscalls
begin

unbundle bit_operations_syntax

text \<open>
  Processes and user threads: \<^verbatim>\<open>kernel/lib/magenta/process_dispatcher.cpp\<close> and \<^verbatim>\<open>user_thread.cpp\<close>. A process and a thread are state
  machines; a process keeps the list of its running threads, and its handle table is that of \<open>Handle_Table\<close>. The calls into the
  kernel's threads, address spaces and exception ports are recorded in order in \<open>ps_calls\<close>. Processes are named as in the
  handle table, threads by their address. The destruction of an object whose last reference went is a step of its own.
\<close>

section \<open>Data\<close>

datatype process_state = P_INITIAL | P_RUNNING | P_DYING | P_DEAD

datatype user_thread_state = T_INITIAL | T_INITIALIZED | T_RUNNING | T_DYING | T_DEAD

datatype kernel_call =
    Thread_Create nat | Thread_Resume nat | Thread_Kill nat | Thread_Exit nat | Thread_Join nat
  | Free_User_Stack nat | Aspace_Destroy nat | On_Process_Exit nat nat | On_Thread_Exit nat nat

record 'o process =
  pr_state :: process_state
  pr_retcode :: int
  pr_thread_list :: "nat list"
  pr_main_thread :: "nat option"
  pr_state_tracker :: "'o state_tracker"
  pr_exception_port :: "nat option"
  pr_entry :: nat

record 'o user_thread =
  ut_koid :: mx_koid
  ut_state :: user_thread_state
  ut_process :: nat
  ut_state_tracker :: "'o state_tracker"
  ut_exception_port :: "nat option"

record ('o, 'w) proc_state =
  ps_hs :: handle_system
  ps_proc :: "nat \<Rightarrow> 'o process"
  ps_thread :: "nat \<Rightarrow> 'o user_thread"
  ps_world :: 'w
  ps_calls :: "kernel_call list"

definition note_kernel :: "kernel_call \<Rightarrow> ('o, 'w) proc_state \<Rightarrow> ('o, 'w) proc_state" where
  "note_kernel c s = s\<lparr>ps_calls := ps_calls s @ [c]\<rparr>"

definition set_proc :: "nat \<Rightarrow> 'o process \<Rightarrow> ('o, 'w) proc_state \<Rightarrow> ('o, 'w) proc_state" where
  "set_proc p P s = s\<lparr>ps_proc := (ps_proc s)(p := P)\<rparr>"

definition set_thread :: "nat \<Rightarrow> 'o user_thread \<Rightarrow> ('o, 'w) proc_state \<Rightarrow> ('o, 'w) proc_state" where
  "set_thread t T s = s\<lparr>ps_thread := (ps_thread s)(t := T)\<rparr>"

section \<open>Killing threads\<close>

definition UserThread_SetState :: "nat \<Rightarrow> user_thread_state \<Rightarrow> ('o, 'w) proc_state \<Rightarrow> ('o, 'w) proc_state" where
  "UserThread_SetState t state s = set_thread t ((ps_thread s t)\<lparr>ut_state := state\<rparr>) s"

definition UserThread_Kill :: "nat \<Rightarrow> ('o, 'w) proc_state \<Rightarrow> ('o, 'w) proc_state" where
  "UserThread_Kill t s =
     (if ut_state (ps_thread s t) = T_DYING \<or> ut_state (ps_thread s t) = T_DEAD then s
      else UserThread_SetState t T_DYING (note_kernel (Thread_Kill t) s))"

definition DispatcherClosed :: "nat \<Rightarrow> ('o, 'w) proc_state \<Rightarrow> ('o, 'w) proc_state" where
  "DispatcherClosed t s = UserThread_Kill t s"

fun kill_threads :: "nat list \<Rightarrow> ('o, 'w) proc_state \<Rightarrow> ('o, 'w) proc_state" where
  "kill_threads [] s = s"
| "kill_threads (t # ts) s = kill_threads ts (UserThread_Kill t s)"

definition KillAllThreads :: "nat \<Rightarrow> ('o, 'w) proc_state \<Rightarrow> ('o, 'w) proc_state" where
  "KillAllThreads p s = kill_threads (pr_thread_list (ps_proc s p)) s"

section \<open>The state of a process\<close>

text \<open>The transition to \<^verbatim>\<open>DEAD\<close>: the handles are deleted, the address space goes, the waiters are told.\<close>

definition process_died :: "('o, 'w) observer_ops \<Rightarrow> nat \<Rightarrow> ('o, 'w) proc_state \<Rightarrow> ('o, 'w) proc_state option" where
  "process_died ops p s = do {
     hs \<leftarrow> clean_handle_table p (ps_hs s);
     let s = note_kernel (Aspace_Destroy p) (s\<lparr>ps_hs := hs\<rparr>);
     (tr, w) \<leftarrow> UpdateSatisfied ops MX_SIGNAL_SIGNALED 0 (pr_state_tracker (ps_proc s p)) (ps_world s);
     let s = set_proc p ((ps_proc s p)\<lparr>pr_state_tracker := tr\<rparr>) (s\<lparr>ps_world := w\<rparr>);
     Some (case pr_exception_port (ps_proc s p) of None \<Rightarrow> s | Some port \<Rightarrow> note_kernel (On_Process_Exit p port) s)
   }"

definition Process_SetState ::
  "('o, 'w) observer_ops \<Rightarrow> nat \<Rightarrow> process_state \<Rightarrow> ('o, 'w) proc_state \<Rightarrow> ('o, 'w) proc_state option" where
  "Process_SetState ops p state s = do {
     kassert (\<not> (pr_state (ps_proc s p) = P_DEAD \<and> state \<noteq> P_DEAD));
     if state = pr_state (ps_proc s p) then Some s
     else do {
       let s = set_proc p ((ps_proc s p)\<lparr>pr_state := state\<rparr>) s;
       if state = P_DYING then Some (KillAllThreads p s)
       else if state = P_DEAD then process_died ops p s
       else Some s
     }
   }"

section \<open>The threads of a process\<close>

definition AddThread :: "nat \<Rightarrow> nat \<Rightarrow> ('o, 'w) proc_state \<Rightarrow> (status \<times> ('o, 'w) proc_state) option" where
  "AddThread p t s =
     (if pr_state (ps_proc s p) = P_DYING \<or> pr_state (ps_proc s p) = P_DEAD then Some (ERR_BAD_STATE, s)
      else do {
        kassert (ut_process (ps_thread s t) = p);
        Some (NO_ERROR, set_proc p ((ps_proc s p)\<lparr>pr_thread_list := pr_thread_list (ps_proc s p) @ [t]\<rparr>) s)
      })"

definition RemoveThread :: "('o, 'w) observer_ops \<Rightarrow> nat \<Rightarrow> nat \<Rightarrow> ('o, 'w) proc_state \<Rightarrow> ('o, 'w) proc_state option" where
  "RemoveThread ops p t s = do {
     let P = ps_proc s p;
     kassert (t \<in> set (pr_thread_list P));
     let P = P\<lparr>pr_thread_list := remove1 t (pr_thread_list P),
               pr_main_thread := (if pr_main_thread P = Some t then None else pr_main_thread P)\<rparr>;
     let s = set_proc p P s;
     if pr_thread_list P = [] then Process_SetState ops p P_DEAD s else Some s
   }"

text \<open>\<^verbatim>\<open>Exiting\<close>, which the kernel calls in the context of a thread that is about to stop.\<close>

definition Exiting :: "('o, 'w) observer_ops \<Rightarrow> nat \<Rightarrow> ('o, 'w) proc_state \<Rightarrow> ('o, 'w) proc_state option" where
  "Exiting ops t s = do {
     kassert (ut_state (ps_thread s t) = T_DYING);
     (tr, w) \<leftarrow> UpdateSatisfied ops MX_SIGNAL_SIGNALED 0 (ut_state_tracker (ps_thread s t)) (ps_world s);
     let s = set_thread t ((ps_thread s t)\<lparr>ut_state_tracker := tr\<rparr>) (s\<lparr>ps_world := w\<rparr>);
     let s = (case ut_exception_port (ps_thread s t) of None \<Rightarrow> s | Some port \<Rightarrow> note_kernel (On_Thread_Exit t port) s);
     s \<leftarrow> RemoveThread ops (ut_process (ps_thread s t)) t s;
     Some (UserThread_SetState t T_DEAD s)
   }"

definition UserThread_Initialize :: "bool \<Rightarrow> nat \<Rightarrow> ('o, 'w) proc_state \<Rightarrow> (status \<times> ('o, 'w) proc_state) option" where
  "UserThread_Initialize created t s = do {
     kassert (ut_state (ps_thread s t) = T_INITIAL);
     if \<not> created then Some (ERR_NO_MEMORY, s)
     else Some (NO_ERROR, UserThread_SetState t T_INITIALIZED (note_kernel (Thread_Create t) s))
   }"

definition UserThread_Start :: "nat \<Rightarrow> ('o, 'w) proc_state \<Rightarrow> ('o, 'w) proc_state option" where
  "UserThread_Start t s = do {
     kassert (ut_state (ps_thread s t) = T_INITIALIZED);
     (ret, s) \<leftarrow> AddThread (ut_process (ps_thread s t)) t s;
     kassert (ret = NO_ERROR);
     Some (note_kernel (Thread_Resume t) (UserThread_SetState t T_RUNNING s))
   }"

text \<open>\<^verbatim>\<open>Exit\<close> ends in \<^verbatim>\<open>thread_exit\<close>, which comes back in \<open>Exiting\<close>.\<close>

definition UserThread_Exit :: "('o, 'w) observer_ops \<Rightarrow> nat \<Rightarrow> ('o, 'w) proc_state \<Rightarrow> ('o, 'w) proc_state option" where
  "UserThread_Exit ops t s = do {
     kassert (ut_state (ps_thread s t) = T_RUNNING \<or> ut_state (ps_thread s t) = T_DYING);
     Exiting ops t (note_kernel (Thread_Exit t) (UserThread_SetState t T_DYING s))
   }"

definition UserThread_new :: "mx_koid \<Rightarrow> nat \<Rightarrow> 'o user_thread" where
  "UserThread_new koid p = \<lparr>ut_koid = koid, ut_state = T_INITIAL, ut_process = p,
     ut_state_tracker = StateTracker True \<lparr>satisfied = 0, satisfiable = MX_SIGNAL_SIGNALED\<rparr>, ut_exception_port = None\<rparr>"

text \<open>
  The destructor of a thread, which runs when the last reference to it goes; \<open>cur\<close> is the running thread. The thread that
  \<^verbatim>\<open>CreateUserThread\<close> could not initialise loses its only reference when the function returns.
\<close>

definition UserThread_destroy :: "nat option \<Rightarrow> nat \<Rightarrow> ('o, 'w) proc_state \<Rightarrow> ('o, 'w) proc_state option" where
  "UserThread_destroy cur t s = do {
     kassert (ut_state (ps_thread s t) = T_DEAD);
     kassert (cur \<noteq> Some t);
     Some (note_kernel (Free_User_Stack t) (note_kernel (Thread_Join t) s))
   }"

definition CreateUserThread :: "bool \<Rightarrow> bool \<Rightarrow> nat \<Rightarrow> nat \<Rightarrow> ('o, 'w) proc_state \<Rightarrow> (status \<times> ('o, 'w) proc_state) option" where
  "CreateUserThread alloc_ok created p t s =
     (let (koid, hs) = GenerateKernelObjectId (ps_hs s); s = s\<lparr>ps_hs := hs\<rparr>
      in if \<not> alloc_ok then Some (ERR_NO_MEMORY, s)
         else do {
           (result, s) \<leftarrow> UserThread_Initialize created t (set_thread t (UserThread_new koid p) s);
           if result \<noteq> NO_ERROR then do { s \<leftarrow> UserThread_destroy None t s; Some (result, s) } else Some (NO_ERROR, s)
         })"

section \<open>Starting, leaving and killing a process\<close>

definition Process_new :: "'o process" where
  "Process_new = \<lparr>pr_state = P_INITIAL, pr_retcode = 0, pr_thread_list = [], pr_main_thread = None,
     pr_state_tracker = StateTracker True \<lparr>satisfied = 0, satisfiable = MX_SIGNAL_SIGNALED\<rparr>, pr_exception_port = None, pr_entry = 0\<rparr>"

definition ProcessDispatcher_Create :: "bool \<Rightarrow> bool \<Rightarrow> u32 \<Rightarrow> nat \<Rightarrow> ('o, 'w) proc_state \<Rightarrow> (status + mx_rights) \<times> ('o, 'w) proc_state" where
  "ProcessDispatcher_Create alloc_ok aspace_ok rnd p s =
     (if \<not> alloc_ok then (Inl ERR_NO_MEMORY, s)
      else let s = set_proc p Process_new (s\<lparr>ps_hs := ProcessDispatcher_new rnd p (ps_hs s)\<rparr>)
           in if \<not> aspace_ok then (Inl ERR_NO_MEMORY, s) else (Inr kDefaultProcessRights, s))"

text \<open>The destructor, which takes the process out of the system.\<close>

definition ProcessDispatcher_destroy :: "nat \<Rightarrow> ('o, 'w) proc_state \<Rightarrow> ('o, 'w) proc_state option" where
  "ProcessDispatcher_destroy p s = do {
     kassert (pr_state (ps_proc s p) = P_INITIAL \<or> pr_state (ps_proc s p) = P_DEAD);
     P \<leftarrow> hs_proc (ps_hs s) p;
     kassert (ph_handles P = []);
     Some (s\<lparr>ps_hs := (ps_hs s)\<lparr>hs_proc := (hs_proc (ps_hs s))(p := None)\<rparr>\<rparr>)
   }"

definition Process_Start ::
  "('o, 'w) observer_ops \<Rightarrow> bool \<Rightarrow> bool \<Rightarrow> nat \<Rightarrow> nat \<Rightarrow> nat \<Rightarrow> ('o, 'w) proc_state \<Rightarrow> (status \<times> ('o, 'w) proc_state) option" where
  "Process_Start ops alloc_ok created t entry p s = do {
     kassert (pr_state (ps_proc s p) = P_INITIAL);
     let s = (if entry \<noteq> 0 then set_proc p ((ps_proc s p)\<lparr>pr_entry := entry\<rparr>) s else s);
     (result, s) \<leftarrow> CreateUserThread alloc_ok created p t s;
     if result \<noteq> NO_ERROR
     then do { s \<leftarrow> Process_SetState ops p P_DEAD s; Some (result, s) }
     else do {
       s \<leftarrow> Process_SetState ops p P_RUNNING (set_proc p ((ps_proc s p)\<lparr>pr_main_thread := Some t\<rparr>) s);
       s \<leftarrow> UserThread_Start t s;
       Some (NO_ERROR, s)
     }
   }"

text \<open>\<open>t\<close> is the current thread.\<close>

definition Process_Exit ::
  "('o, 'w) observer_ops \<Rightarrow> nat \<Rightarrow> int \<Rightarrow> nat \<Rightarrow> ('o, 'w) proc_state \<Rightarrow> ('o, 'w) proc_state option" where
  "Process_Exit ops t retcode p s = do {
     kassert (pr_state (ps_proc s p) = P_RUNNING);
     s \<leftarrow> Process_SetState ops p P_DYING (set_proc p ((ps_proc s p)\<lparr>pr_retcode := retcode\<rparr>) s);
     UserThread_Exit ops t s
   }"

definition Process_Kill :: "('o, 'w) observer_ops \<Rightarrow> nat \<Rightarrow> ('o, 'w) proc_state \<Rightarrow> ('o, 'w) proc_state option" where
  "Process_Kill ops p s =
     (if pr_state (ps_proc s p) = P_DEAD then Some s
      else do {
        s \<leftarrow> (if pr_state (ps_proc s p) \<noteq> P_DYING
              then do { kassert (pr_retcode (ps_proc s p) = 0); Some (set_proc p ((ps_proc s p)\<lparr>pr_retcode := -1\<rparr>) s) }
              else Some s);
        Process_SetState ops p (if pr_thread_list (ps_proc s p) = [] then P_DEAD else P_DYING) s
      })"

definition Process_SetExceptionPort :: "nat \<Rightarrow> nat \<Rightarrow> ('o, 'w) proc_state \<Rightarrow> status \<times> ('o, 'w) proc_state" where
  "Process_SetExceptionPort p port s =
     (if pr_state (ps_proc s p) = P_DEAD then (ERR_NOT_FOUND, s)
      else if pr_exception_port (ps_proc s p) \<noteq> None then (ERR_BAD_STATE, s)
      else (NO_ERROR, set_proc p ((ps_proc s p)\<lparr>pr_exception_port := Some port\<rparr>) s))"

definition Process_ResetExceptionPort :: "nat \<Rightarrow> ('o, 'w) proc_state \<Rightarrow> ('o, 'w) proc_state" where
  "Process_ResetExceptionPort p s = set_proc p ((ps_proc s p)\<lparr>pr_exception_port := None\<rparr>) s"

definition UserThread_SetExceptionPort :: "nat \<Rightarrow> nat \<Rightarrow> ('o, 'w) proc_state \<Rightarrow> status \<times> ('o, 'w) proc_state" where
  "UserThread_SetExceptionPort t port s =
     (if ut_state (ps_thread s t) = T_DEAD then (ERR_NOT_FOUND, s)
      else if ut_exception_port (ps_thread s t) \<noteq> None then (ERR_BAD_STATE, s)
      else (NO_ERROR, set_thread t ((ps_thread s t)\<lparr>ut_exception_port := Some port\<rparr>) s))"

definition UserThread_ResetExceptionPort :: "nat \<Rightarrow> ('o, 'w) proc_state \<Rightarrow> ('o, 'w) proc_state" where
  "UserThread_ResetExceptionPort t s = set_thread t ((ps_thread s t)\<lparr>ut_exception_port := None\<rparr>) s"

definition LookupThreadById :: "nat \<Rightarrow> mx_koid \<Rightarrow> ('o, 'w) proc_state \<Rightarrow> nat option" where
  "LookupThreadById p koid s = find (\<lambda>t. ut_koid (ps_thread s t) = koid) (pr_thread_list (ps_proc s p))"

section \<open>System calls on processes and threads\<close>

definition sys_process_create ::
  "bool \<Rightarrow> bool \<Rightarrow> bool \<Rightarrow> u32 \<Rightarrow> nat \<Rightarrow> nat \<Rightarrow> ('o, 'w) proc_state \<Rightarrow> ((status + u32) \<times> ('o, 'w) proc_state) option" where
  "sys_process_create name_ok alloc_ok aspace_ok rnd p up s =
     (if \<not> name_ok then Some (Inl ERR_INVALID_ARGS, s)
      else case ProcessDispatcher_Create alloc_ok aspace_ok rnd p s of
             (Inl st, s) \<Rightarrow> Some (Inl st, s)
           | (Inr rights, s) \<Rightarrow> do { (r, hs) \<leftarrow> install_handle up p rights (ps_hs s); Some (r, s\<lparr>ps_hs := hs\<rparr>) })"

text \<open>
  \<^verbatim>\<open>sys_process_start\<close>: the test is on the argument's value, not on the handle it should have given. \<open>is_process\<close> is the dispatcher's downcast.
\<close>

definition sys_process_start ::
  "('o, 'w) observer_ops \<Rightarrow> (nat \<Rightarrow> bool) \<Rightarrow> bool \<Rightarrow> bool \<Rightarrow> nat \<Rightarrow> nat \<Rightarrow> u32 \<Rightarrow> u32 \<Rightarrow> nat \<Rightarrow> ('o, 'w) proc_state \<Rightarrow>
   (status \<times> ('o, 'w) proc_state) option" where
  "sys_process_start ops is_process alloc_ok created t entry v arg up s = do {
     r \<leftarrow> GetDispatcher up v (ps_hs s);
     case r of
       None \<Rightarrow> do { (st, hs) \<leftarrow> BadHandle up (ps_hs s); Some (st, s\<lparr>ps_hs := hs\<rparr>) }
     | Some (p, rights) \<Rightarrow>
         if \<not> is_process p then Some (ERR_WRONG_TYPE, s)
         else do {
           (arg_handle, hs) \<leftarrow> RemoveHandle up arg (ps_hs s);
           if arg = 0 then Some (ERR_INVALID_ARGS, s\<lparr>ps_hs := hs\<rparr>)
           else do {
             h \<leftarrow> arg_handle;
             hs \<leftarrow> AddHandle p h hs;
             Process_Start ops alloc_ok created t entry p (s\<lparr>ps_hs := hs\<rparr>)
           }
         }
   }"

definition kDefaultThreadRights :: mx_rights where
  "kDefaultThreadRights = MX_RIGHT_READ OR MX_RIGHT_DUPLICATE OR MX_RIGHT_TRANSFER"

definition sys_thread_create ::
  "bool \<Rightarrow> bool \<Rightarrow> bool \<Rightarrow> bool \<Rightarrow> nat \<Rightarrow> nat \<Rightarrow> nat \<Rightarrow> ('o, 'w) proc_state \<Rightarrow> ((status + u32) \<times> ('o, 'w) proc_state) option" where
  "sys_thread_create name_ok alloc_ok created disp_ok d t up s =
     (if \<not> name_ok then Some (Inl ERR_INVALID_ARGS, s)
      else do {
        (result, s) \<leftarrow> CreateUserThread alloc_ok created up t s;
        if result \<noteq> NO_ERROR then Some (Inl result, s)
        else do {
          s \<leftarrow> UserThread_Start t s;
          if \<not> disp_ok then Some (Inl ERR_NO_MEMORY, s)
          else do {
            (r, hs) \<leftarrow> install_handle up d kDefaultThreadRights (Dispatcher_new d MX_OBJ_TYPE_THREAD True (ps_hs s));
            Some (r, s\<lparr>ps_hs := hs\<rparr>)
          }
        }
      })"

section \<open>The invariant of a process\<close>

abbreviation threads_of :: "nat \<Rightarrow> ('o, 'w) proc_state \<Rightarrow> nat list" where
  "threads_of p s \<equiv> pr_thread_list (ps_proc s p)"

abbreviation thread_obs :: "('o, 'w) proc_state \<Rightarrow> nat \<Rightarrow> 'o set" where
  "thread_obs s t \<equiv> set (st_observers (ut_state_tracker (ps_thread s t)))"

abbreviation proc_obs :: "('o, 'w) proc_state \<Rightarrow> nat \<Rightarrow> 'o set" where
  "proc_obs s p \<equiv> set (st_observers (pr_state_tracker (ps_proc s p)))"

text \<open>
  The threads of the list are different, belong to the process and are running or on their way out. The process and its threads have
  different observers, all of them informed.
\<close>

definition threads_ok :: "('o \<Rightarrow> 'w \<Rightarrow> bool) \<Rightarrow> ('o \<Rightarrow> signals_state \<Rightarrow> 'w \<Rightarrow> bool) \<Rightarrow> nat \<Rightarrow> ('o, 'w) proc_state \<Rightarrow> bool" where
  "threads_ok att infd p s \<longleftrightarrow> distinct (threads_of p s) \<and> tracker_ok att infd (pr_state_tracker (ps_proc s p)) (ps_world s) \<and>
     (\<forall>t\<in>set (threads_of p s). ut_process (ps_thread s t) = p \<and> ut_state (ps_thread s t) \<in> {T_RUNNING, T_DYING} \<and>
        tracker_ok att infd (ut_state_tracker (ps_thread s t)) (ps_world s) \<and> thread_obs s t \<inter> proc_obs s p = {} \<and>
        (\<forall>t'\<in>set (threads_of p s). t' \<noteq> t \<longrightarrow> thread_obs s t \<inter> thread_obs s t' = {}))"

definition system_ok :: "('w \<Rightarrow> bool) \<Rightarrow> nat \<Rightarrow> ('o, 'w) proc_state \<Rightarrow> bool" where
  "system_ok winv p s \<longleftrightarrow> winv (ps_world s) \<and> hs_inv (ps_hs s) \<and> (\<exists>H. hs_proc (ps_hs s) p = Some H)"

definition dying_ok :: "('w \<Rightarrow> bool) \<Rightarrow> ('o \<Rightarrow> 'w \<Rightarrow> bool) \<Rightarrow> ('o \<Rightarrow> signals_state \<Rightarrow> 'w \<Rightarrow> bool) \<Rightarrow> nat \<Rightarrow> ('o, 'w) proc_state \<Rightarrow> bool" where
  "dying_ok winv att infd p s \<longleftrightarrow> system_ok winv p s \<and> threads_ok att infd p s \<and> pr_state (ps_proc s p) = P_DYING \<and> threads_of p s \<noteq> [] \<and>
     (\<forall>t\<in>set (threads_of p s). ut_state (ps_thread s t) = T_DYING)"

text \<open>A dead process: no threads, no handles, and whoever waits for it has been told.\<close>

definition dead_ok :: "('w \<Rightarrow> bool) \<Rightarrow> ('o \<Rightarrow> 'w \<Rightarrow> bool) \<Rightarrow> ('o \<Rightarrow> signals_state \<Rightarrow> 'w \<Rightarrow> bool) \<Rightarrow> nat \<Rightarrow> ('o, 'w) proc_state \<Rightarrow> bool" where
  "dead_ok winv att infd p s \<longleftrightarrow> system_ok winv p s \<and> pr_state (ps_proc s p) = P_DEAD \<and> threads_of p s = [] \<and>
     (\<exists>H. hs_proc (ps_hs s) p = Some H \<and> ph_handles H = []) \<and> bit (satisfied (st_signals (pr_state_tracker (ps_proc s p)))) 3 \<and>
     tracker_ok att infd (pr_state_tracker (ps_proc s p)) (ps_world s)"

section \<open>What may happen to a process\<close>

datatype process_action = Act_Exit nat | Act_Kill | Act_Add nat | Act_Port nat | Act_Env

text \<open>
  One of its threads exits, someone kills it, a thread tries to join, an exception port is set; or anything else in the system happens that
  leaves the process and its threads alone and their observers informed.
\<close>

definition process_step ::
  "('o, 'w) observer_ops \<Rightarrow> ('w \<Rightarrow> bool) \<Rightarrow> ('o \<Rightarrow> 'w \<Rightarrow> bool) \<Rightarrow> ('o \<Rightarrow> signals_state \<Rightarrow> 'w \<Rightarrow> bool) \<Rightarrow> nat \<Rightarrow> process_action \<Rightarrow>
   ('o, 'w) proc_state \<Rightarrow> ('o, 'w) proc_state \<Rightarrow> bool" where
  "process_step ops winv att infd p act s s' \<longleftrightarrow>
     (case act of
        Act_Exit t \<Rightarrow> t \<in> set (threads_of p s) \<and> Exiting ops t s = Some s'
      | Act_Kill \<Rightarrow> Process_Kill ops p s = Some s'
      | Act_Add t \<Rightarrow> (\<exists>st. AddThread p t s = Some (st, s'))
      | Act_Port port \<Rightarrow> s' = snd (Process_SetExceptionPort p port s)
      | Act_Env \<Rightarrow> system_ok winv p s' \<and> ps_proc s' p = ps_proc s p \<and>
          (\<forall>t\<in>set (threads_of p s). ps_thread s' t = ps_thread s t) \<and>
          (\<forall>ob\<in>proc_obs s p \<union> (\<Union>t\<in>set (threads_of p s). thread_obs s t). keeps_observer att infd ob (ps_world s) (ps_world s')))"

lemma set_proc_sel [simp]:
  "ps_proc (set_proc p P s) = (ps_proc s)(p := P)" "ps_thread (set_proc p P s) = ps_thread s" "ps_hs (set_proc p P s) = ps_hs s"
  "ps_world (set_proc p P s) = ps_world s"
  "ps_thread (set_thread t T s) = (ps_thread s)(t := T)" "ps_proc (set_thread t T s) = ps_proc s" "ps_hs (set_thread t T s) = ps_hs s"
  "ps_world (set_thread t T s) = ps_world s"
  "ps_proc (note_kernel c s) = ps_proc s" "ps_thread (note_kernel c s) = ps_thread s" "ps_hs (note_kernel c s) = ps_hs s"
  "ps_world (note_kernel c s) = ps_world s"
  by (simp_all add: set_proc_def set_thread_def note_kernel_def)

text \<open>What an operation leaves alone when it only touches the state of threads.\<close>

lemma kill_threads_effect:
  "ps_proc (kill_threads ts s) = ps_proc s" "ps_hs (kill_threads ts s) = ps_hs s" "ps_world (kill_threads ts s) = ps_world s"
  "ps_thread (kill_threads ts s) t = (ps_thread s t)\<lparr>ut_state :=
     (if t \<in> set ts \<and> ut_state (ps_thread s t) \<noteq> T_DEAD then T_DYING else ut_state (ps_thread s t))\<rparr>"
  by (induction ts arbitrary: s) (auto simp: UserThread_Kill_def UserThread_SetState_def)

context state_observer
begin

lemma process_died_ok:
  assumes s: "system_ok inv p s" and tr: "tracked (pr_state_tracker (ps_proc s p)) (ps_world s)"
    and st: "pr_state (ps_proc s p) = P_DEAD" "threads_of p s = []"
  shows "\<exists>s'. process_died ops p s = Some s' \<and> dead_ok inv attached informed p s' \<and> ps_thread s' = ps_thread s"
proof -
  obtain H where H: "hs_proc (ps_hs s) p = Some H" "hs_inv (ps_hs s)" "inv (ps_world s)" using s by (auto simp: system_ok_def)
  obtain hs where hs: "clean_handle_table p (ps_hs s) = Some hs" "hs_inv hs" "hs_proc hs p = Some (H\<lparr>ph_handles := []\<rparr>)"
    using clean_handle_table_ok [OF H(2,1)] by auto
  obtain tr' w' where u: "UpdateState ops MX_SIGNAL_SIGNALED 0 0 0 (pr_state_tracker (ps_proc s p)) (ps_world s) = Some (tr', w')" "inv w'"
    "tracked tr' w'" "st_signals tr' = update_signals MX_SIGNAL_SIGNALED 0 0 0 (st_signals (pr_state_tracker (ps_proc s p)))"
    using UpdateState_tracked [OF H(3) tr] by blast
  have "bit (satisfied (st_signals tr')) 3" by (simp add: u(4))
  then show ?thesis using hs u(1-3) st
    by (cases "pr_exception_port (ps_proc s p)") (simp_all add: process_died_def UpdateSatisfied_def dead_ok_def system_ok_def Let_def)
qed

lemma Exiting_ok:
  assumes d: "dying_ok inv attached informed p s" and t: "t \<in> set (threads_of p s)"
  shows "\<exists>s'. Exiting ops t s = Some s' \<and> threads_of p s' = remove1 t (threads_of p s) \<and>
    (if remove1 t (threads_of p s) = [] then dead_ok inv attached informed p s' else dying_ok inv attached informed p s')"
proof -
  have sys: "system_ok inv p s" and th: "threads_ok attached informed p s" and st: "pr_state (ps_proc s p) = P_DYING"
    and dy: "\<And>t'. t' \<in> set (threads_of p s) \<Longrightarrow> ut_state (ps_thread s t') = T_DYING" using d by (auto simp: dying_ok_def)
  have tp: "ut_process (ps_thread s t) = p" "tracked (ut_state_tracker (ps_thread s t)) (ps_world s)" using th t by (auto simp: threads_ok_def)
  have "inv (ps_world s)" using sys by (simp add: system_ok_def)
  from UpdateState_tracked [OF this tp(2), of MX_SIGNAL_SIGNALED 0 0 0] obtain tr w where
    u: "UpdateState ops MX_SIGNAL_SIGNALED 0 0 0 (ut_state_tracker (ps_thread s t)) (ps_world s) = Some (tr, w)" "inv w"
      "\<And>q. q \<notin> thread_obs s t \<Longrightarrow> keeps q (ps_world s) w" by blast
  define s1 where "s1 = set_thread t ((ps_thread s t)\<lparr>ut_state_tracker := tr\<rparr>) (s\<lparr>ps_world := w\<rparr>)"
  define s2 where "s2 = (case ut_exception_port (ps_thread s1 t) of None \<Rightarrow> s1 | Some port \<Rightarrow> note_kernel (On_Thread_Exit t port) s1)"
  define P where "P = (ps_proc s p)\<lparr>pr_thread_list := remove1 t (threads_of p s),
    pr_main_thread := (if pr_main_thread (ps_proc s p) = Some t then None else pr_main_thread (ps_proc s p))\<rparr>"
  have s2: "ps_proc s2 = ps_proc s" "ps_hs s2 = ps_hs s" "ps_world s2 = w" "\<And>x. x \<noteq> t \<Longrightarrow> ps_thread s2 x = ps_thread s x"
    "ut_process (ps_thread s2 t) = p"
    by (simp_all add: s2_def s1_def tp(1) split: option.splits)
  have E: "Exiting ops t s = RemoveThread ops p t s2 \<bind> (\<lambda>s. Some (UserThread_SetState t T_DEAD s))"
    using dy [OF t] u(1) tp(1)
    by (cases "ut_exception_port (ps_thread s t)") (simp_all add: Exiting_def UpdateSatisfied_def s1_def s2_def)
  have R: "RemoveThread ops p t s2 =
    (if remove1 t (threads_of p s) = [] then Process_SetState ops p P_DEAD (set_proc p P s2) else Some (set_proc p P s2))"
    unfolding RemoveThread_def Let_def s2(1) P_def [symmetric] using t by (simp add: P_def)
  have ptr: "tracked (pr_state_tracker (ps_proc s p)) w"
  proof (rule tracker_ok_keeps)
    show "tracked (pr_state_tracker (ps_proc s p)) (ps_world s)" using th by (simp add: threads_ok_def)
    show "keeps q (ps_world s) w" if "q \<in> proc_obs s p" for q using that t th u(3) unfolding threads_ok_def by blast
  qed
  have sys2: "system_ok inv p (set_proc p Q s2)" for Q using sys u(2) by (simp add: system_ok_def s2)
  show ?thesis
  proof (cases "remove1 t (threads_of p s) = []")
    case True
    let ?s = "set_proc p (P\<lparr>pr_state := P_DEAD\<rparr>) s2"
    obtain s3 where s3: "process_died ops p ?s = Some s3" "dead_ok inv attached informed p s3"
      using process_died_ok [OF sys2, of "P\<lparr>pr_state := P_DEAD\<rparr>"] ptr True by (auto simp: P_def s2(3))
    have "Process_SetState ops p P_DEAD (set_proc p P s2) = Some s3"
      using st s3(1) by (simp add: Process_SetState_def P_def set_proc_def)
    then have "RemoveThread ops p t s2 = Some s3" using R True by simp
    then show ?thesis using E True s3(2) by (auto simp: UserThread_SetState_def dead_ok_def system_ok_def)
  next
    case False
    have "RemoveThread ops p t s2 = Some (set_proc p P s2)" using R False by simp
    moreover have "dying_ok inv attached informed p (UserThread_SetState t T_DEAD (set_proc p P s2))"
    proof -
      let ?s = "UserThread_SetState t T_DEAD (set_proc p P s2)"
      have dist: "distinct (threads_of p s)" using th by (simp add: threads_ok_def)
      have sel: "pr_thread_list P = remove1 t (threads_of p s)" "pr_state_tracker P = pr_state_tracker (ps_proc s p)" "pr_state P = P_DYING"
        by (simp_all add: P_def st)
      have thr: "ps_thread ?s x = ps_thread s x" if "x \<in> set (remove1 t (threads_of p s))" for x
        using that dist s2(4) by (auto simp: UserThread_SetState_def)
      have trk: "tracked (ut_state_tracker (ps_thread s x)) w" if "x \<in> set (remove1 t (threads_of p s))" for x
      proof (rule tracker_ok_keeps)
        have x: "x \<in> set (threads_of p s)" "x \<noteq> t" using that dist by auto
        then show "tracked (ut_state_tracker (ps_thread s x)) (ps_world s)" using th by (simp add: threads_ok_def)
        show "keeps q (ps_world s) w" if "q \<in> thread_obs s x" for q using that x t th u(3) unfolding threads_ok_def by blast
      qed
      have "threads_ok attached informed p ?s"
      proof -
        have sub: "set (remove1 t (threads_of p s)) \<subseteq> set (threads_of p s)" by (rule set_remove1_subset)
        have sel': "ps_proc ?s p = P" "ps_world ?s = w" by (simp_all add: UserThread_SetState_def s2(3))
        show ?thesis
          unfolding threads_ok_def sel' sel(1,2)
          using th thr trk ptr distinct_remove1 [OF dist] sub unfolding threads_ok_def by (auto dest: subsetD)
      qed
      moreover have "\<forall>x\<in>set (remove1 t (threads_of p s)). ut_state (ps_thread ?s x) = T_DYING"
        using thr dy set_remove1_subset [of t "threads_of p s"] by auto
      ultimately show ?thesis using sys2 [of P] False sel(1,3)
        by (simp add: dying_ok_def UserThread_SetState_def system_ok_def)
    qed
    ultimately show ?thesis using E False by (simp add: UserThread_SetState_def P_def)
  qed
qed

text \<open>Only the exit of a thread changes the threads of a dying process.\<close>

lemma dying_step:
  assumes d: "dying_ok inv attached informed p s" and st: "process_step ops inv attached informed p act s s'" and act: "\<And>t. act \<noteq> Act_Exit t"
  shows "dying_ok inv attached informed p s' \<and> threads_of p s' = threads_of p s"
proof (cases act)
  case Act_Kill
  then show ?thesis using d st by (simp add: process_step_def Process_Kill_def Process_SetState_def dying_ok_def)
next
  case (Act_Add t)
  then show ?thesis using d st by (auto simp: process_step_def AddThread_def dying_ok_def)
next
  case (Act_Port port)
  then show ?thesis using d st
    by (auto simp: process_step_def Process_SetExceptionPort_def dying_ok_def system_ok_def threads_ok_def)
next
  case Act_Env
  have th: "threads_ok attached informed p s" using d by (simp add: dying_ok_def)
  have e: "system_ok inv p s'" "ps_proc s' p = ps_proc s p" "\<And>t. t \<in> set (threads_of p s) \<Longrightarrow> ps_thread s' t = ps_thread s t"
    "\<And>ob. ob \<in> proc_obs s p \<Longrightarrow> keeps ob (ps_world s) (ps_world s')"
    "\<And>ob t. t \<in> set (threads_of p s) \<Longrightarrow> ob \<in> thread_obs s t \<Longrightarrow> keeps ob (ps_world s) (ps_world s')"
    using st Act_Env by (auto simp: process_step_def)
  have "tracked (pr_state_tracker (ps_proc s p)) (ps_world s')"
    using th e(4) by (intro tracker_ok_keeps [of _ _ _ "ps_world s" "ps_world s'"]) (simp_all add: threads_ok_def)
  moreover have "tracked (ut_state_tracker (ps_thread s t)) (ps_world s')" if "t \<in> set (threads_of p s)" for t
    using th that e(5) by (intro tracker_ok_keeps [of _ _ _ "ps_world s" "ps_world s'"]) (simp_all add: threads_ok_def)
  ultimately have "threads_ok attached informed p s'" using th e(2,3) unfolding threads_ok_def by simp
  then show ?thesis using d e(1-3) by (simp add: dying_ok_def)
qed (use act in simp)

lemma dying_until_exit:
  assumes run: "\<And>i. process_step ops inv attached informed p (\<alpha> i) (\<sigma> i) (\<sigma> (Suc i))"
    and d: "dying_ok inv attached informed p (\<sigma> i)" and no: "\<And>k t. i \<le> k \<Longrightarrow> k < j \<Longrightarrow> \<alpha> k \<noteq> Act_Exit t" and ij: "i \<le> j"
  shows "dying_ok inv attached informed p (\<sigma> j) \<and> threads_of p (\<sigma> j) = threads_of p (\<sigma> i)"
  using ij no
proof (induction j rule: dec_induct)
  case (step n)
  have "dying_ok inv attached informed p (\<sigma> n) \<and> threads_of p (\<sigma> n) = threads_of p (\<sigma> i)" using step.IH step.prems by auto
  moreover have "\<alpha> n \<noteq> Act_Exit t" for t using step.prems [of n t] step.hyps by simp
  ultimately show ?case using dying_step [OF _ run [of n]] by metis
qed (use d in simp)

lemma dying_becomes_dead:
  assumes run: "\<And>i. process_step ops inv attached informed p (\<alpha> i) (\<sigma> i) (\<sigma> (Suc i))"
    and fair: "\<And>i t. t \<in> set (threads_of p (\<sigma> i)) \<Longrightarrow> \<exists>j\<ge>i. \<alpha> j = Act_Exit t"
    and d: "dying_ok inv attached informed p (\<sigma> i)"
  shows "\<exists>k. dead_ok inv attached informed p (\<sigma> k)"
  using d
proof (induction "length (threads_of p (\<sigma> i))" arbitrary: i rule: less_induct)
  case less
  have "threads_of p (\<sigma> i) \<noteq> []" using less.prems by (simp add: dying_ok_def)
  then obtain t0 where "t0 \<in> set (threads_of p (\<sigma> i))" by (cases "threads_of p (\<sigma> i)") auto
  then obtain j0 where j0: "i \<le> j0" "\<exists>t. \<alpha> j0 = Act_Exit t" using fair by blast
  define j where "j = (LEAST j. i \<le> j \<and> (\<exists>t. \<alpha> j = Act_Exit t))"
  have j: "i \<le> j" "\<exists>t. \<alpha> j = Act_Exit t" using LeastI [of "\<lambda>j. i \<le> j \<and> (\<exists>t. \<alpha> j = Act_Exit t)" j0] j0 by (auto simp: j_def)
  have "\<alpha> k \<noteq> Act_Exit t" if "i \<le> k" "k < j" for k t
    using not_less_Least [of k "\<lambda>j. i \<le> j \<and> (\<exists>t. \<alpha> j = Act_Exit t)"] that by (auto simp: j_def)
  then have dj: "dying_ok inv attached informed p (\<sigma> j)" "threads_of p (\<sigma> j) = threads_of p (\<sigma> i)"
    using dying_until_exit [OF run less.prems _ j(1)] by auto
  obtain t where t: "\<alpha> j = Act_Exit t" using j(2) by blast
  have e: "t \<in> set (threads_of p (\<sigma> j))" "Exiting ops t (\<sigma> j) = Some (\<sigma> (Suc j))" using run [of j] t by (simp_all add: process_step_def)
  have ex: "threads_of p (\<sigma> (Suc j)) = remove1 t (threads_of p (\<sigma> j))"
    "if remove1 t (threads_of p (\<sigma> j)) = [] then dead_ok inv attached informed p (\<sigma> (Suc j)) else dying_ok inv attached informed p (\<sigma> (Suc j))"
    using Exiting_ok [OF dj(1) e(1)] e(2) by auto
  show ?case
  proof (cases "remove1 t (threads_of p (\<sigma> j)) = []")
    case True
    then show ?thesis using ex(2) by auto
  next
    case False
    have "length (threads_of p (\<sigma> (Suc j))) < length (threads_of p (\<sigma> i))"
      using ex(1) e(1) dj(2) length_pos_if_in_set [OF e(1)] by (simp add: length_remove1)
    then show ?thesis using less.hyps False ex(2) by auto
  qed
qed

lemma Process_Kill_ok:
  assumes s: "system_ok inv p s" "threads_ok attached informed p s" "pr_state (ps_proc s p) = P_RUNNING" "threads_of p s \<noteq> []"
    and r: "pr_retcode (ps_proc s p) = 0"
  shows "\<exists>s'. Process_Kill ops p s = Some s' \<and> dying_ok inv attached informed p s' \<and> threads_of p s' = threads_of p s \<and>
    pr_retcode (ps_proc s' p) = -1"
proof -
  let ?P = "(ps_proc s p)\<lparr>pr_retcode := -1, pr_state := P_DYING\<rparr>"
  let ?s = "KillAllThreads p (set_proc p ?P s)"
  have "Process_Kill ops p s = Some ?s"
    using s(3,4) r by (simp add: Process_Kill_def Process_SetState_def set_proc_def)
  moreover have "ut_state (ps_thread s t) \<noteq> T_DEAD" if "t \<in> set (threads_of p s)" for t
    using s(2) that by (auto simp: threads_ok_def)
  then have "dying_ok inv attached informed p ?s"
    using s by (simp add: dying_ok_def system_ok_def threads_ok_def KillAllThreads_def kill_threads_effect)
  ultimately show ?thesis by (simp add: KillAllThreads_def kill_threads_effect)
qed

end

section \<open>Properties\<close>

abbreviation world_step :: "lk_time \<Rightarrow> cpu_env \<Rightarrow> bool \<Rightarrow> nat \<Rightarrow> process_action \<Rightarrow> (observer, world) proc_state \<Rightarrow> (observer, world) proc_state \<Rightarrow> bool" where
  "world_step base e alloc_ok \<equiv> process_step (world_ops e alloc_ok) (world_inv base e) obs_attached obs_informed"

text \<open>A dead process has nothing left that its destructor objects to.\<close>

lemma dead_destroy: "dead_ok winv att infd p s \<Longrightarrow> \<exists>s'. ProcessDispatcher_destroy p s = Some s'"
  by (auto simp: dead_ok_def ProcessDispatcher_destroy_def)

text \<open>
  A thread that can not be initialised is destroyed in its initial state, which its destructor does not allow: running out of
  memory there stops the kernel.
\<close>

lemma create_user_thread_failure_panics: "CreateUserThread True False p t s = None"
  by (simp add: CreateUserThread_def UserThread_Initialize_def UserThread_destroy_def UserThread_new_def GenerateKernelObjectId_def set_thread_def)

text \<open>
  C23: a killed process dies. Killing a running process returns and marks every thread of it for exit. From then on, in every run in which the threads it
  lists eventually exit, in whatever order and whatever else happens in the meantime (more kills, threads that try to join, exception
  ports, other parts of the system), the process reaches the dead state: it has no threads and no handles, and
  everyone who waits for its signal has been told; its destructor then passes.
\<close>

theorem killed_process_dies:
  assumes s: "system_ok (world_inv base e) p s" "threads_ok obs_attached obs_informed p s" "pr_state (ps_proc s p) = P_RUNNING"
      "threads_of p s \<noteq> []" "pr_retcode (ps_proc s p) = 0"
    and start: "Process_Kill (world_ops e alloc_ok) p s = Some (\<sigma> 0)"
    and run: "\<And>i. world_step base e alloc_ok p (\<alpha> i) (\<sigma> i) (\<sigma> (Suc i))"
    and fair: "\<And>i t. t \<in> set (threads_of p (\<sigma> i)) \<Longrightarrow> \<exists>j\<ge>i. \<alpha> j = Act_Exit t"
  shows "(\<forall>t\<in>set (threads_of p s). ut_state (ps_thread (\<sigma> 0) t) = T_DYING \<and> (\<exists>s'. Exiting (world_ops e alloc_ok) t (\<sigma> 0) = Some s')) \<and>
    (\<exists>k. dead_ok (world_inv base e) obs_attached obs_informed p (\<sigma> k) \<and> (\<exists>s'. ProcessDispatcher_destroy p (\<sigma> k) = Some s'))"
proof -
  have d: "dying_ok (world_inv base e) obs_attached obs_informed p (\<sigma> 0)" "threads_of p (\<sigma> 0) = threads_of p s"
    using obs.Process_Kill_ok [OF s, of alloc_ok] start by auto
  have "ut_state (ps_thread (\<sigma> 0) t) = T_DYING \<and> (\<exists>s'. Exiting (world_ops e alloc_ok) t (\<sigma> 0) = Some s')" if "t \<in> set (threads_of p s)" for t
    using obs.Exiting_ok [OF d(1), of t alloc_ok] that d by (auto simp: dying_ok_def)
  moreover have "\<exists>k. dead_ok (world_inv base e) obs_attached obs_informed p (\<sigma> k)"
    by (rule obs.dying_becomes_dead [OF run _ d(1)]) (rule fair)
  ultimately show ?thesis using dead_destroy by blast
qed

text \<open>Process 7 runs one thread, at address 20, and three observers wait for it.\<close>

definition running_process :: "handle_system \<Rightarrow> nat list \<Rightarrow> (observer, world) proc_state" where
  "running_process hs ts = \<lparr>ps_hs = hs, ps_proc = (\<lambda>_. Process_new\<lparr>pr_state := P_RUNNING, pr_thread_list := ts, pr_state_tracker := tracker0\<rparr>),
     ps_thread = (\<lambda>_. (UserThread_new 9 7)\<lparr>ut_state := T_RUNNING\<rparr>), ps_world = world0, ps_calls = []\<rparr>"

lemma running_process_ok:
  assumes "hs_inv hs" "hs_proc hs 7 = Some P" "distinct ts"
  shows "system_ok (world_inv 0 (env0 0)) 7 (running_process hs ts)" "threads_ok obs_attached obs_informed 7 (running_process hs ts)"
    "pr_state (ps_proc (running_process hs ts) 7) = P_RUNNING" "pr_retcode (ps_proc (running_process hs ts) 7) = 0"
    "threads_of 7 (running_process hs ts) = ts"
  using assms world0_inv tracker0_ok
  by (auto simp: system_ok_def threads_ok_def running_process_def UserThread_new_def Process_new_def StateTracker_def tracker_ok_def)

theorem killed_process_dies_witness:
  "\<exists>hs s1. Process_Kill (world_ops (env0 0) True) 7 (running_process hs [20]) = Some s1 \<and> ut_state (ps_thread s1 20) = T_DYING \<and>
     (\<exists>s2. Exiting (world_ops (env0 0) True) 20 s1 = Some s2 \<and> dead_ok (world_inv 0 (env0 0)) obs_attached obs_informed 7 s2)"
proof -
  obtain hs lim P where hs: "hs_reach hs lim" "hs_proc hs 7 = Some P" using sender_receiver_ex by blast
  let ?ops = "world_ops (env0 0) True" let ?s = "running_process hs [20]"
  have "hs_inv hs" using hs_reach_inv [OF hs(1)] by simp
  note ok = running_process_ok [OF this hs(2), of "[20]"]
  have ne: "threads_of 7 ?s \<noteq> []" using ok(5) by simp
  obtain s1 where s1: "Process_Kill ?ops 7 ?s = Some s1" "dying_ok (world_inv 0 (env0 0)) obs_attached obs_informed 7 s1" "threads_of 7 s1 = [20]"
    using obs.Process_Kill_ok [OF ok(1,2,3) ne ok(4), of True] ok(5) by auto
  obtain s2 where s2: "Exiting ?ops 20 s1 = Some s2" "threads_of 7 s2 = []" "pr_state (ps_proc s2 7) = P_DEAD"
    using obs.Exiting_ok [OF s1(2), of 20 True] s1(3) by (auto simp: dead_ok_def)
  let ?\<sigma> = "\<lambda>i :: nat. if i = 0 then s1 else s2" let ?\<alpha> = "\<lambda>i :: nat. if i = 0 then Act_Exit 20 else Act_Kill"
  have start: "Process_Kill ?ops 7 ?s = Some (?\<sigma> 0)" using s1(1) by simp
  have run: "world_step 0 (env0 0) True 7 (?\<alpha> i) (?\<sigma> i) (?\<sigma> (Suc i))" for i
    using s1(3) s2 by (simp add: process_step_def Process_Kill_def)
  have fair: "\<exists>j\<ge>i. ?\<alpha> j = Act_Exit t" if "t \<in> set (threads_of 7 (?\<sigma> i))" for i t
    using that s1(3) s2(2) by (auto split: if_splits)
  from killed_process_dies [OF ok(1,2,3) ne ok(4) start run fair] obtain k where
    k: "ut_state (ps_thread s1 20) = T_DYING" "dead_ok (world_inv 0 (env0 0)) obs_attached obs_informed 7 (?\<sigma> k)" using ok(5) by auto
  have "pr_state (ps_proc s1 7) = P_DYING" using s1(2) by (simp add: dying_ok_def)
  then have "dead_ok (world_inv 0 (env0 0)) obs_attached obs_informed 7 s2" using k(2) by (cases "k = 0") (auto simp: dead_ok_def)
  then show ?thesis using s1(1) s2(1) k(1) by blast
qed

text \<open>
  Leaving a process races with its other threads. Once one of several threads has called exit, another thread that is in the kernel on its own way
  to exit, or that creates a thread, fails an assertion: exit insists on a running process, and starting a thread insists that the process
  takes it.
\<close>

lemma process_exit_race_panics:
  assumes s: "system_ok (world_inv base e) p s" "threads_ok obs_attached obs_informed p s" "pr_state (ps_proc s p) = P_RUNNING"
    and t: "t1 \<in> set (threads_of p s)" "t2 \<in> set (threads_of p s)" "t1 \<noteq> t2"
  shows "\<exists>s1. Process_Exit (world_ops e alloc_ok) t1 code p s = Some s1 \<and> t2 \<in> set (threads_of p s1) \<and>
    Process_Exit (world_ops e alloc_ok) t2 code' p s1 = None \<and> sys_thread_create True True True disp_ok d t3 p s1 = None"
proof -
  let ?P = "(ps_proc s p)\<lparr>pr_retcode := code, pr_state := P_DYING\<rparr>"
  let ?s = "KillAllThreads p (set_proc p ?P s)"
  have alive: "ut_state (ps_thread s t) \<noteq> T_DEAD" if "t \<in> set (threads_of p s)" for t using s(2) that by (auto simp: threads_ok_def)
  have "dying_ok (world_inv base e) obs_attached obs_informed p ?s"
    using s t alive by (auto simp: dying_ok_def system_ok_def threads_ok_def KillAllThreads_def kill_threads_effect)
  then have d: "dying_ok (world_inv base e) obs_attached obs_informed p (note_kernel (Thread_Exit t1) (UserThread_SetState t1 T_DYING ?s))"
    using t by (auto simp: dying_ok_def system_ok_def threads_ok_def UserThread_SetState_def)
  let ?s1 = "note_kernel (Thread_Exit t1) (UserThread_SetState t1 T_DYING ?s)"
  have l: "threads_of p ?s1 = threads_of p s" by (simp add: KillAllThreads_def kill_threads_effect UserThread_SetState_def)
  have dist: "distinct (threads_of p s)" using s(2) by (simp add: threads_ok_def)
  have t2: "t2 \<in> set (remove1 t1 (threads_of p s))" using t dist by simp
  then have ne: "remove1 t1 (threads_of p s) \<noteq> []" by (metis empty_iff empty_set)
  obtain s1 where s1: "Exiting (world_ops e alloc_ok) t1 ?s1 = Some s1" "threads_of p s1 = remove1 t1 (threads_of p s)"
    "dying_ok (world_inv base e) obs_attached obs_informed p s1"
    using obs.Exiting_ok [OF d, of t1 alloc_ok] t(1) ne l by auto
  have "ut_state (ps_thread ?s t1) = T_DYING" using t(1) alive by (simp add: KillAllThreads_def kill_threads_effect)
  then have "Process_Exit (world_ops e alloc_ok) t1 code p s = Some s1"
    using s(3) s1(1) by (simp add: Process_Exit_def Process_SetState_def UserThread_Exit_def set_proc_def)
  moreover have dy: "pr_state (ps_proc s1 p) = P_DYING" using s1(3) by (simp add: dying_ok_def)
  moreover have "sys_thread_create True True True disp_ok d t3 p s1 = None"
    using dy by (simp add: sys_thread_create_def CreateUserThread_def UserThread_Initialize_def UserThread_Start_def AddThread_def
        UserThread_SetState_def UserThread_new_def GenerateKernelObjectId_def)
  ultimately show ?thesis using s1(2) t2 by (intro exI [of _ s1]) (simp add: Process_Exit_def)
qed

lemma process_exit_race_panics_witness:
  "\<exists>hs s1. Process_Exit (world_ops (env0 0) True) 20 0 7 (running_process hs [20, 21]) = Some s1 \<and>
     Process_Exit (world_ops (env0 0) True) 21 0 7 s1 = None"
proof -
  obtain hs lim P where hs: "hs_reach hs lim" "hs_proc hs 7 = Some P" using sender_receiver_ex by blast
  have "hs_inv hs" using hs_reach_inv [OF hs(1)] by simp
  note ok = running_process_ok [OF this hs(2), of "[20, 21]"]
  from process_exit_race_panics [of 0 "env0 0" 7 "running_process hs [20, 21]" 20 21] ok show ?thesis by (simp, blast)
qed

text \<open>
  User code can stop the kernel by starting a process. With a handle of a process and an argument that is not zero and names no handle, the missing
  handle is dereferenced. With a valid argument but a process that is not in its initial state, the first assertion of the start
  fails.
\<close>

lemma process_start_faults:
  assumes reach: "hs_reach (ps_hs s) lim" and U: "hs_proc (ps_hs s) up = Some U"
    and v: "GetDispatcher up v (ps_hs s) = Some (Some (p, rights))" "is_process p"
    and bad: "arg \<noteq> 0 \<and> GetHandle_NoLock U arg (ps_hs s) = None \<or> pr_state (ps_proc s p) \<noteq> P_INITIAL \<and> arg \<noteq> 0"
  shows "sys_process_start ops is_process alloc_ok created t entry v arg up s = None"
proof -
  have inv: "hs_inv (ps_hs s)" using hs_reach_inv [OF reach] by simp
  obtain r hs where r: "RemoveHandle up arg (ps_hs s) = Some (r, hs)" "r = GetHandle_NoLock U arg (ps_hs s)"
    using RemoveHandle_ok [OF inv U] by blast
  show ?thesis
  proof (cases r)
    case None
    then show ?thesis using v r bad by (auto simp: sys_process_start_def)
  next
    case (Some h)
    then have "pr_state (ps_proc s p) \<noteq> P_INITIAL" "arg \<noteq> 0" using bad r(2) by auto
    then show ?thesis using v r Some by (cases "AddHandle p h hs") (simp_all add: sys_process_start_def Process_Start_def)
  qed
qed

lemma process_start_faults_witness:
  "\<exists>hs v. GetDispatcher 7 v hs = Some (Some (4, kDefaultPipeRights)) \<and>
     sys_process_start (world_ops (env0 0) True) (\<lambda>p. p = 4) True True 30 0 v v 7 (running_process hs [20]) = None"
proof -
  obtain hs lim P v where hs: "hs_reach hs lim" "hs_proc hs 7 = Some P" "GetDispatcher 7 v hs = Some (Some (4, kDefaultPipeRights))"
    using sender_receiver_ex by blast
  have inv: "hs_inv hs" using hs_reach_inv [OF hs(1)] by simp
  obtain h where h: "GetHandle_NoLock P v hs = Some h" using GetDispatcher_cases [OF inv hs(2), of v] hs(3) by auto
  have "0 <s v"
    using GetHandle_SomeD(2,4) [OF inv hs(2) h] handle_value_positive(3) [OF hs_invD(1) [OF inv]] table_okD(4) [OF hs_invD(2) [OF inv hs(2)]] by simp
  then have "v \<noteq> 0" by auto
  moreover have "ps_hs (running_process hs [20]) = hs" "pr_state (ps_proc (running_process hs [20]) 4) \<noteq> P_INITIAL"
    by (simp_all add: running_process_def)
  ultimately have "sys_process_start (world_ops (env0 0) True) (\<lambda>p. p = 4) True True 30 0 v v 7 (running_process hs [20]) = None"
    using hs by (intro process_start_faults [of "running_process hs [20]" lim 7 P v 4 kDefaultPipeRights]) simp_all
  with hs(3) show ?thesis by blast
qed

end
