(* ===== verification/Pow2_Range.thy ===== *)
theory Pow2_Range
  imports Mx_Prelude
begin

unbundle bit_operations_syntax

text \<open>
  The allocator of power-of-two ranges, \<^verbatim>\<open>kernel/lib/pow2_range_allocator/pow2_range_allocator.c\<close>, which hands out the interrupt numbers of
  message signalled interrupts: a buddy system over the unsigned integers. Values of type \<^verbatim>\<open>uint\<close> are natural numbers below \<open>2 ^ 32\<close>, with the
  wrap-around written out where the invariant does not exclude it. A block is a value; its memory is on the list of
  unused blocks or comes from the heap, of which the first \<open>mem\<close> requests of a call succeed.
\<close>

section \<open>Powers of two\<close>

definition ispow2 :: "nat \<Rightarrow> bool" where
  "ispow2 val \<longleftrightarrow> ((val + 2 ^ 32 - 1) mod 2 ^ 32) AND val = 0"

definition builtin_clz :: "nat \<Rightarrow> nat" where
  "builtin_clz val = length (takeWhile (\<lambda>i. \<not> bit val i) (rev [0..<32]))"

definition log2_uint :: "nat \<Rightarrow> nat" where
  "log2_uint val = (if val = 0 then 0 else 32 - 1 - builtin_clz val)"

section \<open>State\<close>

record p2ra_block =
  pb_bucket :: nat
  pb_start :: nat

record p2ra_range =
  rg_start :: nat
  rg_len :: nat

record p2ra_state =
  p2_ranges :: "p2ra_range list"
  p2_unused_blocks :: "p2ra_block list"
  p2_allocated_blocks :: "p2ra_block list"
  p2_free_block_buckets :: "nat \<Rightarrow> p2ra_block list"
  p2_bucket_count :: nat

definition p2ra_get_unused_block :: "p2ra_state \<Rightarrow> nat \<Rightarrow> p2ra_block option \<times> p2ra_state \<times> nat" where
  "p2ra_get_unused_block s mem =
     (case p2_unused_blocks s of
        b # bs \<Rightarrow> (Some b, s\<lparr>p2_unused_blocks := bs\<rparr>, mem)
      | [] \<Rightarrow> if mem = 0 then (None, s, mem) else (Some \<lparr>pb_bucket = 0, pb_start = 0\<rparr>, s, mem - 1))"

section \<open>Returning a block\<close>

text \<open>The first loop: the place in the bucket, sorted by start, with the assertion that nothing overlaps.\<close>

fun insert_block :: "p2ra_block \<Rightarrow> p2ra_block list \<Rightarrow> p2ra_block list option" where
  "insert_block b [] = Some [b]"
| "insert_block b (a # l) = do {
     kassert (pb_start a + 2 ^ pb_bucket a \<le> pb_start b \<or> pb_start b + 2 ^ pb_bucket b \<le> pb_start a);
     if pb_start b < pb_start a then Some (b # a # l) else do { l \<leftarrow> insert_block b l; Some (a # l) }
   }"

fun block_next :: "p2ra_block \<Rightarrow> p2ra_block list \<Rightarrow> p2ra_block option" where
  "block_next b [] = None"
| "block_next b (a # l) = (if a = b then (case l of [] \<Rightarrow> None | c # _ \<Rightarrow> Some c) else block_next b l)"

definition block_prev :: "p2ra_block \<Rightarrow> p2ra_block list \<Rightarrow> p2ra_block option" where
  "block_prev b l = block_next b (rev l)"

text \<open>The pair of blocks that may be merged.\<close>

definition merge_pair :: "p2ra_block \<Rightarrow> p2ra_block list \<Rightarrow> p2ra_block option \<times> p2ra_block option" where
  "merge_pair b l =
     (if pb_start b AND (2 ^ (pb_bucket b + 1) - 1) \<noteq> 0 then (block_prev b l, Some b) else (Some b, block_next b l))"

definition set_bucket :: "nat \<Rightarrow> p2ra_block list \<Rightarrow> p2ra_state \<Rightarrow> p2ra_state" where
  "set_bucket n l s = s\<lparr>p2_free_block_buckets := (p2_free_block_buckets s)(n := l)\<rparr>"

function p2ra_return_free_block :: "p2ra_state \<Rightarrow> p2ra_block \<Rightarrow> bool \<Rightarrow> p2ra_state option" where
  "p2ra_return_free_block s b merge_allowed =
     (if \<not> pb_bucket b < p2_bucket_count s \<or> pb_start b AND (2 ^ pb_bucket b - 1) \<noteq> 0 then None
      else case insert_block b (p2_free_block_buckets s (pb_bucket b)) of
             None \<Rightarrow> None
           | Some l \<Rightarrow>
               if pb_bucket b + 1 = p2_bucket_count s then Some (set_bucket (pb_bucket b) l s)
               else case merge_pair b l of
                      (Some first, Some second) \<Rightarrow>
                        if pb_start first + 2 ^ pb_bucket first \<noteq> pb_start second then Some (set_bucket (pb_bucket b) l s)
                        else if \<not> merge_allowed \<or> pb_bucket first \<noteq> pb_bucket second then None
                        else p2ra_return_free_block
                               ((set_bucket (pb_bucket b) (remove1 second (remove1 first l)) s)\<lparr>
                                  p2_unused_blocks := p2_unused_blocks s @ [second]\<rparr>)
                               (first\<lparr>pb_bucket := pb_bucket first + 1\<rparr>) merge_allowed
                    | _ \<Rightarrow> Some (set_bucket (pb_bucket b) l s))"
  by pat_completeness auto

termination
  by (relation "measure (\<lambda>(s, b, _). p2_bucket_count s - pb_bucket b)") (auto simp: merge_pair_def set_bucket_def split: if_splits)

section \<open>The interface\<close>

definition p2ra_init :: "bool \<Rightarrow> nat \<Rightarrow> status + p2ra_state" where
  "p2ra_init alloc_ok max_alloc_size =
     (if max_alloc_size = 0 \<or> \<not> ispow2 max_alloc_size then Inl ERR_INVALID_ARGS
      else if \<not> alloc_ok then Inl ERR_NO_MEMORY
      else Inr \<lparr>p2_ranges = [], p2_unused_blocks = [], p2_allocated_blocks = [], p2_free_block_buckets = (\<lambda>_. []),
                p2_bucket_count = log2_uint max_alloc_size + 1\<rparr>)"

definition p2ra_free :: "p2ra_state \<Rightarrow> unit option" where
  "p2ra_free s = do { kassert (p2_bucket_count s \<noteq> 0); kassert (p2_allocated_blocks s = []); Some () }"

text \<open>The tests of the loops of \<^verbatim>\<open>p2ra_add_range\<close>, at the width of the machine: a size of zero has the mask of all ones.\<close>

definition misaligned :: "nat \<Rightarrow> nat \<Rightarrow> bool" where
  "misaligned start csize \<longleftrightarrow> start AND ((csize + 2 ^ 32 - 1) mod 2 ^ 32) \<noteq> 0"

partial_function (option) shrink_chunk :: "nat \<Rightarrow> nat \<Rightarrow> nat \<Rightarrow> nat \<Rightarrow> (nat \<times> nat) option" where
  "shrink_chunk start len csize bucket =
     (if misaligned start csize \<or> len < csize then shrink_chunk start len (csize div 2) (bucket - 1) else Some (csize, bucket))"

function grow_chunk :: "nat \<Rightarrow> nat \<Rightarrow> nat \<Rightarrow> nat \<Rightarrow> nat \<Rightarrow> nat \<Rightarrow> (nat \<times> nat) option" where
  "grow_chunk start len max_csize count csize bucket =
     (let tmp = 2 * csize mod 2 ^ 32
      in if tmp \<le> max_csize \<and> tmp \<le> len \<and> \<not> misaligned start tmp
         then if \<not> bucket + 1 < count then None else grow_chunk start len max_csize count tmp (bucket + 1)
         else Some (csize, bucket))"
  by pat_completeness auto

termination
  by (relation "measure (\<lambda>(_, _, _, count, _, bucket). count - bucket)") auto

definition next_chunk :: "nat \<Rightarrow> nat \<Rightarrow> nat \<Rightarrow> nat \<Rightarrow> nat \<Rightarrow> nat \<Rightarrow> (nat \<times> nat) option" where
  "next_chunk start len max_csize count csize bucket = do {
     (csize', bucket') \<leftarrow> shrink_chunk start len csize bucket;
     (csize', bucket') \<leftarrow> (if \<not> (misaligned start csize \<or> len < csize) then grow_chunk start len max_csize count csize' bucket'
                         else Some (csize', bucket'));
     kassert (2 ^ bucket' = csize' \<and> bucket' < count \<and> \<not> misaligned start csize' \<and> csize' \<le> len \<and> csize' \<noteq> 0);
     Some (csize', bucket')
   }"

text \<open>
  The loop that breaks a range into aligned chunks. The result is None when memory for a block is missing, and the state then has
  lost the blocks it had taken from the unused ones.
\<close>

function break_range ::
  "nat \<Rightarrow> nat \<Rightarrow> nat \<Rightarrow> nat \<Rightarrow> nat \<Rightarrow> p2ra_state \<Rightarrow> nat \<Rightarrow> p2ra_block list \<Rightarrow> (p2ra_block list option \<times> p2ra_state) option" where
  "break_range start len max_csize csize bucket s mem new_blocks =
     (if len = 0 then Some (Some new_blocks, s)
      else case next_chunk start len max_csize (p2_bucket_count s) csize bucket of
             None \<Rightarrow> None
           | Some (csize', bucket') \<Rightarrow>
               (case p2ra_get_unused_block s mem of
                  (None, s', mem') \<Rightarrow> Some (None, s')
                | (Some block, s', mem') \<Rightarrow>
                    break_range (start + csize') (len - csize') max_csize csize' bucket' s' mem'
                      (new_blocks @ [block\<lparr>pb_bucket := bucket', pb_start := start\<rparr>])))"
  by pat_completeness auto

termination
  by (relation "measure (\<lambda>(_, len, _). len)") (auto simp: next_chunk_def kassert_def split: bind_splits if_splits)

fun return_new_blocks :: "p2ra_block list \<Rightarrow> p2ra_state \<Rightarrow> p2ra_state option" where
  "return_new_blocks [] s = Some s"
| "return_new_blocks (b # bs) s = do { s \<leftarrow> p2ra_return_free_block s b False; return_new_blocks bs s }"

definition ranges_overlap :: "nat \<Rightarrow> nat \<Rightarrow> p2ra_range \<Rightarrow> bool" where
  "ranges_overlap start len r \<longleftrightarrow> start \<le> rg_start r \<and> rg_start r < start + len \<or> rg_start r \<le> start \<and> start < rg_start r + rg_len r"

definition p2ra_add_range :: "nat \<Rightarrow> nat \<Rightarrow> nat \<Rightarrow> p2ra_state \<Rightarrow> (status \<times> p2ra_state) option" where
  "p2ra_add_range mem range_start range_len s =
     (if range_len = 0 \<or> (range_start + range_len) mod 2 ^ 32 < range_start then Some (ERR_INVALID_ARGS, s)
      else if \<exists>r\<in>set (p2_ranges s). ranges_overlap range_start range_len r then Some (ERR_ALREADY_EXISTS, s)
      else if mem = 0 then Some (ERR_NO_MEMORY, s)
      else do {
        kassert (p2_bucket_count s \<noteq> 0);
        let bucket = p2_bucket_count s - 1;
        (r, s) \<leftarrow> break_range range_start range_len (2 ^ bucket) (2 ^ bucket) bucket s (mem - 1) [];
        case r of
          None \<Rightarrow> Some (ERR_NO_MEMORY, s)
        | Some new_blocks \<Rightarrow> do {
            s \<leftarrow> return_new_blocks new_blocks (s\<lparr>p2_ranges := p2_ranges s @ [\<lparr>rg_start = range_start, rg_len = range_len\<rparr>]\<rparr>);
            Some (NO_ERROR, s)
          }
      })"

text \<open>The search for the smallest bucket that has a block.\<close>

function find_block :: "nat \<Rightarrow> p2ra_state \<Rightarrow> (nat \<times> p2ra_block \<times> p2ra_state) option" where
  "find_block bucket s =
     (if \<not> bucket < p2_bucket_count s then None
      else case p2_free_block_buckets s bucket of
             b # l \<Rightarrow> Some (bucket, b, set_bucket bucket l s)
           | [] \<Rightarrow> find_block (bucket + 1) s)"
  by pat_completeness auto

termination
  by (relation "measure (\<lambda>(bucket, s). p2_bucket_count s - bucket)") auto

text \<open>Splitting a block down to the bucket asked for, a second half going back each time.\<close>

fun split_block :: "nat \<Rightarrow> nat \<Rightarrow> p2ra_block \<Rightarrow> p2ra_state \<Rightarrow> nat \<Rightarrow> (p2ra_block option \<times> p2ra_state) option" where
  "split_block 0 orig_bucket b s mem = Some (Some b, s)"
| "split_block (Suc bucket) orig_bucket b s mem =
     (if \<not> orig_bucket < Suc bucket then Some (Some b, s)
      else case p2ra_get_unused_block s mem of
             (None, s, mem) \<Rightarrow> do { s \<leftarrow> p2ra_return_free_block s b True; Some (None, s) }
           | (Some h, s, mem) \<Rightarrow> do {
               let b = b\<lparr>pb_bucket := bucket\<rparr>;
               s \<leftarrow> p2ra_return_free_block s (h\<lparr>pb_start := pb_start b + 2 ^ pb_bucket b, pb_bucket := bucket\<rparr>) False;
               split_block bucket orig_bucket b s mem
             })"

definition p2ra_allocate_range :: "nat \<Rightarrow> nat \<Rightarrow> p2ra_state \<Rightarrow> ((status + nat) \<times> p2ra_state) option" where
  "p2ra_allocate_range mem len s =
     (if len = 0 \<or> \<not> ispow2 len then Some (Inl ERR_INVALID_ARGS, s)
      else if \<not> log2_uint len < p2_bucket_count s then Some (Inl ERR_INVALID_ARGS, s)
      else case find_block (log2_uint len) s of
             None \<Rightarrow> Some (Inl ERR_NO_RESOURCES, s)
           | Some (bucket, block, s) \<Rightarrow> do {
               kassert (pb_bucket block = bucket);
               (r, s) \<leftarrow> split_block bucket (log2_uint len) block s mem;
               case r of
                 None \<Rightarrow> Some (Inl ERR_NO_MEMORY, s)
               | Some block \<Rightarrow> Some (Inr (pb_start block), s\<lparr>p2_allocated_blocks := block # p2_allocated_blocks s\<rparr>)
             })"

definition p2ra_free_range :: "nat \<Rightarrow> nat \<Rightarrow> p2ra_state \<Rightarrow> p2ra_state option" where
  "p2ra_free_range range_start len s = do {
     kassert (len \<noteq> 0 \<and> ispow2 len);
     block \<leftarrow> find (\<lambda>b. pb_start b = range_start \<and> pb_bucket b = log2_uint len) (p2_allocated_blocks s);
     p2ra_return_free_block (s\<lparr>p2_allocated_blocks := remove1 block (p2_allocated_blocks s)\<rparr>) block True
   }"

section \<open>Arithmetic of aligned intervals\<close>

lemma and_mask_iff: "(a :: nat) AND (2 ^ n - 1) = 0 \<longleftrightarrow> 2 ^ n dvd a"
proof -
  have "a AND (2 ^ n - 1) = a mod 2 ^ n" by (simp only: take_bit_eq_mod [symmetric] take_bit_eq_mask mask_eq_exp_minus_1)
  then show ?thesis by (simp only: mod_eq_0_iff_dvd)
qed

lemma and_pred_zero: "0 < n \<Longrightarrow> (n - 1) AND n = 0 \<longleftrightarrow> (\<exists>k. n = 2 ^ k)" for n :: nat
proof (induction n rule: less_induct)
  case (less n)
  show ?case
  proof (cases "even n")
    case True
    then obtain m where m: "n = 2 * m" by blast
    then have m0: "0 < m" "m < n" using less.prems by simp_all
    have "n - 1 = 2 * (m - 1) + 1" using m m0 by simp
    then have "(n - 1) AND n = 2 * ((m - 1) AND m)" by (subst and_nat_rec) (simp add: m)
    then have "(n - 1) AND n = 0 \<longleftrightarrow> (\<exists>k. m = 2 ^ k)" using less.IH [OF m0(2,1)] by simp
    also have "\<dots> \<longleftrightarrow> (\<exists>k. n = 2 ^ k)"
    proof
      assume "\<exists>k. m = 2 ^ k" then show "\<exists>k. n = 2 ^ k" using m by (metis power_Suc)
    next
      assume "\<exists>k. n = 2 ^ k" then obtain k where k: "n = 2 ^ k" ..
      then have "k \<noteq> 0" using True by (cases k) auto
      then show "\<exists>k. m = 2 ^ k" using m k by (cases k) auto
    qed
    finally show ?thesis .
  next
    case False
    then obtain m where m: "n = 2 * m + 1" by (metis oddE)
    then have "(n - 1) AND n = 2 * m" by (subst and_nat_rec) simp
    then have "(n - 1) AND n = 0 \<longleftrightarrow> n = 1" using m by simp
    also have "\<dots> \<longleftrightarrow> (\<exists>k. n = 2 ^ k)"
    proof
      assume "\<exists>k. n = 2 ^ k" then obtain k where k: "n = 2 ^ k" ..
      then show "n = 1" using False by (cases k) auto
    qed (auto intro: exI [of _ 0])
    finally show ?thesis .
  qed
qed

lemma ispow2_iff:
  assumes "0 < n" "n < 2 ^ 32"
  shows "ispow2 n \<longleftrightarrow> (\<exists>k<32. n = 2 ^ k)"
proof -
  have "n + 2 ^ 32 - 1 = (n - 1) + 2 ^ 32" using assms(1) by simp
  then have "(n + 2 ^ 32 - 1) mod 2 ^ 32 = n - 1" using assms(2) by (simp only: mod_add_self2) simp
  then have "ispow2 n \<longleftrightarrow> (\<exists>k. n = 2 ^ k)" using and_pred_zero [OF assms(1)] by (simp add: ispow2_def)
  also have "\<dots> \<longleftrightarrow> (\<exists>k<32. n = 2 ^ k)"
    using power_less_imp_less_exp [of "2 :: nat" _ 32] assms(2) by auto
  finally show ?thesis .
qed

lemma log2_uint_power: assumes "k < 32" shows "log2_uint (2 ^ k) = k"
proof -
  have "takeWhile (\<lambda>i. \<not> bit (2 ^ k :: nat) i) (rev [0..<32]) = rev [Suc k..<32]"
  proof -
    have "[0..<32] = [0..<k] @ k # [Suc k..<32]"
      using upt_add_eq_append [of 0 k "32 - k"] assms by (simp add: upt_conv_Cons)
    then have "rev [0..<32] = rev [Suc k..<32] @ k # rev [0..<k]" by simp
    moreover have "takeWhile (\<lambda>i. i \<noteq> k) (rev [Suc k..<32] @ k # rev [0..<k]) = rev [Suc k..<32]"
      by (subst takeWhile_append2) auto
    ultimately show ?thesis by (simp add: bit_exp_iff)
  qed
  then show ?thesis using assms by (simp add: log2_uint_def builtin_clz_def)
qed

lemma aligned_nested:
  assumes "n \<le> m" "2 ^ n dvd a" "2 ^ m dvd c" "a \<le> x" "x < a + 2 ^ n" "c \<le> x" "x < c + 2 ^ m"
  shows "c \<le> a \<and> a + 2 ^ n \<le> c + (2 ^ m :: nat)"
proof -
  obtain i where i: "a = 2 ^ n * i" using assms(2) by blast
  obtain k where "c = 2 ^ m * k" using assms(3) by blast
  moreover obtain d where d: "m = n + d" using assms(1) le_Suc_ex by blast
  ultimately have c: "c = 2 ^ n * (2 ^ d * k)" by (simp add: power_add)
  have x: "x div 2 ^ n = i" using assms(4,5) i by (intro div_nat_eqI) (simp_all add: algebra_simps)
  have "2 ^ d * k \<le> x div 2 ^ n" using div_le_mono [OF assms(6), of "2 ^ n"] c by simp
  moreover have "x div 2 ^ n < 2 ^ d * k + 2 ^ d"
    using assms(7) by (simp add: c d div_less_iff_less_mult algebra_simps power_add)
  ultimately have "2 ^ d * k \<le> i" "Suc i \<le> 2 ^ d * k + 2 ^ d" using x by simp_all
  then have "2 ^ n * (2 ^ d * k) \<le> 2 ^ n * i" "2 ^ n * Suc i \<le> 2 ^ n * (2 ^ d * k + 2 ^ d)" by (simp_all only: mult_le_mono2)
  then show ?thesis using i c d by (simp add: algebra_simps power_add)
qed

lemma aligned_apart:
  assumes "2 ^ n dvd a" "2 ^ n dvd c" "a \<noteq> (c :: nat)"
  shows "a + 2 ^ n \<le> c \<or> c + 2 ^ n \<le> a"
proof (rule ccontr)
  assume "\<not> ?thesis"
  then have l: "max a c < a + 2 ^ n" "max a c < c + 2 ^ n" by (auto simp: max_def)
  have "c \<le> a" using aligned_nested [OF order_refl assms(1,2) max.cobounded1 l(1) max.cobounded2 l(2)] by blast
  moreover have "a \<le> c" using aligned_nested [OF order_refl assms(2,1) max.cobounded2 l(2) max.cobounded1 l(1)] by blast
  ultimately show False using assms(3) by simp
qed

section \<open>Buckets\<close>

abbreviation blk :: "nat \<Rightarrow> nat \<Rightarrow> p2ra_block" where
  "blk n a \<equiv> \<lparr>pb_bucket = n, pb_start = a\<rparr>"

definition bucket_ok :: "nat \<Rightarrow> p2ra_block list \<Rightarrow> bool" where
  "bucket_ok n l \<longleftrightarrow> sorted_wrt (\<lambda>a b. pb_start a < pb_start b) l \<and> (\<forall>b\<in>set l. pb_bucket b = n \<and> 2 ^ n dvd pb_start b)"

lemma blk_eqI: "pb_bucket b = n \<Longrightarrow> pb_start b = a \<Longrightarrow> b = blk n a"
  by simp

lemma bucket_ok_Cons [simp]:
  "bucket_ok n (a # l) \<longleftrightarrow> pb_bucket a = n \<and> 2 ^ n dvd pb_start a \<and> (\<forall>b\<in>set l. pb_start a < pb_start b) \<and> bucket_ok n l"
  by (auto simp: bucket_ok_def)

lemma bucket_ok_Nil [simp]: "bucket_ok n []"
  by (simp add: bucket_ok_def)

lemma bucket_ok_distinct: "bucket_ok n l \<Longrightarrow> distinct l"
  by (induction l) auto

lemma bucket_ok_remove1: "bucket_ok n l \<Longrightarrow> bucket_ok n (remove1 b l)"
  by (induction l) (auto dest: notin_set_remove1 [rotated])

lemma bucket_ok_eq:
  assumes "bucket_ok n l" "bucket_ok n l'" "set l = set l'"
  shows "l = l'"
proof -
  have s: "sorted_wrt (<) (map pb_start l)" "sorted_wrt (<) (map pb_start l')"
    using assms by (simp_all add: bucket_ok_def sorted_wrt_map)
  then have "map pb_start l = map pb_start l'" using assms(3) by (intro strict_sorted_equal) simp_all
  moreover have "l = map (blk n) (map pb_start l)" "l' = map (blk n) (map pb_start l')"
    using assms(1,2) by (auto simp: bucket_ok_def intro!: map_idI [symmetric] blk_eqI [symmetric])
  ultimately show ?thesis by simp
qed

lemma insert_block_ok:
  assumes "bucket_ok n l" "2 ^ n dvd a" "blk n a \<notin> set l"
  shows "\<exists>l'. insert_block (blk n a) l = Some l' \<and> bucket_ok n l' \<and> set l' = insert (blk n a) (set l)"
  using assms
proof (induction l)
  case (Cons c l)
  have ne: "pb_start c \<noteq> a" using Cons.prems by (auto intro: blk_eqI)
  then have ap: "pb_start c + 2 ^ n \<le> a \<or> a + 2 ^ n \<le> pb_start c" using aligned_apart [of n "pb_start c" a] Cons.prems by simp
  show ?case
  proof (cases "a < pb_start c")
    case True
    then show ?thesis using Cons.prems ap by (auto simp: kassert_def)
  next
    case False
    then have "pb_start c < a" using ne by simp
    moreover obtain l' where "insert_block (blk n a) l = Some l'" "bucket_ok n l'" "set l' = insert (blk n a) (set l)" using Cons by auto
    ultimately show ?thesis using Cons.prems ap False by (auto simp: kassert_def)
  qed
qed simp

lemma block_next_Some: "block_next b l = Some c \<Longrightarrow> c \<in> set l"
proof (induction l)
  case (Cons a l)
  then show ?case by (cases l) (simp_all split: if_splits)
qed simp

lemma block_next_iff:
  assumes "bucket_ok n l" "blk n a \<in> set l" "2 ^ n dvd a"
  shows "blk n (a + 2 ^ n) \<in> set l \<longleftrightarrow> block_next (blk n a) l = Some (blk n (a + 2 ^ n))"
  using assms
proof (induction l)
  case (Cons c l)
  show ?case
  proof (cases "c = blk n a")
    case True
    show ?thesis
    proof (cases l)
      case (Cons d l')
      have "d = blk n (a + 2 ^ n)" if "blk n (a + 2 ^ n) \<in> set l'"
      proof (rule ccontr)
        assume "d \<noteq> blk n (a + 2 ^ n)"
        then have "pb_start d \<noteq> a + 2 ^ n" using Cons.prems Cons by auto
        moreover have "a < pb_start d" "pb_start d < a + 2 ^ n" using Cons.prems Cons True that by auto
        ultimately show False using aligned_apart [of n "pb_start d" a] Cons.prems Cons by auto
      qed
      then show ?thesis using Cons True by auto
    qed (use True in simp)
  next
    case False
    have "blk n a \<in> set l" using Cons.prems(2) False by simp
    then have "pb_start c < a" using Cons.prems(1) by fastforce
    then have "c \<noteq> blk n (a + 2 ^ n)" by auto
    then show ?thesis using Cons False by auto
  qed
qed simp

lemma block_next_append:
  "b \<notin> set l \<Longrightarrow> block_next b (l @ l') = block_next b l'"
  by (induction l) auto

lemma block_prev_iff:
  assumes "bucket_ok n l" "blk n a \<in> set l" "2 ^ n dvd a" "2 ^ n \<le> a"
  shows "blk n (a - 2 ^ n) \<in> set l \<longleftrightarrow> block_prev (blk n a) l = Some (blk n (a - 2 ^ n))"
proof -
  obtain l1 l2 where l: "l = l1 @ blk n a # l2" using assms(2) by (meson split_list)
  have "distinct l" using bucket_ok_distinct [OF assms(1)] .
  then have p: "block_prev (blk n a) l = (if l1 = [] then None else Some (last l1))"
    using l by (simp add: block_prev_def block_next_append split: list.splits)
  have lt: "pb_start b < a" "2 ^ n dvd pb_start b" "pb_bucket b = n" if "b \<in> set l1" for b using assms(1) l that by (auto simp: bucket_ok_def sorted_wrt_append)
  have gt: "a < pb_start b" if "b \<in> set l2" for b using assms(1) l that by (auto simp: bucket_ok_def sorted_wrt_append)
  have "last l1 = blk n (a - 2 ^ n)" if m: "blk n (a - 2 ^ n) \<in> set l1"
  proof -
    obtain l3 l4 where l1: "l1 = l3 @ blk n (a - 2 ^ n) # l4" using m by (meson split_list)
    have "False" if "d \<in> set l4" for d
    proof -
      have "a - 2 ^ n < pb_start d" using assms(1) l l1 that by (auto simp: bucket_ok_def sorted_wrt_append)
      moreover have "pb_start d < a" "2 ^ n dvd pb_start d" using lt [of d] l1 that by simp_all
      ultimately show False using aligned_apart [of n "pb_start d" "a - 2 ^ n"] aligned_apart [of n "pb_start d" a] assms(3,4)
        by (auto simp: dvd_diff_nat)
    qed
    then have "l4 = []" by (cases l4) auto
    then show ?thesis using l1 by simp
  qed
  moreover have "0 < (2 :: nat) ^ n" by simp
  with assms(4) have "a - 2 ^ n < a" by linarith
  then have "blk n (a - 2 ^ n) \<in> set l \<longleftrightarrow> blk n (a - 2 ^ n) \<in> set l1" using l by (auto dest: gt)
  ultimately show ?thesis using p by (cases "l1 = []") (auto dest: last_in_set)
qed

section \<open>What the free lists cover\<close>

definition cells :: "p2ra_block \<Rightarrow> nat set" where
  "cells b = {pb_start b..<pb_start b + 2 ^ pb_bucket b}"

text \<open>How many free blocks contain an integer.\<close>

definition cover :: "p2ra_block list \<Rightarrow> nat \<Rightarrow> nat" where
  "cover l x = length (filter (\<lambda>b. x \<in> cells b) l)"

definition free_cover :: "p2ra_state \<Rightarrow> nat \<Rightarrow> nat" where
  "free_cover s x = (\<Sum>n<p2_bucket_count s. cover (p2_free_block_buckets s n) x)"

abbreviation free_at :: "p2ra_state \<Rightarrow> nat \<Rightarrow> nat \<Rightarrow> bool" where
  "free_at s n a \<equiv> blk n a \<in> set (p2_free_block_buckets s n)"

definition no_buddies :: "p2ra_state \<Rightarrow> bool" where
  "no_buddies s \<longleftrightarrow> (\<forall>n a. Suc n < p2_bucket_count s \<longrightarrow> 2 ^ Suc n dvd a \<longrightarrow> \<not> (free_at s n a \<and> free_at s n (a + 2 ^ n)))"

text \<open>The free lists are sorted and aligned, no integer is free twice, and what can be merged is merged.\<close>

definition free_ok :: "p2ra_state \<Rightarrow> bool" where
  "free_ok s \<longleftrightarrow> (\<forall>n. bucket_ok n (p2_free_block_buckets s n)) \<and> (\<forall>n\<ge>p2_bucket_count s. p2_free_block_buckets s n = []) \<and>
     (\<forall>x. free_cover s x \<le> 1) \<and> no_buddies s"

lemma cells_blk [simp]: "cells (blk n a) = {a..<a + 2 ^ n}"
  by (simp add: cells_def)

lemma cover_Nil [simp]: "cover [] x = 0"
  by (simp add: cover_def)

lemma cover_Cons: "cover (b # l) x = of_bool (x \<in> cells b) + cover l x"
  by (simp add: cover_def)

lemma cover_set: "distinct l \<Longrightarrow> cover l x = card {b \<in> set l. x \<in> cells b}"
  by (simp add: cover_def distinct_length_filter Int_def conj_commute)

lemma cover_insert:
  assumes "distinct l" "distinct l'" "set l' = insert b (set l)" "b \<notin> set l"
  shows "cover l' x = of_bool (x \<in> cells b) + cover l x"
proof -
  have "cover (b # l) x = cover l' x" using assms by (simp add: cover_set del: set_simps) (simp add: cover_set)
  then show ?thesis by (simp add: cover_Cons)
qed

lemma cover_pos: "0 < cover l x \<longleftrightarrow> (\<exists>b\<in>set l. x \<in> cells b)"
  by (auto simp: cover_def filter_empty_conv)

lemma free_cover_upd:
  assumes "n < p2_bucket_count s"
  shows "free_cover (set_bucket n l s) x + cover (p2_free_block_buckets s n) x = free_cover s x + cover l x"
proof -
  have "(\<Sum>m<p2_bucket_count s. cover (((p2_free_block_buckets s)(n := l)) m) x) =
    cover l x + (\<Sum>m\<in>{..<p2_bucket_count s} - {n}. cover (p2_free_block_buckets s m) x)"
    using assms by (subst sum.remove [of _ n]) (auto intro!: sum.cong)
  moreover have "free_cover s x = cover (p2_free_block_buckets s n) x + (\<Sum>m\<in>{..<p2_bucket_count s} - {n}. cover (p2_free_block_buckets s m) x)"
    using assms by (simp add: free_cover_def sum.remove [of _ n])
  ultimately show ?thesis by (simp add: free_cover_def set_bucket_def)
qed

lemma free_cover_cong:
  "p2_free_block_buckets s = p2_free_block_buckets s' \<Longrightarrow> p2_bucket_count s = p2_bucket_count s' \<Longrightarrow> free_cover s = free_cover s'"
  by (simp add: free_cover_def fun_eq_iff)

lemma free_ok_cong:
  "p2_free_block_buckets s = p2_free_block_buckets s' \<Longrightarrow> p2_bucket_count s = p2_bucket_count s' \<Longrightarrow> free_ok s = free_ok s'"
  using free_cover_cong [of s s'] by (simp add: free_ok_def no_buddies_def)

lemma free_okD:
  assumes "free_ok s"
  shows "bucket_ok n (p2_free_block_buckets s n)" "p2_bucket_count s \<le> n \<Longrightarrow> p2_free_block_buckets s n = []"
    "free_cover s x \<le> 1" "no_buddies s" "distinct (p2_free_block_buckets s n)"
  using assms by (auto simp: free_ok_def intro: bucket_ok_distinct)

lemma free_cover_pos:
  "0 < free_cover s x \<longleftrightarrow> (\<exists>n<p2_bucket_count s. \<exists>b\<in>set (p2_free_block_buckets s n). x \<in> cells b)"
  unfolding free_cover_def cover_pos [symmetric] neq0_conv [symmetric] by (subst sum_eq_0_iff) auto

lemma free_blockD:
  assumes "free_ok s" "b \<in> set (p2_free_block_buckets s n)"
  shows "pb_bucket b = n" "2 ^ n dvd pb_start b" "n < p2_bucket_count s" "b = blk n (pb_start b)"
proof -
  show "pb_bucket b = n" "2 ^ n dvd pb_start b" "b = blk n (pb_start b)"
    using free_okD(1) [OF assms(1), of n] assms(2) by (auto simp: bucket_ok_def)
  show "n < p2_bucket_count s" using free_okD(2) [OF assms(1), of n] assms(2) by (cases "n < p2_bucket_count s") auto
qed

lemma free_cover_one:
  assumes "free_ok s"
  shows "free_cover s x = 1 \<longleftrightarrow> (\<exists>n a. free_at s n a \<and> x \<in> {a..<a + 2 ^ n})"
proof -
  have "free_cover s x = 1 \<longleftrightarrow> 0 < free_cover s x" using free_okD(3) [OF assms, of x] by auto
  also have "\<dots> \<longleftrightarrow> (\<exists>n a. free_at s n a \<and> x \<in> {a..<a + 2 ^ n})"
    unfolding free_cover_pos using free_blockD [OF assms] by (metis cells_blk)
  finally show ?thesis .
qed

lemma free_unique:
  assumes "free_ok s" "free_at s n a" "free_at s m c" "x \<in> {a..<a + 2 ^ n}" "x \<in> {c..<c + 2 ^ m}"
  shows "n = m \<and> a = c"
proof (rule ccontr)
  assume ne: "\<not> (n = m \<and> a = c)"
  let ?f = "p2_free_block_buckets s"
  have n: "n < p2_bucket_count s" "m < p2_bucket_count s" using free_blockD(3) [OF assms(1)] assms(2,3) by blast+
  have pos: "0 < cover (?f n) x" "0 < cover (?f m) x" unfolding cover_pos using assms by (auto intro: bexI [of _ "blk n a"] bexI [of _ "blk m c"])
  have "2 \<le> free_cover s x"
  proof (cases "n = m")
    case True
    then have "card {blk n a, blk n c} \<le> cover (?f n) x"
      unfolding cover_set [OF free_okD(5) [OF assms(1)]] using assms(2-5) by (intro card_mono) auto
    then have "2 \<le> cover (?f n) x" using ne True by simp
    also have "\<dots> \<le> free_cover s x" unfolding free_cover_def using n(1) by (intro member_le_sum) auto
    finally show ?thesis .
  next
    case False
    then have "cover (?f n) x + cover (?f m) x = (\<Sum>k\<in>{n, m}. cover (?f k) x)" by simp
    also have "\<dots> \<le> free_cover s x" unfolding free_cover_def using n by (intro sum_mono2) auto
    finally show ?thesis using pos by simp
  qed
  then show False using free_okD(3) [OF assms(1), of x] by simp
qed

text \<open>An aligned interval that is free lies in one free block.\<close>

lemma free_interval:
  assumes ok: "free_ok s"
  shows "n < p2_bucket_count s \<Longrightarrow> 2 ^ n dvd a \<Longrightarrow> \<forall>x\<in>{a..<a + 2 ^ n}. free_cover s x = 1 \<Longrightarrow>
    \<exists>m c. n \<le> m \<and> free_at s m c \<and> c \<le> a \<and> a + 2 ^ n \<le> c + 2 ^ m"
proof (induction n arbitrary: a)
  case 0
  then have "free_cover s a = 1" by simp
  then show ?case using free_cover_one [OF ok] by (auto simp: Suc_le_eq)
next
  case (Suc n)
  have d: "2 ^ n dvd a" "2 ^ n dvd a + 2 ^ n" using Suc.prems(2) by (auto intro: dvd_trans [of _ "2 * 2 ^ n"])
  obtain m1 c1 where 1: "n \<le> m1" "free_at s m1 c1" "c1 \<le> a" "a + 2 ^ n \<le> c1 + 2 ^ m1" using Suc.IH [OF _ d(1)] Suc.prems by auto
  obtain m2 c2 where 2: "n \<le> m2" "free_at s m2 c2" "c2 \<le> a + 2 ^ n" "a + 2 ^ n + 2 ^ n \<le> c2 + 2 ^ m2" using Suc.IH [OF _ d(2)] Suc.prems by auto
  note a = free_blockD(2) [OF ok 1(2), simplified] free_blockD(2) [OF ok 2(2), simplified]
  have p: "0 < (2 :: nat) ^ n" by simp
  show ?case
  proof (cases "Suc n \<le> m1")
    case True
    then show ?thesis using aligned_nested [OF True Suc.prems(2) a(1) order_refl _ 1(3)] 1 p by (intro exI [of _ m1] exI [of _ c1]) auto
  next
    case m1: False
    show ?thesis
    proof (cases "Suc n \<le> m2")
      case True
      then show ?thesis using aligned_nested [OF True Suc.prems(2) a(2) _ _ 2(3)] 2 p by (intro exI [of _ m2] exI [of _ c2]) auto
    next
      case False
      then have "m1 = n" "m2 = n" using m1 1(1) 2(1) by simp_all
      then have "free_at s n a" "free_at s n (a + 2 ^ n)" using 1 2 by simp_all
      then show ?thesis using free_okD(4) [OF ok] Suc.prems by (auto simp: no_buddies_def)
    qed
  qed
qed

section \<open>The free lists are determined by what is free\<close>

text \<open>A block is in its free list exactly when it is a largest aligned free interval.\<close>

definition maximal_free :: "(nat \<Rightarrow> bool) \<Rightarrow> nat \<Rightarrow> nat \<Rightarrow> nat \<Rightarrow> bool" where
  "maximal_free fr count n a \<longleftrightarrow> n < count \<and> 2 ^ n dvd a \<and> (\<forall>x\<in>{a..<a + 2 ^ n}. fr x) \<and>
     (Suc n = count \<or> (\<exists>x\<in>{a div 2 ^ Suc n * 2 ^ Suc n..<a div 2 ^ Suc n * 2 ^ Suc n + 2 ^ Suc n}. \<not> fr x))"

lemma parent_contains:
  fixes a :: nat
  assumes "2 ^ n dvd a"
  shows "a div 2 ^ Suc n * 2 ^ Suc n \<le> a" "a + 2 ^ n \<le> a div 2 ^ Suc n * 2 ^ Suc n + 2 ^ Suc n"
proof -
  have "a < a div 2 ^ Suc n * 2 ^ Suc n + 2 ^ Suc n" using div_mult_mod_eq [of a "2 ^ Suc n"] mod_less_divisor [of "2 ^ Suc n" a] by (metis add_less_cancel_left zero_less_numeral zero_less_power)
  then show "a + 2 ^ n \<le> a div 2 ^ Suc n * 2 ^ Suc n + 2 ^ Suc n"
    using aligned_nested [of n "Suc n" a "a div 2 ^ Suc n * 2 ^ Suc n" a] assms by simp
qed simp

lemma free_at_iff:
  assumes ok: "free_ok s"
  shows "free_at s n a \<longleftrightarrow> maximal_free (\<lambda>x. free_cover s x = 1) (p2_bucket_count s) n a"
proof
  assume f: "free_at s n a"
  note b = free_blockD(2,3) [OF ok f, simplified]
  have all: "\<forall>x\<in>{a..<a + 2 ^ n}. free_cover s x = 1" using free_cover_one [OF ok] f by blast
  moreover have "\<exists>x\<in>{a div 2 ^ Suc n * 2 ^ Suc n..<a div 2 ^ Suc n * 2 ^ Suc n + 2 ^ Suc n}. free_cover s x \<noteq> 1" if lt: "Suc n < p2_bucket_count s"
  proof (rule ccontr)
    assume "\<not> ?thesis"
    then obtain m c where m: "Suc n \<le> m" "free_at s m c" "c \<le> a div 2 ^ Suc n * 2 ^ Suc n" "a div 2 ^ Suc n * 2 ^ Suc n + 2 ^ Suc n \<le> c + 2 ^ m"
      using free_interval [OF ok lt, of "a div 2 ^ Suc n * 2 ^ Suc n"] by auto
    have "c \<le> a" "a + 2 ^ n \<le> c + 2 ^ m" "0 < (2 :: nat) ^ n"
      using le_trans [OF m(3) parent_contains(1) [OF b(1)]] le_trans [OF parent_contains(2) [OF b(1)] m(4)] by simp_all
    then have "a \<in> {a..<a + 2 ^ n}" "a \<in> {c..<c + 2 ^ m}" unfolding atLeastLessThan_iff by linarith+
    from free_unique [OF ok f m(2) this] m(1) show False by simp
  qed
  moreover have "Suc n < p2_bucket_count s \<or> Suc n = p2_bucket_count s" using b(2) by linarith
  ultimately show "maximal_free (\<lambda>x. free_cover s x = 1) (p2_bucket_count s) n a" unfolding maximal_free_def using b by blast
next
  assume "maximal_free (\<lambda>x. free_cover s x = 1) (p2_bucket_count s) n a"
  then have f: "n < p2_bucket_count s" "2 ^ n dvd a" "\<forall>x\<in>{a..<a + 2 ^ n}. free_cover s x = 1"
    "Suc n = p2_bucket_count s \<or> (\<exists>x\<in>{a div 2 ^ Suc n * 2 ^ Suc n..<a div 2 ^ Suc n * 2 ^ Suc n + 2 ^ Suc n}. free_cover s x \<noteq> 1)"
    by (auto simp: maximal_free_def)
  obtain m c where m: "n \<le> m" "free_at s m c" "c \<le> a" "a + 2 ^ n \<le> c + 2 ^ m" using free_interval [OF ok f(1-3)] by blast
  note mc = free_blockD(2,3) [OF ok m(2), simplified]
  have "m = n"
  proof (rule ccontr)
    assume "m \<noteq> n"
    then have mn: "Suc n \<le> m" using m(1) by simp
    let ?p = "a div 2 ^ Suc n * 2 ^ Suc n"
    have pos: "0 < (2 :: nat) ^ n" by simp
    then have "a < c + 2 ^ m" using m(4) by linarith
    moreover have "a < ?p + 2 ^ Suc n" using parent_contains(2) [OF f(2)] pos by linarith
    ultimately have "c \<le> ?p \<and> ?p + 2 ^ Suc n \<le> c + 2 ^ m"
      by (intro aligned_nested [OF mn _ mc(1) parent_contains(1) [OF f(2)] _ m(3)]) simp_all
    then have "\<forall>x\<in>{?p..<?p + 2 ^ Suc n}. free_cover s x = 1" using free_cover_one [OF ok] m(2) by fastforce
    then show False using f(4) mn mc(2) by auto
  qed
  then have "c = a" using aligned_apart [OF f(2), of c] mc(1) m(3,4) by (metis add_le_cancel_right le_antisym)
  then show "free_at s n a" using m(2) \<open>m = n\<close> by simp
qed

lemma free_lists_determined:
  assumes "free_ok s" "free_ok s'" "p2_bucket_count s = p2_bucket_count s'" "free_cover s = free_cover s'"
  shows "p2_free_block_buckets s = p2_free_block_buckets s'"
proof
  fix n
  have "b \<in> set (p2_free_block_buckets s n) \<longleftrightarrow> b \<in> set (p2_free_block_buckets s' n)" for b
    using free_at_iff [OF assms(1), of n "pb_start b"] free_at_iff [OF assms(2), of n "pb_start b"] assms(3,4)
      free_blockD(4) [OF assms(1), of b n] free_blockD(4) [OF assms(2), of b n] by metis
  then show "p2_free_block_buckets s n = p2_free_block_buckets s' n"
    using bucket_ok_eq [OF free_okD(1) [OF assms(1)] free_okD(1) [OF assms(2)]] by blast
qed

section \<open>Taking a block out and putting one back\<close>

definition buddy :: "nat \<Rightarrow> nat \<Rightarrow> nat" where
  "buddy n a = (if 2 ^ Suc n dvd a then a + 2 ^ n else a - 2 ^ n)"

lemma odd_aligned:
  assumes "2 ^ n dvd a" "\<not> 2 ^ Suc n dvd (a :: nat)"
  shows "2 ^ n \<le> a" "2 ^ Suc n dvd a - 2 ^ n"
proof -
  obtain k where k: "a = 2 ^ n * k" using assms(1) by blast
  have "odd k"
  proof
    assume "even k" then obtain j where "k = 2 * j" by blast
    then have "a = 2 ^ Suc n * j" using k by simp
    then show False using assms(2) by simp
  qed
  then obtain j where "k = 2 * j + 1" by (metis oddE)
  then show "2 ^ n \<le> a" "2 ^ Suc n dvd a - 2 ^ n" using k by (simp_all add: algebra_simps)
qed

lemma buddy_neq:
  assumes "2 ^ n dvd a" shows "buddy n a \<noteq> a"
proof -
  have "0 < (2 :: nat) ^ n" by simp
  then have "a - 2 ^ n \<noteq> a" if "2 ^ n \<le> a" using that by linarith
  then show ?thesis using odd_aligned(1) [OF assms] by (auto simp: buddy_def)
qed

lemma free_not_zero: "free_ok s \<Longrightarrow> free_at s n a \<Longrightarrow> free_cover s a \<noteq> 0"
  using free_cover_one [of s a] by fastforce

lemma set_bucket_simps [simp]:
  "p2_bucket_count (set_bucket n l s) = p2_bucket_count s" "p2_ranges (set_bucket n l s) = p2_ranges s"
  "p2_allocated_blocks (set_bucket n l s) = p2_allocated_blocks s" "p2_unused_blocks (set_bucket n l s) = p2_unused_blocks s"
  "p2_free_block_buckets (set_bucket n l s) = (p2_free_block_buckets s)(n := l)"
  by (simp_all add: set_bucket_def)

lemma free_remove:
  assumes ok: "free_ok s" and c: "free_at s n c"
  shows "free_ok (set_bucket n (remove1 (blk n c) (p2_free_block_buckets s n)) s)"
    "free_cover (set_bucket n (remove1 (blk n c) (p2_free_block_buckets s n)) s) x + of_bool (x \<in> {c..<c + 2 ^ n}) = free_cover s x"
proof -
  let ?l = "p2_free_block_buckets s n" let ?s = "set_bucket n (remove1 (blk n c) ?l) s"
  note n = free_blockD(3) [OF ok c] and d = free_okD(5) [OF ok, of n]
  have "cover ?l y = of_bool (y \<in> {c..<c + 2 ^ n}) + cover (remove1 (blk n c) ?l) y" for y
    using cover_insert [of "remove1 (blk n c) ?l" ?l "blk n c" y] d c by (auto simp: insert_absorb)
  then have cov: "free_cover ?s y + of_bool (y \<in> {c..<c + 2 ^ n}) = free_cover s y" for y
    using free_cover_upd [OF n, of "remove1 (blk n c) ?l" y] by simp
  then show "free_cover ?s x + of_bool (x \<in> {c..<c + 2 ^ n}) = free_cover s x" .
  have "free_cover ?s y \<le> 1" for y using cov [of y] free_okD(3) [OF ok, of y] by linarith
  moreover have "no_buddies ?s" using free_okD(4) [OF ok] d by (auto simp: no_buddies_def)
  ultimately show "free_ok ?s" using free_okD(1,2) [OF ok] n bucket_ok_remove1 [OF free_okD(1) [OF ok, of n]] by (auto simp: free_ok_def)
qed

lemma free_insert:
  assumes ok: "free_ok s" and n: "n < p2_bucket_count s" and a: "2 ^ n dvd a" and z: "\<forall>x\<in>{a..<a + 2 ^ n}. free_cover s x = 0"
    and l: "bucket_ok n l" "set l = insert (blk n a) (set (p2_free_block_buckets s n))"
  shows "free_cover (set_bucket n l s) x = free_cover s x + of_bool (x \<in> {a..<a + 2 ^ n})"
    "Suc n = p2_bucket_count s \<or> \<not> free_at s n (buddy n a) \<Longrightarrow> free_ok (set_bucket n l s)"
proof -
  have nin: "\<not> free_at s n a" using free_not_zero [OF ok, of n a] bspec [OF z, of a] by auto
  have "cover l y = of_bool (y \<in> {a..<a + 2 ^ n}) + cover (p2_free_block_buckets s n) y" for y
    using cover_insert [OF free_okD(5) [OF ok] bucket_ok_distinct [OF l(1)] l(2) nin, of y] by simp
  then have cov: "free_cover (set_bucket n l s) y = free_cover s y + of_bool (y \<in> {a..<a + 2 ^ n})" for y
    using free_cover_upd [OF n, of l y] by simp
  then show "free_cover (set_bucket n l s) x = free_cover s x + of_bool (x \<in> {a..<a + 2 ^ n})" .
  assume b: "Suc n = p2_bucket_count s \<or> \<not> free_at s n (buddy n a)"
  have "no_buddies (set_bucket n l s)"
    unfolding no_buddies_def
  proof (intro allI impI notI)
    fix m c assume m: "Suc m < p2_bucket_count (set_bucket n l s)" "2 ^ Suc m dvd c" "free_at (set_bucket n l s) m c \<and> free_at (set_bucket n l s) m (c + 2 ^ m)"
    then have "m = n" using free_okD(4) [OF ok] by (auto simp: no_buddies_def split: if_splits)
    then have f: "free_at s n c \<or> c = a" "free_at s n (c + 2 ^ n) \<or> c + 2 ^ n = a" "Suc n < p2_bucket_count s" "2 ^ Suc n dvd c" using m l(2) by auto
    have "\<not> 2 ^ Suc n dvd c + 2 ^ n" using f(4) by (auto dest: dvd_add_right_iff [THEN iffD1])
    then have "free_at s n (buddy n a)" using f free_okD(4) [OF ok] by (auto simp: no_buddies_def buddy_def)
    then show False using b f(3) by simp
  qed
  moreover have "free_cover (set_bucket n l s) y \<le> 1" for y
    using cov [of y] z free_okD(3) [OF ok, of y] by (cases "y \<in> {a..<a + 2 ^ n}") simp_all
  ultimately show "free_ok (set_bucket n l s)" using free_okD(1,2) [OF ok] n l(1) by (auto simp: free_ok_def)
qed

lemma merge_pair_none:
  assumes "bucket_ok n l" "blk n a \<in> set l" "2 ^ n dvd a" "blk n (buddy n a) \<notin> set l"
    and "merge_pair (blk n a) l = (Some f, Some g)"
  shows "pb_start f + 2 ^ pb_bucket f \<noteq> pb_start g"
proof
  assume e: "pb_start f + 2 ^ pb_bucket f = pb_start g"
  have fg: "f \<in> set l" "g \<in> set l" using assms(2,5) block_next_Some [of "blk n a" l] block_next_Some [of "blk n a" "rev l"]
    by (auto simp: merge_pair_def block_prev_def split: if_splits)
  then have n: "pb_bucket f = n" "pb_bucket g = n" using assms(1) by (auto simp: bucket_ok_def)
  have "blk n (buddy n a) \<in> {f, g}"
  proof (cases "2 ^ Suc n dvd a")
    case True
    then have "f = blk n a" using assms(5) and_mask_iff [of a "Suc n"] by (simp add: merge_pair_def)
    then have "pb_start g = buddy n a" using e True by (auto simp: buddy_def)
    then have "g = blk n (buddy n a)" using n(2) by (rule blk_eqI [rotated])
    then show ?thesis by blast
  next
    case False
    then have "g = blk n a" using assms(5) and_mask_iff [of a "Suc n"] by (simp add: merge_pair_def)
    then have "pb_start f = buddy n a" using e False n(1) by (auto simp: buddy_def)
    then have "f = blk n (buddy n a)" using n(1) by (rule blk_eqI [rotated])
    then show ?thesis by blast
  qed
  then show False using fg assms(4) by auto
qed

lemma merge_pair_some:
  assumes "bucket_ok n l" "blk n a \<in> set l" "2 ^ n dvd a" "blk n (buddy n a) \<in> set l"
  shows "merge_pair (blk n a) l = (if 2 ^ Suc n dvd a then (Some (blk n a), Some (blk n (a + 2 ^ n))) else (Some (blk n (a - 2 ^ n)), Some (blk n a)))"
proof (cases "2 ^ Suc n dvd a")
  case True
  then show ?thesis using block_next_iff [OF assms(1-3)] assms(4) and_mask_iff [of a "Suc n"] by (auto simp: merge_pair_def buddy_def)
next
  case False
  then show ?thesis using block_prev_iff [OF assms(1-3) odd_aligned(1) [OF assms(3) False]] assms(4) and_mask_iff [of a "Suc n"]
    by (auto simp: merge_pair_def buddy_def)
qed

lemmas and_mask_Suc = and_mask_iff [unfolded One_nat_def]

declare p2ra_return_free_block.simps [simp del]

definition same_frame :: "p2ra_state \<Rightarrow> p2ra_state \<Rightarrow> bool" where
  "same_frame s s' \<longleftrightarrow> p2_bucket_count s' = p2_bucket_count s \<and> p2_ranges s' = p2_ranges s \<and> p2_allocated_blocks s' = p2_allocated_blocks s"

lemma insert_uncovered:
  assumes ok: "free_ok s" and a: "2 ^ n dvd a" and z: "\<forall>x\<in>{a..<a + 2 ^ n}. free_cover s x = 0"
  shows "\<not> free_at s n a" "\<exists>l. insert_block (blk n a) (p2_free_block_buckets s n) = Some l \<and> bucket_ok n l \<and>
    set l = insert (blk n a) (set (p2_free_block_buckets s n))"
proof -
  show nin: "\<not> free_at s n a" using free_not_zero [OF ok, of n a] bspec [OF z, of a] by auto
  show "\<exists>l. insert_block (blk n a) (p2_free_block_buckets s n) = Some l \<and> bucket_ok n l \<and>
    set l = insert (blk n a) (set (p2_free_block_buckets s n))"
    by (rule insert_block_ok [OF free_okD(1) [OF ok] a nin])
qed

text \<open>A block whose buddy is not free is only added to its bucket.\<close>

lemma return_alone_ok:
  assumes ok: "free_ok s" and n: "n < p2_bucket_count s" and a: "2 ^ n dvd a" and z: "\<forall>x\<in>{a..<a + 2 ^ n}. free_cover s x = 0"
    and b: "Suc n = p2_bucket_count s \<or> \<not> free_at s n (buddy n a)"
  shows "\<exists>s'. p2ra_return_free_block s (blk n a) merge = Some s' \<and> free_ok s' \<and> same_frame s s' \<and> free_at s' n a \<and>
    (\<forall>x. free_cover s' x = free_cover s x + of_bool (x \<in> {a..<a + 2 ^ n}))"
proof -
  obtain l where l: "insert_block (blk n a) (p2_free_block_buckets s n) = Some l" "bucket_ok n l"
    "set l = insert (blk n a) (set (p2_free_block_buckets s n))" using insert_uncovered(2) [OF ok a z] by blast
  note i = free_insert [OF ok n a z l(2,3)]
  have "p2ra_return_free_block s (blk n a) merge = Some (set_bucket n l s)"
  proof (cases "Suc n = p2_bucket_count s")
    case True
    then show ?thesis using l(1) n a by (simp add: and_mask_Suc p2ra_return_free_block.simps [of s])
  next
    case False
    have "blk n (buddy n a) \<notin> set l" using b False l(3) buddy_neq [OF a] by simp
    note mp = merge_pair_none [OF l(2) _ a this]
    obtain p q where pq: "merge_pair (blk n a) l = (p, q)" by fastforce
    show ?thesis using l False n a mp pq by (cases p; cases q) (simp_all add: and_mask_Suc p2ra_return_free_block.simps [of s])
  qed
  then show ?thesis using i(1) i(2) [OF b] l(3) by (intro exI [of _ "set_bucket n l s"]) (simp add: same_frame_def)
qed

text \<open>A block whose buddy is free is merged with it when that is allowed, and stops the kernel otherwise.\<close>

lemma return_merge_step:
  assumes ok: "free_ok s" and n: "Suc n < p2_bucket_count s" and a: "2 ^ n dvd a" and z: "\<forall>x\<in>{a..<a + 2 ^ n}. free_cover s x = 0"
    and b: "free_at s n (buddy n a)"
  shows "p2ra_return_free_block s (blk n a) False = None"
    "\<exists>u. p2ra_return_free_block s (blk n a) True = p2ra_return_free_block
       ((set_bucket n (remove1 (blk n (buddy n a)) (p2_free_block_buckets s n)) s)\<lparr>p2_unused_blocks := u\<rparr>) (blk (Suc n) (min a (buddy n a))) True"
proof -
  obtain l where l: "insert_block (blk n a) (p2_free_block_buckets s n) = Some l" "bucket_ok n l"
    "set l = insert (blk n a) (set (p2_free_block_buckets s n))" using insert_uncovered(2) [OF ok a z] by blast
  have nin: "\<not> free_at s n a" by (rule insert_uncovered(1) [OF ok a z])
  have in_l: "blk n a \<in> set l" "blk n (buddy n a) \<in> set l" using l(3) b by simp_all
  note mp = merge_pair_some [OF l(2) in_l(1) a in_l(2)]
  note d = bucket_ok_distinct [OF l(2)] and d0 = free_okD(5) [OF ok, of n]
  have rm: "remove1 x (remove1 y l) = remove1 (blk n (buddy n a)) (p2_free_block_buckets s n)" if "{x, y} = {blk n a, blk n (buddy n a)}" for x y
  proof (rule bucket_ok_eq)
    show "bucket_ok n (remove1 x (remove1 y l))" by (intro bucket_ok_remove1 l(2))
    show "bucket_ok n (remove1 (blk n (buddy n a)) (p2_free_block_buckets s n))" by (intro bucket_ok_remove1 free_okD(1) [OF ok])
    show "set (remove1 x (remove1 y l)) = set (remove1 (blk n (buddy n a)) (p2_free_block_buckets s n))"
      using that d d0 l(3) nin by (auto simp: doubleton_eq_iff)
  qed
  have o: "2 ^ n \<le> a" if "\<not> 2 ^ Suc n dvd a" using odd_aligned(1) [OF a that] .
  show "p2ra_return_free_block s (blk n a) False = None"
    using l(1) n a mp o by (cases "2 ^ Suc n dvd a") (simp_all add: and_mask_Suc p2ra_return_free_block.simps [of s])
  show "\<exists>u. p2ra_return_free_block s (blk n a) True = p2ra_return_free_block
       ((set_bucket n (remove1 (blk n (buddy n a)) (p2_free_block_buckets s n)) s)\<lparr>p2_unused_blocks := u\<rparr>) (blk (Suc n) (min a (buddy n a))) True"
  proof (cases "2 ^ Suc n dvd a")
    case True
    then have "merge_pair (blk n a) l = (Some (blk n a), Some (blk n (a + 2 ^ n)))" "buddy n a = a + 2 ^ n" using mp by (simp_all add: buddy_def)
    then show ?thesis using l(1) n a rm [of "blk n (a + 2 ^ n)" "blk n a"]
      by (subst p2ra_return_free_block.simps) (auto simp: and_mask_Suc insert_commute)
  next
    case False
    then have "merge_pair (blk n a) l = (Some (blk n (a - 2 ^ n)), Some (blk n a))" "buddy n a = a - 2 ^ n" using mp by (simp_all add: buddy_def)
    then show ?thesis using l(1) n a rm [of "blk n a" "blk n (a - 2 ^ n)"] o [OF False]
      by (subst p2ra_return_free_block.simps) (auto simp: and_mask_Suc insert_commute)
  qed
qed

lemma return_merge_ok:
  assumes "free_ok s" "n < p2_bucket_count s" "2 ^ n dvd a" "\<forall>x\<in>{a..<a + 2 ^ n}. free_cover s x = 0"
  shows "\<exists>s'. p2ra_return_free_block s (blk n a) True = Some s' \<and> free_ok s' \<and> same_frame s s' \<and>
    (\<forall>x. free_cover s' x = free_cover s x + of_bool (x \<in> {a..<a + 2 ^ n}))"
  using assms
proof (induction "p2_bucket_count s - n" arbitrary: s n a rule: less_induct)
  case (less s n a)
  show ?case
  proof (cases "Suc n = p2_bucket_count s \<or> \<not> free_at s n (buddy n a)")
    case True
    then show ?thesis using return_alone_ok [OF less.prems] by blast
  next
    case False
    then have b: "free_at s n (buddy n a)" "Suc n < p2_bucket_count s" using less.prems(2) by simp_all
    let ?c = "buddy n a" let ?p = "min a ?c"
    let ?sr = "set_bucket n (remove1 (blk n ?c) (p2_free_block_buckets s n)) s"
    obtain u where u: "p2ra_return_free_block s (blk n a) True = p2ra_return_free_block (?sr\<lparr>p2_unused_blocks := u\<rparr>) (blk (Suc n) ?p) True"
      using return_merge_step(2) [OF less.prems(1) b(2) less.prems(3,4) b(1)] by blast
    let ?s = "?sr\<lparr>p2_unused_blocks := u\<rparr>"
    note r = free_remove [OF less.prems(1) b(1)]
    have ok: "free_ok ?s" by (rule free_ok_cong [of ?sr ?s, THEN iffD1, OF _ _ r(1)]) simp_all
    have cov: "free_cover ?s x + of_bool (x \<in> {?c..<?c + 2 ^ n}) = free_cover s x" for x
      using r(2) [of x] by (subst free_cover_cong [of ?s ?sr]) simp_all
    have par: "x \<in> {?p..<?p + 2 ^ Suc n} \<longleftrightarrow> x \<in> {a..<a + 2 ^ n} \<or> x \<in> {?c..<?c + 2 ^ n}" for x
      using odd_aligned(1) [OF less.prems(3)] by (cases "2 ^ Suc n dvd a") (auto simp: buddy_def)
    have al: "2 ^ Suc n dvd ?p" using odd_aligned(2) [OF less.prems(3)] by (cases "2 ^ Suc n dvd a") (simp_all add: buddy_def)
    have dj: "\<not> (x \<in> {a..<a + 2 ^ n} \<and> x \<in> {?c..<?c + 2 ^ n})" for x
      using cov [of x] less.prems(4) by auto
    have z: "\<forall>x\<in>{?p..<?p + 2 ^ Suc n}. free_cover ?s x = 0"
    proof
      fix x assume "x \<in> {?p..<?p + 2 ^ Suc n}"
      then consider "x \<in> {a..<a + 2 ^ n}" | "x \<in> {?c..<?c + 2 ^ n}" using par by blast
      then show "free_cover ?s x = 0"
        using cov [of x] less.prems(4) free_okD(3) [OF less.prems(1), of x] by cases auto
    qed
    have m: "p2_bucket_count ?s - Suc n < p2_bucket_count s - n" "Suc n < p2_bucket_count ?s" using b(2) by simp_all
    obtain s' where s': "p2ra_return_free_block ?s (blk (Suc n) ?p) True = Some s'" "free_ok s'" "same_frame ?s s'"
      "\<forall>x. free_cover s' x = free_cover ?s x + of_bool (x \<in> {?p..<?p + 2 ^ Suc n})"
      using less.hyps [OF m(1) ok m(2) al z] by blast
    have "free_cover s' x = free_cover s x + of_bool (x \<in> {a..<a + 2 ^ n})" for x
      using s'(4) [rule_format, of x] cov [of x] par [of x] dj [of x] by (auto simp: of_bool_def split: if_splits)
    then show ?thesis using u s' by (intro exI [of _ s']) (simp add: same_frame_def)
  qed
qed

end
