(* ===== verification/Pow2_Range_Ops.thy ===== *)
theory Pow2_Range_Ops
  imports Pow2_Range
begin

text \<open>
  The operations of the power-of-two range allocator: the invariant that every integer of the ranges is in exactly one block, that
  allocating, freeing and adding keep it, and what they do for their callers.
\<close>

section \<open>Allocation\<close>

lemma get_unused_frame:
  assumes "p2ra_get_unused_block s mem = (r, s', mem')"
  shows "same_frame s s'" "p2_free_block_buckets s' = p2_free_block_buckets s" "free_ok s' = free_ok s" "free_cover s' = free_cover s"
    "r = None \<Longrightarrow> mem = 0" "mem \<le> Suc mem'"
proof -
  show "r = None \<Longrightarrow> mem = 0" "mem \<le> Suc mem'" using assms by (auto simp: p2ra_get_unused_block_def split: list.splits if_splits)
  show f: "same_frame s s'" "p2_free_block_buckets s' = p2_free_block_buckets s"
    using assms by (auto simp: p2ra_get_unused_block_def same_frame_def split: list.splits if_splits)
  then show "free_ok s' = free_ok s" "free_cover s' = free_cover s"
    using free_ok_cong [of s' s] free_cover_cong [of s' s] by (auto simp: same_frame_def)
qed

lemma same_frame_refl [simp]: "same_frame s s"
  by (simp add: same_frame_def)

lemma same_frame_trans: "same_frame s s' \<Longrightarrow> same_frame s' s'' \<Longrightarrow> same_frame s s''"
  by (simp add: same_frame_def)

lemma blk_update [simp]: "h\<lparr>pb_start := a, pb_bucket := n\<rparr> = blk n a" "h\<lparr>pb_bucket := n, pb_start := a\<rparr> = blk n a"
  by (cases h; simp)+

lemma split_block_ok:
  assumes "free_ok s" "n < p2_bucket_count s" "2 ^ n dvd a" "\<forall>x\<in>{a..<a + 2 ^ n}. free_cover s x = 0" "k \<le> n"
  shows "\<exists>r s'. split_block n k (blk n a) s mem = Some (r, s') \<and> free_ok s' \<and> same_frame s s' \<and> (n - k \<le> mem \<longrightarrow> r \<noteq> None) \<and>
    (case r of
       None \<Rightarrow> \<forall>x. free_cover s' x = free_cover s x + of_bool (x \<in> {a..<a + 2 ^ n})
     | Some b \<Rightarrow> b = blk k a \<and> (\<forall>x. free_cover s' x + of_bool (x \<in> {a..<a + 2 ^ k}) = free_cover s x + of_bool (x \<in> {a..<a + 2 ^ n})))"
  using assms
proof (induction n arbitrary: s mem)
  case 0
  then show ?case by simp
next
  case (Suc n)
  show ?case
  proof (cases "k = Suc n")
    case True
    then show ?thesis using Suc.prems by simp
  next
    case False
    then have k: "k \<le> n" "k < Suc n" using Suc.prems(5) by simp_all
    obtain r s1 mem1 where g: "p2ra_get_unused_block s mem = (r, s1, mem1)" by (metis prod_cases3)
    note f = get_unused_frame [OF g]
    have s1: "free_ok s1" "Suc n < p2_bucket_count s1" "\<forall>x\<in>{a..<a + 2 ^ Suc n}. free_cover s1 x = 0"
      using Suc.prems f by (simp_all add: same_frame_def)
    show ?thesis
    proof (cases r)
      case None
      obtain s2 where s2: "p2ra_return_free_block s1 (blk (Suc n) a) True = Some s2" "free_ok s2" "same_frame s1 s2"
        "\<forall>x. free_cover s2 x = free_cover s1 x + of_bool (x \<in> {a..<a + 2 ^ Suc n})"
        using return_merge_ok [OF s1(1,2) Suc.prems(3) s1(3)] by blast
      then show ?thesis using g None k f(4) f(5) [OF None] same_frame_trans [OF f(1) s2(3)] by simp
    next
      case (Some h)
      let ?c = "a + 2 ^ n"
      have c: "2 ^ n dvd ?c" "2 ^ n dvd a" "buddy n ?c = a"
      proof -
        show "2 ^ n dvd a" "2 ^ n dvd ?c" using Suc.prems(3) by (auto intro: dvd_trans [of _ "2 * 2 ^ n"])
        have "\<not> 2 ^ Suc n dvd ?c" using Suc.prems(3) by (auto dest: dvd_add_right_iff [THEN iffD1])
        then show "buddy n ?c = a" by (simp add: buddy_def)
      qed
      have z: "\<forall>x\<in>{?c..<?c + 2 ^ n}. free_cover s1 x = 0" "free_cover s1 a = 0" using s1(3) by auto
      have nb: "\<not> free_at s1 n (buddy n ?c)" unfolding c(3) using free_not_zero [OF s1(1)] z(2) by blast
      obtain s2 where s2: "p2ra_return_free_block s1 (blk n ?c) False = Some s2" "free_ok s2" "same_frame s1 s2"
        "\<forall>x. free_cover s2 x = free_cover s1 x + of_bool (x \<in> {?c..<?c + 2 ^ n})"
        using return_alone_ok [OF s1(1) _ c(1) z(1)] nb s1(2) by fastforce
      have z2: "\<forall>x\<in>{a..<a + 2 ^ n}. free_cover s2 x = 0" using s2(4) s1(3) by auto
      obtain r' s' where s': "split_block n k (blk n a) s2 mem1 = Some (r', s')" "free_ok s'" "same_frame s2 s'" "n - k \<le> mem1 \<longrightarrow> r' \<noteq> None"
        "case r' of None \<Rightarrow> \<forall>x. free_cover s' x = free_cover s2 x + of_bool (x \<in> {a..<a + 2 ^ n})
         | Some b \<Rightarrow> b = blk k a \<and> (\<forall>x. free_cover s' x + of_bool (x \<in> {a..<a + 2 ^ k}) = free_cover s2 x + of_bool (x \<in> {a..<a + 2 ^ n}))"
        using Suc.IH [OF s2(2) _ c(2) z2 k(1), of mem1] s1(2) s2(3) by (auto simp: same_frame_def)
      have "split_block (Suc n) k (blk (Suc n) a) s mem = Some (r', s')" using g Some k(2) s2(1) s'(1) by simp
      moreover have cov: "free_cover s2 x + of_bool (x \<in> {a..<a + 2 ^ n}) = free_cover s x + of_bool (x \<in> {a..<a + 2 ^ Suc n})" for x
        using s2(4) f(4) by (auto simp: of_bool_def)
      moreover note same_frame_trans [OF f(1) same_frame_trans [OF s2(3) s'(3)]]
      moreover have "Suc n - k \<le> mem \<longrightarrow> r' \<noteq> None" using s'(4) f(6) k(1) by auto
      ultimately show ?thesis using s'(2,5) by (intro exI [of _ r'] exI [of _ s']) (simp only: cov)
    qed
  qed
qed

declare find_block.simps [simp del]

lemma find_block_Some:
  "find_block k s = Some (n, b, s') \<Longrightarrow> k \<le> n \<and> n < p2_bucket_count s \<and> (\<exists>l. p2_free_block_buckets s n = b # l \<and> s' = set_bucket n l s)"
  by (induction k s rule: find_block.induct) (subst (asm) (2) find_block.simps, auto split: if_splits list.splits)

lemma find_block_None:
  "find_block k s = None \<Longrightarrow> k \<le> n \<Longrightarrow> n < p2_bucket_count s \<Longrightarrow> p2_free_block_buckets s n = []"
proof (induction k s rule: find_block.induct)
  case (1 k s)
  then show ?case using find_block.simps [of k s] by (cases "n = k") (auto split: if_splits list.splits)
qed

section \<open>The invariant of the allocator\<close>

definition range_cells :: "p2ra_state \<Rightarrow> nat set" where
  "range_cells s = (\<Union>r\<in>set (p2_ranges s). {rg_start r..<rg_start r + rg_len r})"

text \<open>The free integers are those of the ranges that no allocated block contains.\<close>

definition is_free :: "p2ra_state \<Rightarrow> nat \<Rightarrow> bool" where
  "is_free s x \<longleftrightarrow> x \<in> range_cells s \<and> (\<forall>b\<in>set (p2_allocated_blocks s). x \<notin> cells b)"

text \<open>Every integer of the ranges is in exactly one block, free or allocated, and no other integer is in any.\<close>

definition p2_inv :: "p2ra_state \<Rightarrow> bool" where
  "p2_inv s \<longleftrightarrow> 0 < p2_bucket_count s \<and> p2_bucket_count s \<le> 32 \<and> free_ok s \<and>
     (\<forall>b\<in>set (p2_allocated_blocks s). pb_bucket b < p2_bucket_count s \<and> 2 ^ pb_bucket b dvd pb_start b) \<and>
     (\<forall>x. free_cover s x + cover (p2_allocated_blocks s) x = of_bool (x \<in> range_cells s)) \<and>
     (\<forall>r\<in>set (p2_ranges s). 0 < rg_len r \<and> rg_start r + rg_len r < 2 ^ 32)"

lemma p2_invD:
  assumes "p2_inv s"
  shows "0 < p2_bucket_count s" "p2_bucket_count s \<le> 32" "free_ok s"
    "b \<in> set (p2_allocated_blocks s) \<Longrightarrow> pb_bucket b < p2_bucket_count s" "b \<in> set (p2_allocated_blocks s) \<Longrightarrow> 2 ^ pb_bucket b dvd pb_start b"
    "free_cover s x + cover (p2_allocated_blocks s) x = of_bool (x \<in> range_cells s)"
    "r \<in> set (p2_ranges s) \<Longrightarrow> 0 < rg_len r" "r \<in> set (p2_ranges s) \<Longrightarrow> rg_start r + rg_len r < 2 ^ 32"
  using assms by (auto simp: p2_inv_def)

lemma is_free_iff:
  assumes "p2_inv s"
  shows "is_free s x \<longleftrightarrow> free_cover s x = 1"
proof -
  have "is_free s x \<longleftrightarrow> x \<in> range_cells s \<and> cover (p2_allocated_blocks s) x = 0"
    using cover_pos [of "p2_allocated_blocks s" x] by (auto simp: is_free_def)
  also have "\<dots> \<longleftrightarrow> free_cover s x = 1" using p2_invD(6) [OF assms, of x] by (auto simp: of_bool_def split: if_splits)
  finally show ?thesis .
qed

lemma is_free_zero: "p2_inv s \<Longrightarrow> \<not> is_free s x \<longleftrightarrow> free_cover s x = 0"
  using is_free_iff [of s x] free_okD(3) [OF p2_invD(3), of s x] by auto

lemma p2ra_init_ok:
  assumes "p2ra_init True max_alloc = Inr s" "max_alloc < 2 ^ 32"
  shows "p2_inv s"
proof -
  have "0 < max_alloc" "ispow2 max_alloc" using assms(1) by (auto simp: p2ra_init_def split: if_splits)
  then obtain k where "k < 32" "max_alloc = 2 ^ k" using ispow2_iff assms(2) by blast
  then have s: "s = \<lparr>p2_ranges = [], p2_unused_blocks = [], p2_allocated_blocks = [], p2_free_block_buckets = (\<lambda>_. []), p2_bucket_count = k + 1\<rparr>"
    using assms(1) by (auto simp: p2ra_init_def log2_uint_power split: if_splits)
  show ?thesis using \<open>k < 32\<close> by (simp add: s p2_inv_def free_ok_def no_buddies_def free_cover_def range_cells_def)
qed

text \<open>Changing which blocks are free and allocated.\<close>

lemma p2_inv_step:
  assumes inv: "p2_inv s" and s': "free_ok s'" "p2_bucket_count s' = p2_bucket_count s" "p2_ranges s' = p2_ranges s"
    and a: "\<forall>b\<in>set (p2_allocated_blocks s'). pb_bucket b < p2_bucket_count s \<and> 2 ^ pb_bucket b dvd pb_start b"
    and c: "\<And>x. free_cover s' x + cover (p2_allocated_blocks s') x = free_cover s x + cover (p2_allocated_blocks s) x"
  shows "p2_inv s'"
  using assms by (simp add: p2_inv_def range_cells_def)

lemma interval_mono:
  assumes "k \<le> n" "x \<in> {a..<a + 2 ^ k}" shows "x \<in> {a..<a + (2 :: nat) ^ n}"
  using assms(2) power_increasing [OF assms(1), of "2 :: nat"] unfolding atLeastLessThan_iff by linarith

lemma allocate_find:
  assumes inv: "p2_inv s" and k: "k < p2_bucket_count s"
  shows "find_block k s = None \<longleftrightarrow> \<not> (\<exists>a. 2 ^ k dvd a \<and> (\<forall>x\<in>{a..<a + 2 ^ k}. is_free s x))"
proof
  note ok = p2_invD(3) [OF inv]
  assume N: "find_block k s = None"
  show "\<not> (\<exists>a. 2 ^ k dvd a \<and> (\<forall>x\<in>{a..<a + 2 ^ k}. is_free s x))"
  proof
    assume "\<exists>a. 2 ^ k dvd a \<and> (\<forall>x\<in>{a..<a + 2 ^ k}. is_free s x)"
    then obtain a where "2 ^ k dvd a" "\<forall>x\<in>{a..<a + 2 ^ k}. free_cover s x = 1" using is_free_iff [OF inv] by blast
    then obtain m c where m: "k \<le> m" "free_at s m c" using free_interval [OF ok k] by blast
    then show False using find_block_None [OF N m(1)] free_blockD(3) [OF ok m(2)] by simp
  qed
next
  note ok = p2_invD(3) [OF inv]
  assume none: "\<not> (\<exists>a. 2 ^ k dvd a \<and> (\<forall>x\<in>{a..<a + 2 ^ k}. is_free s x))"
  show "find_block k s = None"
  proof (rule ccontr)
    assume "find_block k s \<noteq> None"
    then obtain n b s' where "find_block k s = Some (n, b, s')" by (metis not_None_eq prod_cases3)
    from find_block_Some [OF this] obtain l where n: "k \<le> n" "n < p2_bucket_count s" "p2_free_block_buckets s n = b # l" by blast
    then have b: "b \<in> set (p2_free_block_buckets s n)" by simp
    note d = free_blockD [OF ok b]
    have "free_at s n (pb_start b)" using b d(4) by metis
    then have "\<forall>x\<in>{pb_start b..<pb_start b + 2 ^ n}. is_free s x" using is_free_iff [OF inv] free_cover_one [OF ok] by blast
    then have "is_free s x" if "x \<in> {pb_start b..<pb_start b + 2 ^ k}" for x using interval_mono [OF n(1) that] by blast
    moreover have "2 ^ k dvd pb_start b" using n(1) d(2) by (auto intro: dvd_trans le_imp_power_dvd)
    ultimately have "2 ^ k dvd pb_start b \<and> (\<forall>x\<in>{pb_start b..<pb_start b + 2 ^ k}. is_free s x)" by blast
    then show False using none by blast
  qed
qed

lemma allocate_found:
  assumes inv: "p2_inv s" and f: "find_block k s = Some (n, b, s1)"
  shows "\<exists>a. b = blk n a \<and> 2 ^ k dvd a \<and> (\<forall>x\<in>{a..<a + 2 ^ k}. is_free s x) \<and>
    (\<exists>q s'. split_block n k b s1 mem = Some (q, s') \<and> free_ok s' \<and> same_frame s s' \<and> (32 \<le> mem \<longrightarrow> q \<noteq> None) \<and>
       (case q of None \<Rightarrow> free_cover s' = free_cover s
        | Some c \<Rightarrow> c = blk k a \<and> (\<forall>x. free_cover s' x + of_bool (x \<in> {a..<a + 2 ^ k}) = free_cover s x)))"
proof -
  note ok = p2_invD(3) [OF inv]
  from find_block_Some [OF f] obtain l where n: "k \<le> n" "n < p2_bucket_count s" "p2_free_block_buckets s n = b # l" "s1 = set_bucket n l s" by blast
  obtain a where b: "b = blk n a" "2 ^ n dvd a" using free_blockD [OF ok, of b n] n(3) by (metis list.set_intros(1))
  have fa: "free_at s n a" using n(3) b(1) by simp
  have s1: "s1 = set_bucket n (remove1 (blk n a) (p2_free_block_buckets s n)) s" using n(3,4) b(1) by simp
  note r = free_remove [OF ok fa, folded s1]
  have z: "\<forall>x\<in>{a..<a + 2 ^ n}. free_cover s1 x = 0"
  proof
    fix x assume "x \<in> {a..<a + 2 ^ n}" then show "free_cover s1 x = 0" using r(2) [of x] free_okD(3) [OF ok, of x] by simp
  qed
  have s1f: "same_frame s s1" by (simp add: s1 same_frame_def)
  obtain q s' where q: "split_block n k (blk n a) s1 mem = Some (q, s')" "free_ok s'" "same_frame s1 s'"
    "case q of None \<Rightarrow> \<forall>x. free_cover s' x = free_cover s1 x + of_bool (x \<in> {a..<a + 2 ^ n})
     | Some b \<Rightarrow> b = blk k a \<and> (\<forall>x. free_cover s' x + of_bool (x \<in> {a..<a + 2 ^ k}) = free_cover s1 x + of_bool (x \<in> {a..<a + 2 ^ n}))"
    "n - k \<le> mem \<longrightarrow> q \<noteq> None"
    using split_block_ok [OF r(1) _ b(2) z n(1), of mem] n(2) s1f by (auto simp: same_frame_def)
  have "case q of None \<Rightarrow> free_cover s' = free_cover s
     | Some c \<Rightarrow> c = blk k a \<and> (\<forall>x. free_cover s' x + of_bool (x \<in> {a..<a + 2 ^ k}) = free_cover s x)"
    using q(4) r(2) by (cases q) (auto simp: fun_eq_iff)
  moreover have "2 ^ k dvd a" using b(2) n(1) by (auto intro: dvd_trans le_imp_power_dvd)
  moreover have "\<forall>x\<in>{a..<a + 2 ^ k}. is_free s x"
    using is_free_iff [OF inv] free_cover_one [OF ok] fa interval_mono [OF n(1), of _ a] by blast
  moreover have "32 \<le> mem \<longrightarrow> q \<noteq> None" using q(5) n(2) p2_invD(2) [OF inv] by linarith
  ultimately show ?thesis using b(1) q(1,2) same_frame_trans [OF s1f q(3)] by blast
qed

lemma allocate_unfold:
  assumes "k < 32" "k < p2_bucket_count s"
  shows "p2ra_allocate_range mem (2 ^ k) s = (case find_block k s of
       None \<Rightarrow> Some (Inl ERR_NO_RESOURCES, s)
     | Some (bucket, block, s) \<Rightarrow> do {
         kassert (pb_bucket block = bucket);
         (r, s) \<leftarrow> split_block bucket k block s mem;
         case r of None \<Rightarrow> Some (Inl ERR_NO_MEMORY, s)
         | Some block \<Rightarrow> Some (Inr (pb_start block), s\<lparr>p2_allocated_blocks := block # p2_allocated_blocks s\<rparr>) })"
proof -
  have "(2 :: nat) ^ k < 2 ^ 32" using assms(1) by (intro power_strict_increasing) simp_all
  then have "ispow2 (2 ^ k)" using ispow2_iff [of "2 ^ k"] assms(1) by auto
  then show ?thesis unfolding p2ra_allocate_range_def log2_uint_power [OF assms(1)] using assms(2) by simp
qed

lemma allocate_ok:
  assumes inv: "p2_inv s" and len: "len < 2 ^ 32"
  shows "\<exists>r s'. p2ra_allocate_range mem len s = Some (r, s') \<and> p2_inv s' \<and> p2_ranges s' = p2_ranges s \<and> p2_bucket_count s' = p2_bucket_count s \<and>
    (case r of
       Inl st \<Rightarrow> p2_free_block_buckets s' = p2_free_block_buckets s \<and> p2_allocated_blocks s' = p2_allocated_blocks s \<and>
         (if \<exists>k<p2_bucket_count s. len = 2 ^ k
          then (if \<exists>a. len dvd a \<and> (\<forall>x\<in>{a..<a + len}. is_free s x) then st = ERR_NO_MEMORY \<and> mem < 32 else st = ERR_NO_RESOURCES)
          else st = ERR_INVALID_ARGS)
     | Inr a \<Rightarrow> \<exists>k<p2_bucket_count s. len = 2 ^ k \<and> len dvd a \<and> (\<forall>x\<in>{a..<a + len}. is_free s x) \<and>
         p2_allocated_blocks s' = blk k a # p2_allocated_blocks s)"
proof (cases "\<exists>k<p2_bucket_count s. len = 2 ^ k")
  case False
  have "\<not> ispow2 len \<or> \<not> log2_uint len < p2_bucket_count s" if "len \<noteq> 0"
    using that False ispow2_iff [OF _ len] log2_uint_power by auto
  then have "p2ra_allocate_range mem len s = Some (Inl ERR_INVALID_ARGS, s)" by (auto simp: p2ra_allocate_range_def)
  then show ?thesis using False inv by simp
next
  case True
  then obtain k where k: "k < p2_bucket_count s" "len = 2 ^ k" by blast
  have "k < 32" using k(1) p2_invD(2) [OF inv] by simp
  note alloc = allocate_unfold [OF this k(1), of mem, folded k(2)]
  show ?thesis
  proof (cases "find_block k s")
    case None
    then show ?thesis using alloc True inv allocate_find [OF inv k(1)] k(2) by simp
  next
    case (Some fb)
    then obtain n b s1 where f: "find_block k s = Some (n, b, s1)" by (cases fb) auto
    obtain a q s' where a: "b = blk n a" "len dvd a" "\<forall>x\<in>{a..<a + len}. is_free s x"
      and q: "split_block n k (blk n a) s1 mem = Some (q, s')" "free_ok s'" "same_frame s s'" "32 \<le> mem \<longrightarrow> q \<noteq> None"
      "case q of None \<Rightarrow> free_cover s' = free_cover s
       | Some c \<Rightarrow> c = blk k a \<and> (\<forall>x. free_cover s' x + of_bool (x \<in> {a..<a + 2 ^ k}) = free_cover s x)"
      using allocate_found [OF inv f, of mem] k(2) by auto
    have fr: "p2_bucket_count s' = p2_bucket_count s" "p2_ranges s' = p2_ranges s" "p2_allocated_blocks s' = p2_allocated_blocks s"
      using q(3) by (simp_all add: same_frame_def)
    show ?thesis
    proof (cases q)
      case None
      have "p2_free_block_buckets s' = p2_free_block_buckets s" using free_lists_determined [OF q(2) p2_invD(3) [OF inv] fr(1)] q(5) None by simp
      moreover have "p2_inv s'" using q(5) None p2_inv_step [OF inv q(2) fr(1,2)] inv fr(3) by (simp add: p2_inv_def)
      moreover have "mem < 32" using q(4) None by auto
      ultimately show ?thesis using alloc f q(1) a None True fr by auto
    next
      case (Some c)
      let ?s = "s'\<lparr>p2_allocated_blocks := blk k a # p2_allocated_blocks s'\<rparr>"
      have c: "c = blk k a" "free_cover s' x + of_bool (x \<in> {a..<a + 2 ^ k}) = free_cover s x" for x using q(5) Some by auto
      have "p2_inv ?s"
      proof (rule p2_inv_step [OF inv])
        show "free_ok ?s" by (rule free_ok_cong [of s' ?s, THEN iffD1, OF _ _ q(2)]) simp_all
        show "\<forall>b\<in>set (p2_allocated_blocks ?s). pb_bucket b < p2_bucket_count s \<and> 2 ^ pb_bucket b dvd pb_start b"
          using p2_invD(4,5) [OF inv] fr(3) k a(2) by auto
        show "free_cover ?s x + cover (p2_allocated_blocks ?s) x = free_cover s x + cover (p2_allocated_blocks s) x" for x
          using c(2) [of x] fr(3) free_cover_cong [of ?s s'] by (simp add: cover_Cons)
      qed (use fr in simp_all)
      then show ?thesis using alloc f q(1) a Some c(1) fr k by (intro exI [of _ "Inr a"] exI [of _ ?s]) auto
    qed
  qed
qed

lemma cover_remove1: "b \<in> set l \<Longrightarrow> cover l x = of_bool (x \<in> cells b) + cover (remove1 b l) x"
  by (induction l) (auto simp: cover_Cons)

lemma free_range_ok:
  assumes inv: "p2_inv s" and b: "blk k a \<in> set (p2_allocated_blocks s)"
  shows "\<exists>s'. p2ra_free_range a (2 ^ k) s = Some s' \<and> p2_inv s' \<and> p2_ranges s' = p2_ranges s \<and> p2_bucket_count s' = p2_bucket_count s \<and>
    p2_allocated_blocks s' = remove1 (blk k a) (p2_allocated_blocks s) \<and> (\<forall>x. free_cover s' x = free_cover s x + of_bool (x \<in> {a..<a + 2 ^ k}))"
proof -
  note ok = p2_invD(3) [OF inv]
  have k: "k < p2_bucket_count s" "2 ^ k dvd a" using p2_invD(4,5) [OF inv b] by simp_all
  then have k32: "k < 32" using p2_invD(2) [OF inv] by simp
  then have "(2 :: nat) ^ k < 2 ^ 32" by (intro power_strict_increasing) simp_all
  then have arg: "ispow2 (2 ^ k)" "log2_uint (2 ^ k) = k" using ispow2_iff [of "2 ^ k"] k32 log2_uint_power [OF k32] by auto
  let ?P = "\<lambda>b. pb_start b = a \<and> pb_bucket b = k"
  have "find ?P (p2_allocated_blocks s) = Some (blk k a)"
  proof (cases "find ?P (p2_allocated_blocks s)")
    case None then show ?thesis using b by (metis (mono_tags, lifting) find_None_iff p2ra_block.select_convs(1,2))
  next
    case (Some c) then show ?thesis using blk_eqI [of c k a] by (auto simp: find_Some_iff)
  qed
  then have e: "p2ra_free_range a (2 ^ k) s =
    p2ra_return_free_block (s\<lparr>p2_allocated_blocks := remove1 (blk k a) (p2_allocated_blocks s)\<rparr>) (blk k a) True"
    using arg by (simp add: p2ra_free_range_def)
  let ?s = "s\<lparr>p2_allocated_blocks := remove1 (blk k a) (p2_allocated_blocks s)\<rparr>"
  have cov: "cover (p2_allocated_blocks s) x = of_bool (x \<in> {a..<a + 2 ^ k}) + cover (remove1 (blk k a) (p2_allocated_blocks s)) x" for x
    using cover_remove1 [OF b] by simp
  have fc: "free_cover ?s = free_cover s" by (rule free_cover_cong) simp_all
  have z: "\<forall>x\<in>{a..<a + 2 ^ k}. free_cover ?s x = 0"
  proof
    fix x assume "x \<in> {a..<a + 2 ^ k}"
    then show "free_cover ?s x = 0" using cov [of x] p2_invD(6) [OF inv, of x] fc by (simp add: of_bool_def split: if_splits)
  qed
  have "free_ok ?s" by (rule free_ok_cong [of s ?s, THEN iffD1, OF _ _ ok]) simp_all
  from return_merge_ok [OF this _ k(2) z] k(1) obtain s' where s': "p2ra_return_free_block ?s (blk k a) True = Some s'" "free_ok s'" "same_frame ?s s'"
    "\<forall>x. free_cover s' x = free_cover s x + of_bool (x \<in> {a..<a + 2 ^ k})" using fc by auto
  have fr: "p2_bucket_count s' = p2_bucket_count s" "p2_ranges s' = p2_ranges s" "p2_allocated_blocks s' = remove1 (blk k a) (p2_allocated_blocks s)"
    using s'(3) by (simp_all add: same_frame_def)
  have "p2_inv s'"
    using p2_inv_step [OF inv s'(2) fr(1,2)] p2_invD(4,5) [OF inv] s'(4) cov fr(3) by (auto dest: notin_set_remove1 [rotated])
  then show ?thesis using e s'(1,4) fr by simp
qed

lemma allocate_succeeds:
  assumes inv: "p2_inv s" and k: "k < p2_bucket_count s" and a: "2 ^ k dvd a" "\<forall>x\<in>{a..<a + 2 ^ k}. is_free s x" and mem: "32 \<le> mem"
  shows "\<exists>b s'. p2ra_allocate_range mem (2 ^ k) s = Some (Inr b, s')"
proof -
  have "k < 32" using k p2_invD(2) [OF inv] by simp
  then have "(2 :: nat) ^ k < 2 ^ 32" by (intro power_strict_increasing) simp_all
  note al = allocate_ok [OF inv this, of mem]
  have f: "\<exists>j<p2_bucket_count s. (2 :: nat) ^ k = 2 ^ j" "\<exists>a. 2 ^ k dvd a \<and> (\<forall>x\<in>{a..<a + 2 ^ k}. is_free s x)" using k a by blast+
  obtain r s' where r: "p2ra_allocate_range mem (2 ^ k) s = Some (r, s')" using al by blast
  show ?thesis
  proof (cases r)
    case (Inl st)
    then have "st = ERR_NO_MEMORY \<and> mem < 32" using al r unfolding if_P [OF f(1)] if_P [OF f(2)] by auto
    then show ?thesis using mem by simp
  qed (use r in blast)
qed

section \<open>Adding a range\<close>

text \<open>The blocks of a range: consecutive, aligned, and each as large as fits.\<close>

fun chunk_list :: "nat \<Rightarrow> nat \<Rightarrow> nat \<Rightarrow> p2ra_block list \<Rightarrow> bool" where
  "chunk_list count start len [] \<longleftrightarrow> len = 0"
| "chunk_list count start len (b # bs) \<longleftrightarrow> pb_start b = start \<and> pb_bucket b < count \<and> 2 ^ pb_bucket b dvd start \<and> 2 ^ pb_bucket b \<le> len \<and>
     (Suc (pb_bucket b) = count \<or> \<not> 2 ^ Suc (pb_bucket b) dvd start \<or> len < 2 ^ Suc (pb_bucket b)) \<and>
     chunk_list count (start + 2 ^ pb_bucket b) (len - 2 ^ pb_bucket b) bs"

lemma misaligned_power:
  assumes "k < 32"
  shows "misaligned start (2 ^ k) \<longleftrightarrow> \<not> 2 ^ k dvd start"
proof -
  have "(2 :: nat) ^ k < 2 ^ 32" using assms by (intro power_strict_increasing) simp_all
  moreover have "2 ^ k + 2 ^ 32 - 1 = 2 ^ k - 1 + (2 :: nat) ^ 32" by simp
  ultimately have "(2 ^ k + 2 ^ 32 - 1) mod 2 ^ 32 = (2 :: nat) ^ k - 1" by (simp only: mod_add_self2) (rule mod_less, linarith)
  then show ?thesis by (simp only: misaligned_def and_mask_iff not_not)
qed

lemma misaligned_zero:
  assumes "start < 2 ^ 32"
  shows "misaligned start 0 \<longleftrightarrow> start \<noteq> 0"
proof -
  have "start AND (2 ^ 32 - 1) = 0 \<longleftrightarrow> start = 0" using and_mask_iff [of start 32] assms by (auto dest: dvd_imp_le)
  moreover have "(0 + 2 ^ 32 - 1) mod 2 ^ 32 = (2 :: nat) ^ 32 - 1" by simp
  ultimately show ?thesis by (simp only: misaligned_def)
qed

lemma shrink_chunk_ok:
  assumes "b < 32" "0 < len"
  shows "\<exists>k\<le>b. shrink_chunk start len (2 ^ b) b = Some (2 ^ k, k) \<and> 2 ^ k dvd start \<and> 2 ^ k \<le> len \<and>
    (k < b \<longrightarrow> \<not> 2 ^ Suc k dvd start \<or> len < 2 ^ Suc k)"
  using assms
proof (induction b)
  case 0
  then show ?case using misaligned_power [of 0 start] by (subst shrink_chunk.simps) auto
next
  case (Suc b)
  show ?case
  proof (cases "misaligned start (2 ^ Suc b) \<or> len < 2 ^ Suc b")
    case True
    then have "shrink_chunk start len (2 ^ Suc b) (Suc b) = shrink_chunk start len (2 ^ b) b" by (subst shrink_chunk.simps) simp
    moreover obtain k where k: "k \<le> b" "shrink_chunk start len (2 ^ b) b = Some (2 ^ k, k)" "2 ^ k dvd start" "2 ^ k \<le> len"
      "k < b \<longrightarrow> \<not> 2 ^ Suc k dvd start \<or> len < 2 ^ Suc k" using Suc by auto
    moreover have "\<not> 2 ^ Suc k dvd start \<or> len < 2 ^ Suc k" using k True misaligned_power [OF Suc.prems(1)] by (cases "k < b") auto
    ultimately show ?thesis by (intro exI [of _ k]) simp
  next
    case False
    then have "shrink_chunk start len (2 ^ Suc b) (Suc b) = Some (2 ^ Suc b, Suc b)" by (subst shrink_chunk.simps) simp
    then show ?thesis using False misaligned_power [OF Suc.prems(1)] by (intro exI [of _ "Suc b"]) auto
  qed
qed

declare grow_chunk.simps [simp del]

lemma grow_chunk_ok:
  assumes "count \<le> 32" "k < count" "2 ^ k dvd start" "2 ^ k \<le> len" "start < 2 ^ 32" "start \<noteq> 0 \<or> len < 2 ^ 31 \<or> count < 32"
  shows "\<exists>j\<ge>k. grow_chunk start len (2 ^ (count - 1)) count (2 ^ k) k = Some (2 ^ j, j) \<and> j < count \<and> 2 ^ j dvd start \<and> 2 ^ j \<le> len \<and>
    (Suc j = count \<or> \<not> 2 ^ Suc j dvd start \<or> len < 2 ^ Suc j)"
  using assms(2-4)
proof (induction "count - k" arbitrary: k rule: less_induct)
  case (less k)
  show ?case
  proof (cases "Suc k < 32")
    case True
    have "(2 :: nat) ^ Suc k < 2 ^ 32" using True by (intro power_strict_increasing) simp_all
    then have t: "2 * 2 ^ k mod 2 ^ 32 = (2 :: nat) ^ Suc k" by simp
    have le: "(2 :: nat) ^ Suc k \<le> 2 ^ (count - 1) \<longleftrightarrow> Suc k < count" using less.prems(1) by (simp only: power_increasing_iff) auto
    note g = grow_chunk.simps [of start len "2 ^ (count - 1)" count "2 ^ k" k, unfolded t Let_def le misaligned_power [OF True] not_not]
    show ?thesis
    proof (cases "Suc k < count \<and> 2 ^ Suc k \<le> len \<and> 2 ^ Suc k dvd start")
      case True
      then have "count - Suc k < count - k" by linarith
      from less.hyps [OF this] True obtain j where "Suc k \<le> j" "grow_chunk start len (2 ^ (count - 1)) count (2 ^ Suc k) (Suc k) = Some (2 ^ j, j)" "j < count"
        "2 ^ j dvd start" "2 ^ j \<le> len" "Suc j = count \<or> \<not> 2 ^ Suc j dvd start \<or> len < 2 ^ Suc j"
        by blast
      then show ?thesis using g True by (intro exI [of _ j]) simp
    next
      case False
      have "grow_chunk start len (2 ^ (count - 1)) count (2 ^ k) k = Some (2 ^ k, k)" by (rule trans [OF g if_not_P [OF False]])
      then show ?thesis using less.prems False by (intro exI [of _ k]) auto
    qed
  next
    case False
    then have k: "k = 31" "count = 32" using less.prems(1) assms(1) by simp_all
    then have "start \<noteq> 0" using assms(6) less.prems(3) by auto
    moreover have "2 * 2 ^ k mod 2 ^ 32 = (0 :: nat)" by (simp add: k)
    ultimately have "grow_chunk start len (2 ^ (count - 1)) count (2 ^ k) k = Some (2 ^ k, k)"
      using misaligned_zero [OF assms(5)] by (subst grow_chunk.simps) simp
    then show ?thesis using less.prems k by (intro exI [of _ k]) auto
  qed
qed

lemma next_chunk_ok:
  assumes "count \<le> 32" "b < count" "0 < len" "start < 2 ^ 32" "start \<noteq> 0 \<or> len < 2 ^ 31 \<or> count < 32"
  shows "\<exists>k. next_chunk start len (2 ^ (count - 1)) count (2 ^ b) b = Some (2 ^ k, k) \<and> k < count \<and> 2 ^ k dvd start \<and> 2 ^ k \<le> len \<and>
    (Suc k = count \<or> \<not> 2 ^ Suc k dvd start \<or> len < 2 ^ Suc k)"
proof -
  have b: "b < 32" using assms(1,2) by simp
  obtain k where k: "k \<le> b" "shrink_chunk start len (2 ^ b) b = Some (2 ^ k, k)" "2 ^ k dvd start" "2 ^ k \<le> len"
    "k < b \<longrightarrow> \<not> 2 ^ Suc k dvd start \<or> len < 2 ^ Suc k" using shrink_chunk_ok [OF b assms(3)] by blast
  have m: "misaligned start (2 ^ j) \<longleftrightarrow> \<not> 2 ^ j dvd start" if "j < count" for j using misaligned_power [of j] that assms(1) by simp
  show ?thesis
  proof (cases "misaligned start (2 ^ b) \<or> len < 2 ^ b")
    case True
    then have "k < b" using k b m [OF assms(2)] by (metis le_neq_implies_less linorder_not_less)
    then show ?thesis using k True m [of k] assms(2) by (intro exI [of _ k]) (simp add: next_chunk_def)
  next
    case False
    then have "shrink_chunk start len (2 ^ b) b = Some (2 ^ b, b)" by (subst shrink_chunk.simps) simp
    moreover obtain j where "grow_chunk start len (2 ^ (count - 1)) count (2 ^ b) b = Some (2 ^ j, j)" "j < count" "2 ^ j dvd start" "2 ^ j \<le> len"
      "Suc j = count \<or> \<not> 2 ^ Suc j dvd start \<or> len < 2 ^ Suc j"
      using grow_chunk_ok [OF assms(1,2) _ _ assms(4,5)] False m [OF assms(2)] by (auto simp: not_less)
    ultimately show ?thesis using False m by (intro exI [of _ j]) (simp add: next_chunk_def)
  qed
qed

lemma break_range_ok:
  assumes "p2_bucket_count s \<le> 32" "b < p2_bucket_count s" "start + len < 2 ^ 32" "start \<noteq> 0 \<or> len < 2 ^ 31 \<or> p2_bucket_count s < 32"
  shows "\<exists>r s'. break_range start len (2 ^ (p2_bucket_count s - 1)) (2 ^ b) b s mem acc = Some (r, s') \<and> same_frame s s' \<and>
    p2_free_block_buckets s' = p2_free_block_buckets s \<and> (len \<le> mem \<longrightarrow> r \<noteq> None) \<and>
    (case r of None \<Rightarrow> True | Some bs \<Rightarrow> \<exists>ch. bs = acc @ ch \<and> chunk_list (p2_bucket_count s) start len ch)"
  using assms
proof (induction len arbitrary: start b s mem acc rule: less_induct)
  case (less len)
  show ?case
  proof (cases "len = 0")
    case True
    then show ?thesis by simp
  next
    case False
    let ?c = "p2_bucket_count s"
    obtain k where k: "next_chunk start len (2 ^ (?c - 1)) ?c (2 ^ b) b = Some (2 ^ k, k)" "k < ?c" "2 ^ k dvd start" "2 ^ k \<le> len"
      "Suc k = ?c \<or> \<not> 2 ^ Suc k dvd start \<or> len < 2 ^ Suc k"
      using next_chunk_ok [OF less.prems(1,2), of len start] less.prems(3,4) False by auto
    obtain r s1 mem1 where g: "p2ra_get_unused_block s mem = (r, s1, mem1)" by (metis prod_cases3)
    note f = get_unused_frame [OF g]
    have c1: "p2_bucket_count s1 = ?c" using f(1) by (simp add: same_frame_def)
    have pos: "0 < (2 :: nat) ^ k" by simp
    show ?thesis
    proof (cases r)
      case None
      then have "mem = 0" by (rule f(5))
      then show ?thesis using False k(1) g None f(1,2) by (subst break_range.simps) simp
    next
      case (Some h)
      have lt: "len - 2 ^ k < len" "start + 2 ^ k + (len - 2 ^ k) < 2 ^ 32" "start + 2 ^ k \<noteq> 0" using pos k(4) less.prems(3) by linarith+
      obtain r' s' where s': "break_range (start + 2 ^ k) (len - 2 ^ k) (2 ^ (?c - 1)) (2 ^ k) k s1 mem1 (acc @ [blk k start]) = Some (r', s')" "same_frame s1 s'"
        "p2_free_block_buckets s' = p2_free_block_buckets s1" "len - 2 ^ k \<le> mem1 \<longrightarrow> r' \<noteq> None"
        "case r' of None \<Rightarrow> True | Some bs \<Rightarrow> \<exists>ch. bs = (acc @ [blk k start]) @ ch \<and> chunk_list ?c (start + 2 ^ k) (len - 2 ^ k) ch"
        using less.IH [OF lt(1), of s1 k "start + 2 ^ k" mem1 "acc @ [blk k start]"] less.prems(1) k(2) lt(2,3) unfolding c1 by blast
      have e: "break_range start len (2 ^ (?c - 1)) (2 ^ b) b s mem acc = Some (r', s')"
        using False k(1) g Some s'(1) by (subst break_range.simps) simp
      have "\<exists>ch. bs = acc @ ch \<and> chunk_list ?c start len ch" if rb: "r' = Some bs" for bs
      proof -
        obtain ch where "bs = acc @ blk k start # ch" "chunk_list ?c (start + 2 ^ k) (len - 2 ^ k) ch" using s'(5) rb by auto
        then show ?thesis using k(2-5) by (intro exI [of _ "blk k start # ch"]) simp
      qed
      moreover have "r' \<noteq> None" if "len \<le> mem" using s'(4) that f(6) pos by linarith
      moreover have "same_frame s s'" "p2_free_block_buckets s' = p2_free_block_buckets s" using same_frame_trans [OF f(1) s'(2)] s'(3) f(2) by simp_all
      ultimately show ?thesis using e by (cases r') auto
    qed
  qed
qed

text \<open>The blocks put back: each of them is alone, or the kernel stops.\<close>

lemma return_False_Some:
  assumes ok: "free_ok s" "n < p2_bucket_count s" "2 ^ n dvd a" "\<forall>x\<in>{a..<a + 2 ^ n}. free_cover s x = 0"
    and r: "p2ra_return_free_block s (blk n a) False = Some s'"
  shows "free_ok s' \<and> same_frame s s' \<and> (\<forall>x. free_cover s' x = free_cover s x + of_bool (x \<in> {a..<a + 2 ^ n}))"
proof -
  have "Suc n = p2_bucket_count s \<or> \<not> free_at s n (buddy n a)"
    using return_merge_step(1) [OF ok(1) _ ok(3,4)] r ok(2) by (metis Suc_lessI option.distinct(1))
  then show ?thesis using return_alone_ok [OF ok, of False] r by auto
qed

lemma return_new_blocks_Some:
  assumes "chunk_list (p2_bucket_count s) start len bs" "free_ok s" "\<forall>x\<in>{start..<start + len}. free_cover s x = 0"
    and "return_new_blocks bs s = Some s'"
  shows "free_ok s' \<and> same_frame s s' \<and> (\<forall>x. free_cover s' x = free_cover s x + of_bool (x \<in> {start..<start + len}))"
  using assms
proof (induction bs arbitrary: s start len)
  case (Cons b bs)
  define k where "k = pb_bucket b"
  have b: "b = blk k start" "k < p2_bucket_count s" "2 ^ k dvd start" "2 ^ k \<le> len" "chunk_list (p2_bucket_count s) (start + 2 ^ k) (len - 2 ^ k) bs"
    using Cons.prems(1) by (simp_all add: k_def)
  obtain s1 where s1: "p2ra_return_free_block s (blk k start) False = Some s1" "return_new_blocks bs s1 = Some s'"
    using Cons.prems(4) b(1) by (auto split: bind_splits)
  have "\<forall>x\<in>{start..<start + 2 ^ k}. free_cover s x = 0" using Cons.prems(3) b(4) by auto
  note 1 = return_False_Some [OF Cons.prems(2) b(2,3) this s1(1)]
  have z: "\<forall>x\<in>{start + 2 ^ k..<start + 2 ^ k + (len - 2 ^ k)}. free_cover s1 x = 0" using 1 Cons.prems(3) b(4) by auto
  have c: "chunk_list (p2_bucket_count s1) (start + 2 ^ k) (len - 2 ^ k) bs" using 1 b(5) by (simp add: same_frame_def)
  from Cons.IH [OF c _ z s1(2)] 1 same_frame_trans [of s s1 s'] b(4) show ?case by (auto simp: of_bool_def)
qed auto

lemma return_new_blocks_ok:
  assumes "chunk_list (p2_bucket_count s) start len bs" "free_ok s" "\<forall>x\<in>{start..<start + len}. free_cover s x = 0" "free_cover s (start + len) = 0"
    and "start = 0 \<or> free_cover s (start - 1) = 0 \<or> (\<exists>j c. free_at s j c \<and> c + 2 ^ j = start \<and>
      (Suc j = p2_bucket_count s \<or> \<not> 2 ^ Suc j dvd c \<or> len + 2 ^ j < 2 ^ Suc j))"
  shows "\<exists>s'. return_new_blocks bs s = Some s'"
  using assms
proof (induction bs arbitrary: s start len)
  case (Cons b bs)
  define k where "k = pb_bucket b"
  have b: "b = blk k start" "k < p2_bucket_count s" "2 ^ k dvd start" "2 ^ k \<le> len"
    "Suc k = p2_bucket_count s \<or> \<not> 2 ^ Suc k dvd start \<or> len < 2 ^ Suc k" "chunk_list (p2_bucket_count s) (start + 2 ^ k) (len - 2 ^ k) bs"
    using Cons.prems(1) by (simp_all add: k_def)
  have pos: "0 < (2 :: nat) ^ k" by simp
  have z: "\<forall>x\<in>{start..<start + 2 ^ k}. free_cover s x = 0" using Cons.prems(3) b(4) by auto
  have nb: "Suc k = p2_bucket_count s \<or> \<not> free_at s k (buddy k start)"
  proof (rule ccontr)
    assume n: "\<not> ?thesis"
    then have f: "free_at s k (buddy k start)" by blast
    show False
    proof (cases "2 ^ Suc k dvd start")
      case True
      have "free_cover s (start + 2 ^ k) = 0" using Cons.prems(3,4) b(4) by (cases "len = 2 ^ k") auto
      then show False using free_not_zero [OF Cons.prems(2) f] True by (simp add: buddy_def)
    next
      case False
      note o = odd_aligned [OF b(3) False]
      have e: "buddy k start = start - 2 ^ k" using False by (simp add: buddy_def)
      have x: "start - 1 \<in> {start - 2 ^ k..<start - 2 ^ k + 2 ^ k}" using o(1) pos unfolding atLeastLessThan_iff by linarith
      then have "free_cover s (start - 1) = 1" using free_cover_one [OF Cons.prems(2)] f unfolding e by blast
      moreover have "start \<noteq> 0" using o(1) pos by linarith
      ultimately obtain j c where j: "free_at s j c" "c + 2 ^ j = start" "Suc j = p2_bucket_count s \<or> \<not> 2 ^ Suc j dvd c \<or> len + 2 ^ j < 2 ^ Suc j"
        using Cons.prems(5) by auto
      have "0 < (2 :: nat) ^ j" by simp
      then have "start - 1 \<in> {c..<c + 2 ^ j}" using j(2) unfolding atLeastLessThan_iff by linarith
      then have "k = j \<and> start - 2 ^ k = c" using free_unique [OF Cons.prems(2) f [unfolded e] j(1) x] by blast
      then show False using j(3) o(2) b(4) n by auto
    qed
  qed
  obtain s1 where s1: "p2ra_return_free_block s (blk k start) False = Some s1" "free_ok s1" "same_frame s s1" "free_at s1 k start"
    "\<forall>x. free_cover s1 x = free_cover s x + of_bool (x \<in> {start..<start + 2 ^ k})"
    using return_alone_ok [OF Cons.prems(2) b(2,3) z nb] by blast
  have cnt: "p2_bucket_count s1 = p2_bucket_count s" using s1(3) by (simp add: same_frame_def)
  have "\<exists>s'. return_new_blocks bs s1 = Some s'"
  proof (rule Cons.IH)
    show "chunk_list (p2_bucket_count s1) (start + 2 ^ k) (len - 2 ^ k) bs" using b(6) cnt by simp
    show "\<forall>x\<in>{start + 2 ^ k..<start + 2 ^ k + (len - 2 ^ k)}. free_cover s1 x = 0" using s1(5) Cons.prems(3) b(4) by auto
    show "free_cover s1 (start + 2 ^ k + (len - 2 ^ k)) = 0" using s1(5) Cons.prems(4) b(4) by auto
    have "Suc k = p2_bucket_count s1 \<or> \<not> 2 ^ Suc k dvd start \<or> len - 2 ^ k + 2 ^ k < 2 ^ Suc k" using b(4,5) cnt by auto
    then show "start + 2 ^ k = 0 \<or> free_cover s1 (start + 2 ^ k - 1) = 0 \<or> (\<exists>j c. free_at s1 j c \<and> c + 2 ^ j = start + 2 ^ k \<and>
      (Suc j = p2_bucket_count s1 \<or> \<not> 2 ^ Suc j dvd c \<or> len - 2 ^ k + 2 ^ j < 2 ^ Suc j))" using s1(4) by blast
  qed (rule s1(2))
  then show ?case using s1(1) b(1) by simp
qed simp

lemma overlap_iff:
  assumes "p2_inv s" "0 < len"
  shows "(\<exists>r\<in>set (p2_ranges s). ranges_overlap start len r) \<longleftrightarrow> {start..<start + len} \<inter> range_cells s \<noteq> {}"
proof -
  have "ranges_overlap start len r \<longleftrightarrow> {start..<start + len} \<inter> {rg_start r..<rg_start r + rg_len r} \<noteq> {}" if "0 < rg_len r" for r
  proof
    assume "ranges_overlap start len r"
    then have "max start (rg_start r) \<in> {start..<start + len} \<inter> {rg_start r..<rg_start r + rg_len r}"
      using that assms(2) by (auto simp: ranges_overlap_def max_def)
    then show "{start..<start + len} \<inter> {rg_start r..<rg_start r + rg_len r} \<noteq> {}" by blast
  qed (auto simp: ranges_overlap_def)
  then have "(\<exists>r\<in>set (p2_ranges s). ranges_overlap start len r) \<longleftrightarrow>
    (\<exists>r\<in>set (p2_ranges s). {start..<start + len} \<inter> {rg_start r..<rg_start r + rg_len r} \<noteq> {})"
    using p2_invD(7) [OF assms(1)] by (intro bex_cong) simp_all
  also have "\<dots> \<longleftrightarrow> {start..<start + len} \<inter> range_cells s \<noteq> {}" unfolding range_cells_def by blast
  finally show ?thesis .
qed

text \<open>What adding a range does when it returns, and when it does.\<close>

definition range_added :: "nat \<Rightarrow> nat \<Rightarrow> p2ra_state \<Rightarrow> status \<Rightarrow> p2ra_state \<Rightarrow> bool" where
  "range_added start len s st s' \<longleftrightarrow> p2_bucket_count s' = p2_bucket_count s \<and> p2_allocated_blocks s' = p2_allocated_blocks s \<and>
     (if st = NO_ERROR then range_cells s \<inter> {start..<start + len} = {} \<and> range_cells s' = range_cells s \<union> {start..<start + len} \<and>
        (\<forall>x. is_free s' x \<longleftrightarrow> is_free s x \<or> x \<in> {start..<start + len})
      else range_cells s' = range_cells s \<and> p2_free_block_buckets s' = p2_free_block_buckets s)"

lemma add_range_wrap:
  assumes "start < 2 ^ 32" "len < 2 ^ 32"
  shows "(start + len) mod 2 ^ 32 < start \<longleftrightarrow> 2 ^ 32 \<le> start + (len :: nat)"
proof (cases "start + len < 2 ^ 32")
  case False
  then have "(start + len) mod 2 ^ 32 = start + len - 2 ^ 32" using assms by (simp add: le_mod_geq)
  then show ?thesis using False assms by linarith
qed simp

lemma add_blocks_inv:
  assumes inv: "p2_inv s" and len: "0 < len" "start + len < 2 ^ 32" and dj: "range_cells s \<inter> {start..<start + len} = {}"
    and ch: "chunk_list (p2_bucket_count s) start len bs"
    and fr: "p2_bucket_count t = p2_bucket_count s" "p2_free_block_buckets t = p2_free_block_buckets s" "p2_allocated_blocks t = p2_allocated_blocks s"
      "p2_ranges t = p2_ranges s @ [\<lparr>rg_start = start, rg_len = len\<rparr>]"
  shows "return_new_blocks bs t = Some s' \<Longrightarrow> p2_inv s' \<and> range_added start len s NO_ERROR s'"
    "\<not> is_free s (start + len) \<and> (start = 0 \<or> \<not> is_free s (start - 1)) \<Longrightarrow> return_new_blocks bs t \<noteq> None"
proof -
  have cov: "free_cover t = free_cover s" "free_ok t" using free_cover_cong [OF fr(2,1)] free_ok_cong [OF fr(2,1)] p2_invD(3) [OF inv] by simp_all
  have nf: "x \<notin> range_cells s" if "x \<in> {start..<start + len}" for x using dj that by blast
  have z0: "free_cover s x = 0" if "x \<in> {start..<start + len}" for x using p2_invD(6) [OF inv, of x] nf [OF that] by simp
  then have z: "\<forall>x\<in>{start..<start + len}. free_cover t x = 0" using cov(1) by simp
  have ch': "chunk_list (p2_bucket_count t) start len bs" using ch fr(1) by simp
  show "\<not> is_free s (start + len) \<and> (start = 0 \<or> \<not> is_free s (start - 1)) \<Longrightarrow> return_new_blocks bs t \<noteq> None"
    using return_new_blocks_ok [OF ch' cov(2) z] is_free_zero [OF inv] cov(1) by auto
  assume r: "return_new_blocks bs t = Some s'"
  note n = return_new_blocks_Some [OF ch' cov(2) z r]
  have f: "p2_bucket_count s' = p2_bucket_count s" "p2_allocated_blocks s' = p2_allocated_blocks s" "p2_ranges s' = p2_ranges s @ [\<lparr>rg_start = start, rg_len = len\<rparr>]"
    "\<And>x. free_cover s' x = free_cover s x + of_bool (x \<in> {start..<start + len})" using n fr cov(1) by (simp_all add: same_frame_def)
  have rc: "range_cells s' = range_cells s \<union> {start..<start + len}" by (auto simp: range_cells_def f(3))
  have "free_cover s' x + cover (p2_allocated_blocks s') x = of_bool (x \<in> range_cells s')" for x
    using p2_invD(6) [OF inv, of x] nf [of x] by (auto simp: f(2,4) rc of_bool_def split: if_splits)
  then have i: "p2_inv s'" using inv n f(1,2,3) len by (auto simp: p2_inv_def)
  moreover have "is_free s' x \<longleftrightarrow> is_free s x \<or> x \<in> {start..<start + len}" for x
    unfolding is_free_iff [OF i] is_free_iff [OF inv] f(4) using z0 [of x] by (auto simp: of_bool_def)
  ultimately show "p2_inv s' \<and> range_added start len s NO_ERROR s'" using f(1,2) rc dj by (auto simp: range_added_def)
qed

lemma add_range_spec:
  assumes inv: "p2_inv s" and args: "start < 2 ^ 32" "len < 2 ^ 32"
    and bits: "start \<noteq> 0 \<or> len < 2 ^ 31 \<or> p2_bucket_count s < 32"
  shows "(\<forall>st s'. p2ra_add_range mem start len s = Some (st, s') \<longrightarrow> p2_inv s' \<and> range_added start len s st s') \<and>
    (\<not> is_free s (start + len) \<and> (start = 0 \<or> \<not> is_free s (start - 1)) \<longrightarrow> (\<exists>st s'. p2ra_add_range mem start len s = Some (st, s') \<and>
       (len < mem \<and> 0 < len \<and> start + len < 2 ^ 32 \<and> range_cells s \<inter> {start..<start + len} = {} \<longrightarrow> st = NO_ERROR)))"
proof (cases "len = 0 \<or> 2 ^ 32 \<le> start + len")
  case True
  then have "p2ra_add_range mem start len s = Some (ERR_INVALID_ARGS, s)" using add_range_wrap [OF args] by (auto simp: p2ra_add_range_def)
  then show ?thesis using inv True by (auto simp: range_added_def)
next
  case False
  then have len: "0 < len" "start + len < 2 ^ 32" "\<not> (start + len) mod 2 ^ 32 < start" using add_range_wrap [OF args] by auto
  note ov = overlap_iff [OF inv len(1), of start] and ok = p2_invD(3) [OF inv]
  consider (overlap) "\<exists>r\<in>set (p2_ranges s). ranges_overlap start len r"
    | (mem) "\<not> (\<exists>r\<in>set (p2_ranges s). ranges_overlap start len r)" "mem = 0"
    | (go) "\<not> (\<exists>r\<in>set (p2_ranges s). ranges_overlap start len r)" "mem \<noteq> 0" by blast
  then show ?thesis
  proof cases
    case overlap
    then have "p2ra_add_range mem start len s = Some (ERR_ALREADY_EXISTS, s)" using len by (simp add: p2ra_add_range_def)
    then show ?thesis using inv overlap ov by (auto simp: range_added_def)
  next
    case mem
    then have "p2ra_add_range mem start len s = Some (ERR_NO_MEMORY, s)" using len by (simp add: p2ra_add_range_def)
    then show ?thesis using inv mem by (auto simp: range_added_def)
  next
    case go
    let ?c = "p2_bucket_count s"
    have c: "?c - 1 < ?c" "?c \<noteq> 0" using p2_invD(1) [OF inv] by simp_all
    obtain r s1 where s1: "break_range start len (2 ^ (?c - 1)) (2 ^ (?c - 1)) (?c - 1) s (mem - 1) [] = Some (r, s1)" "same_frame s s1"
      "p2_free_block_buckets s1 = p2_free_block_buckets s" "len \<le> mem - 1 \<longrightarrow> r \<noteq> None"
      "case r of None \<Rightarrow> True | Some bs \<Rightarrow> \<exists>ch. bs = [] @ ch \<and> chunk_list ?c start len ch"
      using break_range_ok [OF p2_invD(2) [OF inv] c(1) len(2) bits, of "mem - 1" "[]"] by blast
    show ?thesis
    proof (cases r)
      case None
      then have "p2ra_add_range mem start len s = Some (ERR_NO_MEMORY, s1)" using len go c s1(1) by (simp add: p2ra_add_range_def)
      moreover have "p2_inv s1" using p2_inv_step [OF inv, of s1] s1(2,3) free_ok_cong [of s1 s] free_cover_cong [of s1 s] ok p2_invD(4,5) [OF inv]
        by (simp add: same_frame_def)
      moreover have "len < mem \<longrightarrow> False" using s1(4) None by auto
      ultimately show ?thesis using s1(2,3) by (auto simp: range_added_def range_cells_def same_frame_def)
    next
      case (Some bs)
      then have ch: "chunk_list ?c start len bs" using s1(5) by auto
      let ?r = "\<lparr>rg_start = start, rg_len = len\<rparr>"
      let ?s = "s1\<lparr>p2_ranges := p2_ranges s1 @ [?r]\<rparr>"
      have fr: "p2_bucket_count ?s = ?c" "p2_free_block_buckets ?s = p2_free_block_buckets s" "p2_allocated_blocks ?s = p2_allocated_blocks s"
        "p2_ranges ?s = p2_ranges s @ [?r]" using s1(2,3) by (simp_all add: same_frame_def)
      have e: "p2ra_add_range mem start len s = (case return_new_blocks bs ?s of None \<Rightarrow> None | Some s' \<Rightarrow> Some (NO_ERROR, s'))"
        using len go c s1(1) Some by (simp add: p2ra_add_range_def split: option.splits)
      have dj: "range_cells s \<inter> {start..<start + len} = {}" using ov go(1) by blast
      note add = add_blocks_inv [OF inv len(1,2) dj ch fr]
      show ?thesis
      proof (cases "return_new_blocks bs ?s")
        case None
        then show ?thesis using e add(2) by (simp only: option.case) blast
      next
        case (Some s')
        then show ?thesis using e add(1) [OF Some] by simp
      qed
    qed
  qed
qed

declare break_range.simps [simp del]

text \<open>With 32 buckets the doubling of the largest chunk wraps to zero, and the loop runs into its assertion.\<close>

lemma add_range_top_panics:
  assumes c: "p2_bucket_count s = 32" and len: "2 ^ 31 \<le> len" "len < 2 ^ 32" and mem: "mem \<noteq> 0"
    and no: "\<not> (\<exists>r\<in>set (p2_ranges s). ranges_overlap 0 len r)"
  shows "p2ra_add_range mem 0 len s = None"
proof -
  have m: "\<not> misaligned 0 x" for x by (simp add: misaligned_def)
  have "shrink_chunk 0 len (2 ^ 31) 31 = Some (2 ^ 31, 31)" using m len(1) by (subst shrink_chunk.simps) simp
  moreover have "grow_chunk 0 len (2 ^ 31) 32 (2 ^ 31) 31 = None" using m by (subst grow_chunk.simps) (simp add: Let_def)
  ultimately have "next_chunk 0 len (2 ^ 31) 32 (2 ^ 31) 31 = None" using m len(1) by (simp add: next_chunk_def)
  then have "break_range 0 len (2 ^ 31) (2 ^ 31) 31 s (mem - 1) [] = None" using len(1) c by (subst break_range.simps) simp
  moreover have "(0 + len) mod 2 ^ 32 = len" "len \<noteq> 0" using len by auto
  ultimately show ?thesis using c mem no by (simp add: p2ra_add_range_def)
qed

lemma add_range_inv:
  assumes inv: "p2_inv s" and args: "start < 2 ^ 32" "len < 2 ^ 32" and r: "p2ra_add_range mem start len s = Some (st, s')"
  shows "p2_inv s'"
proof (cases "start \<noteq> 0 \<or> len < 2 ^ 31 \<or> p2_bucket_count s < 32")
  case True
  then show ?thesis using add_range_spec [OF inv args] r by blast
next
  case False
  then have "p2_bucket_count s = 32" "start = 0" "2 ^ 31 \<le> len" using p2_invD(2) [OF inv] by auto
  with add_range_top_panics [OF this(1,3) args(2), of mem] r have "mem = 0 \<or> (\<exists>r\<in>set (p2_ranges s). ranges_overlap 0 len r)" by fastforce
  then have "s' = s" using r \<open>start = 0\<close> by (auto simp: p2ra_add_range_def split: if_splits)
  then show ?thesis using inv by simp
qed

text \<open>
  The neighbours are the finding: adding the integer after a free one, when the two are a pair, fails the assertion that adding a range
  merges nothing.
\<close>

lemma p2ra_add_adjacent_panics:
  assumes inv: "p2_inv s" and a: "free_at s 0 a" "even a" "Suc a < 2 ^ 32 - 1" "Suc a \<notin> range_cells s" and c: "1 < p2_bucket_count s" "2 \<le> mem"
  shows "p2ra_add_range mem (Suc a) 1 s = None"
proof -
  note ok = p2_invD(3) [OF inv]
  have len: "Suc a + 1 < 2 ^ 32" "p2_bucket_count s - 1 < p2_bucket_count s" using a(3) c(1) by simp_all
  obtain r s1 where s1: "break_range (Suc a) 1 (2 ^ (p2_bucket_count s - 1)) (2 ^ (p2_bucket_count s - 1)) (p2_bucket_count s - 1) s (mem - 1) [] = Some (r, s1)"
    "same_frame s s1" "p2_free_block_buckets s1 = p2_free_block_buckets s" "r \<noteq> None"
    "case r of None \<Rightarrow> True | Some bs \<Rightarrow> \<exists>ch. bs = [] @ ch \<and> chunk_list (p2_bucket_count s) (Suc a) 1 ch"
    using break_range_ok [OF p2_invD(2) [OF inv] len(2,1), of "mem - 1" "[]"] c(2) by fastforce
  then obtain bs where bs: "r = Some bs" "chunk_list (p2_bucket_count s) (Suc a) 1 bs" by auto
  then obtain b bs' where b: "bs = b # bs'" "pb_start b = Suc a" "2 ^ pb_bucket b \<le> (1 :: nat)" by (cases bs) auto
  then have "pb_bucket b = 0" by (metis One_nat_def le_antisym nat_power_eq_Suc_0_iff one_le_numeral one_le_power power_eq_0_iff numeral_eq_one_iff semiring_norm(85))
  then have b0: "b = blk 0 (Suc a)" using b(2) by (intro blk_eqI)
  let ?s = "s1\<lparr>p2_ranges := p2_ranges s1 @ [\<lparr>rg_start = Suc a, rg_len = 1\<rparr>]\<rparr>"
  have fr: "p2_bucket_count ?s = p2_bucket_count s" "p2_free_block_buckets ?s = p2_free_block_buckets s" using s1(2,3) by (simp_all add: same_frame_def)
  have "free_cover s (Suc a) = 0" using p2_invD(6) [OF inv, of "Suc a"] a(4) by simp
  then have z: "\<forall>x\<in>{Suc a..<Suc a + 2 ^ 0}. free_cover ?s x = 0" using free_cover_cong [OF fr(2,1)] by auto
  have "buddy 0 (Suc a) = a" using a(2) by (simp add: buddy_def)
  then have "p2ra_return_free_block ?s (blk 0 (Suc a)) False = None"
    using return_merge_step(1) [OF _ _ _ z] free_ok_cong [OF fr(2,1)] ok fr a(1) c(1) by simp
  moreover have "\<not> (\<exists>r\<in>set (p2_ranges s). ranges_overlap (Suc a) 1 r)" using overlap_iff [OF inv, of 1 "Suc a"] a(4) by auto
  ultimately show ?thesis using s1(1) bs(1) b(1) b0 c len by (simp add: p2ra_add_range_def)
qed

section \<open>Reachable allocators\<close>

inductive p2_reach :: "p2ra_state \<Rightarrow> bool" where
  p2_init: "\<lbrakk>p2ra_init True max_alloc = Inr s; max_alloc < 2 ^ 32\<rbrakk> \<Longrightarrow> p2_reach s"
| p2_add: "\<lbrakk>p2_reach s; start < 2 ^ 32; len < 2 ^ 32; p2ra_add_range mem start len s = Some (st, s')\<rbrakk> \<Longrightarrow> p2_reach s'"
| p2_allocate: "\<lbrakk>p2_reach s; len < 2 ^ 32; p2ra_allocate_range mem len s = Some (r, s')\<rbrakk> \<Longrightarrow> p2_reach s'"
| p2_free: "\<lbrakk>p2_reach s; len < 2 ^ 32; p2ra_free_range start len s = Some s'\<rbrakk> \<Longrightarrow> p2_reach s'"

lemma free_range_block:
  assumes "p2_inv s" "len < 2 ^ 32" "p2ra_free_range start len s = Some s'"
  obtains k where "len = 2 ^ k" "blk k start \<in> set (p2_allocated_blocks s)"
proof -
  have "len \<noteq> 0 \<and> ispow2 len" using assms(3) by (auto simp: p2ra_free_range_def kassert_def split: if_splits)
  then obtain k where k: "k < 32" "len = 2 ^ k" using ispow2_iff [OF _ assms(2)] by auto
  obtain b where "find (\<lambda>b. pb_start b = start \<and> pb_bucket b = log2_uint len) (p2_allocated_blocks s) = Some b"
    using assms(3) by (auto simp: p2ra_free_range_def kassert_def split: if_splits bind_splits)
  then have "b \<in> set (p2_allocated_blocks s)" "pb_start b = start" "pb_bucket b = k"
    using log2_uint_power [OF k(1)] by (auto simp: find_Some_iff k(2))
  then have "blk k start \<in> set (p2_allocated_blocks s)" using blk_eqI by metis
  then show thesis using that k(2) by blast
qed

lemma p2_reach_inv: "p2_reach s \<Longrightarrow> p2_inv s"
proof (induction rule: p2_reach.induct)
  case (p2_init max_alloc s)
  then show ?case by (rule p2ra_init_ok)
next
  case (p2_add s start len mem st s')
  then show ?case using add_range_inv by blast
next
  case (p2_allocate s len mem r s')
  then show ?case using allocate_ok [of s len mem] by auto
next
  case (p2_free s len start s')
  from free_range_block [OF p2_free.IH p2_free.hyps(2,3)] obtain k where "len = 2 ^ k" "blk k start \<in> set (p2_allocated_blocks s)" .
  then show ?case using free_range_ok [OF p2_free.IH, of k start] p2_free.hyps(3) by auto
qed

section \<open>Properties\<close>

text \<open>
  C32: allocation is safe and complete. In every reachable allocator a request returns. It is refused as invalid exactly when the size is not a power of two
  that a bucket has; otherwise it gets a range of that size, aligned to it, all of which was free, that is, in the ranges added and in no allocated
  block; it is refused for lack of resources exactly when there is no such range at all, and for lack of memory only when the heap has
  fewer than 32 blocks left; a refusal changes nothing that is free or allocated.
\<close>

theorem p2ra_allocate_correct:
  assumes "p2_reach s" "len < 2 ^ 32"
  shows "\<exists>r s'. p2ra_allocate_range mem len s = Some (r, s') \<and>
    (case r of
       Inl st \<Rightarrow> p2_free_block_buckets s' = p2_free_block_buckets s \<and> p2_allocated_blocks s' = p2_allocated_blocks s \<and>
         (if \<exists>k<p2_bucket_count s. len = 2 ^ k
          then (if \<exists>a. len dvd a \<and> (\<forall>x\<in>{a..<a + len}. is_free s x) then st = ERR_NO_MEMORY \<and> mem < 32 else st = ERR_NO_RESOURCES)
          else st = ERR_INVALID_ARGS)
     | Inr a \<Rightarrow> \<exists>k<p2_bucket_count s. len = 2 ^ k \<and> len dvd a \<and> (\<forall>x\<in>{a..<a + len}. is_free s x) \<and>
         p2_allocated_blocks s' = blk k a # p2_allocated_blocks s)"
  using allocate_ok [OF p2_reach_inv [OF assms(1)] assms(2), of mem] by blast

text \<open>
  C31: the free lists are the reference decomposition of what is free. In every reachable allocator, the list of each bucket is the list, in order, of the
  largest aligned free intervals of its size: splitting, merging and the order of past operations leave no trace.
\<close>

definition uint_values :: "nat list" where "uint_values = [0..<2 ^ 32]"

definition reference_blocks :: "p2ra_state \<Rightarrow> nat \<Rightarrow> p2ra_block list" where
  "reference_blocks s n = map (blk n) (filter (maximal_free (is_free s) (p2_bucket_count s) n) uint_values)"

lemma reference_blocks_ok:
  assumes "p2_inv s"
  shows "bucket_ok n (reference_blocks s n)" "b \<in> set (reference_blocks s n) \<longleftrightarrow> b = blk n (pb_start b) \<and> maximal_free (is_free s) (p2_bucket_count s) n (pb_start b)"
proof -
  have "sorted_wrt (<) (filter (maximal_free (is_free s) (p2_bucket_count s) n) uint_values)" by (simp add: uint_values_def sorted_wrt_filter)
  then show "bucket_ok n (reference_blocks s n)" by (auto simp: bucket_ok_def reference_blocks_def sorted_wrt_map maximal_free_def)
  have "a < 2 ^ 32" if "maximal_free (is_free s) (p2_bucket_count s) n a" for a
  proof -
    have "is_free s a" using that by (auto simp: maximal_free_def)
    then show ?thesis using p2_invD(8) [OF assms] by (fastforce simp: is_free_def range_cells_def)
  qed
  then have u: "a \<in> set uint_values" if "maximal_free (is_free s) (p2_bucket_count s) n a" for a using that by (simp add: uint_values_def)
  show "b \<in> set (reference_blocks s n) \<longleftrightarrow> b = blk n (pb_start b) \<and> maximal_free (is_free s) (p2_bucket_count s) n (pb_start b)"
  proof
    assume "b \<in> set (reference_blocks s n)"
    then show "b = blk n (pb_start b) \<and> maximal_free (is_free s) (p2_bucket_count s) n (pb_start b)" by (auto simp: reference_blocks_def)
  next
    assume b: "b = blk n (pb_start b) \<and> maximal_free (is_free s) (p2_bucket_count s) n (pb_start b)"
    then have "pb_start b \<in> set (filter (maximal_free (is_free s) (p2_bucket_count s) n) uint_values)" using u by simp
    then show "b \<in> set (reference_blocks s n)" unfolding reference_blocks_def set_map using b by (metis image_eqI)
  qed
qed

theorem p2ra_free_lists_canonical:
  assumes "p2_reach s"
  shows "p2_free_block_buckets s n = reference_blocks s n"
proof (rule bucket_ok_eq)
  note inv = p2_reach_inv [OF assms] note ok = p2_invD(3) [OF inv]
  have eq: "maximal_free (is_free s) = maximal_free (\<lambda>x. free_cover s x = 1)" using is_free_iff [OF inv] by presburger
  show "bucket_ok n (p2_free_block_buckets s n)" by (rule free_okD(1) [OF ok])
  show "bucket_ok n (reference_blocks s n)" by (rule reference_blocks_ok(1) [OF inv])
  have "b \<in> set (p2_free_block_buckets s n) \<longleftrightarrow> b \<in> set (reference_blocks s n)" for b
    unfolding reference_blocks_ok(2) [OF inv] eq using free_at_iff [OF ok, of n "pb_start b"] free_blockD(4) [OF ok, of b n] by metis
  then show "set (p2_free_block_buckets s n) = set (reference_blocks s n)" by blast
qed

text \<open>
  C33: freeing undoes allocating. When a reachable allocator hands out a range, giving the range back returns and restores every free list and the allocated
  blocks.
\<close>

theorem p2ra_alloc_free_roundtrip:
  assumes "p2_reach s" "len < 2 ^ 32" and r: "p2ra_allocate_range mem len s = Some (Inr a, s1)"
  shows "\<exists>s2. p2ra_free_range a len s1 = Some s2 \<and> p2_free_block_buckets s2 = p2_free_block_buckets s \<and>
    p2_allocated_blocks s2 = p2_allocated_blocks s \<and> p2_ranges s2 = p2_ranges s \<and> p2_bucket_count s2 = p2_bucket_count s"
proof -
  note inv = p2_reach_inv [OF assms(1)]
  have 1: "p2_inv s1" "p2_ranges s1 = p2_ranges s" "p2_bucket_count s1 = p2_bucket_count s"
    "\<exists>k<p2_bucket_count s. len = 2 ^ k \<and> p2_allocated_blocks s1 = blk k a # p2_allocated_blocks s"
    using allocate_ok [OF inv assms(2), of mem] r by auto
  then obtain k where k: "len = 2 ^ k" "p2_allocated_blocks s1 = blk k a # p2_allocated_blocks s" by blast
  obtain s2 where 2: "p2ra_free_range a len s1 = Some s2" "p2_inv s2" "p2_ranges s2 = p2_ranges s1" "p2_bucket_count s2 = p2_bucket_count s1"
    "p2_allocated_blocks s2 = remove1 (blk k a) (p2_allocated_blocks s1)" using free_range_ok [OF 1(1), of k a] k by auto
  have "p2_allocated_blocks s2 = p2_allocated_blocks s" "range_cells s2 = range_cells s" using 2(3,5) 1(2) k(2) by (simp_all add: range_cells_def)
  then have "free_cover s2 x = free_cover s x" for x using p2_invD(6) [OF 2(2), of x] p2_invD(6) [OF inv, of x] by simp
  then have "p2_free_block_buckets s2 = p2_free_block_buckets s"
    using free_lists_determined [OF p2_invD(3) [OF 2(2)] p2_invD(3) [OF inv]] 2(4) 1(3) by (simp add: fun_eq_iff)
  then show ?thesis using 2 1(2,3) \<open>p2_allocated_blocks s2 = p2_allocated_blocks s\<close> by auto
qed


text \<open>An allocator for up to four integers at a time, to which the range from 8 to 15 is added.\<close>

lemma init_example: "\<exists>s. p2ra_init True 4 = Inr s \<and> p2_reach s \<and> p2_bucket_count s = 3 \<and> p2_ranges s = [] \<and> p2_allocated_blocks s = []"
proof -
  have "\<exists>k<32. 4 = (2 :: nat) ^ k" by (intro exI [of _ 2]) simp
  then have "ispow2 4" "log2_uint 4 = 2" using ispow2_iff [of 4] log2_uint_power [of 2] by simp_all
  then obtain s where s: "p2ra_init True 4 = Inr s" "p2_bucket_count s = 3" "p2_ranges s = []" "p2_allocated_blocks s = []" by (simp add: p2ra_init_def)
  then show ?thesis using p2_init [OF s(1)] by auto
qed

lemma p2_example: "\<exists>s. p2_reach s \<and> p2_bucket_count s = 3 \<and> p2_allocated_blocks s = [] \<and> (\<forall>x. is_free s x \<longleftrightarrow> x \<in> {8..<16})"
proof -
  obtain s where s: "p2_reach s" "p2_bucket_count s = 3" "p2_ranges s = []" "p2_allocated_blocks s = []" using init_example by blast
  have n: "range_cells s = {}" "\<And>x. \<not> is_free s x" using s(3) by (simp_all add: range_cells_def is_free_def)
  note spec = add_range_spec [OF p2_reach_inv [OF s(1)], of 8 8 20]
  obtain s' where s': "p2ra_add_range 20 8 8 s = Some (NO_ERROR, s')" using spec s(2) n by auto
  moreover have "range_added 8 8 s NO_ERROR s'" using spec s' s(2) by simp
  moreover have "p2_reach s'" using p2_add [OF s(1) _ _ s'] by simp
  ultimately show ?thesis using n s(2,4) by (intro exI [of _ s']) (simp add: range_added_def)
qed


theorem p2ra_allocate_correct_witness:
  "\<exists>s r s'. p2_reach s \<and> (\<forall>x. is_free s x \<longleftrightarrow> x \<in> {8..<16}) \<and> p2ra_allocate_range 40 2 s = Some (r, s') \<and>
     (\<exists>a. r = Inr a \<and> even a \<and> {a, Suc a} \<subseteq> {8..<16})"
proof -
  obtain s where s: "p2_reach s" "p2_bucket_count s = 3" "\<forall>x. is_free s x \<longleftrightarrow> x \<in> {8..<16}" using p2_example by blast
  obtain a s' where a: "p2ra_allocate_range 40 2 s = Some (Inr a, s')"
    using allocate_succeeds [OF p2_reach_inv [OF s(1)], of 1 8 40] s(2,3) by auto
  from p2ra_allocate_correct [OF s(1), of 2 40] a s(3) have b: "2 dvd a" "\<forall>x\<in>{a..<a + 2}. x \<in> {8..<16}" by auto
  have "even a" "{a, Suc a} \<subseteq> {8..<16}" using b(1) bspec [OF b(2), of a] bspec [OF b(2), of "Suc a"] by auto
  then show ?thesis using s(1,3) a by blast
qed

theorem p2ra_free_lists_canonical_witness:
  "\<exists>s. p2_reach s \<and> (\<forall>x. is_free s x \<longleftrightarrow> x \<in> {8..<16}) \<and> set (p2_free_block_buckets s 2) = {blk 2 8, blk 2 12}"
proof -
  obtain s where s: "p2_reach s" "p2_bucket_count s = 3" "\<forall>x. is_free s x \<longleftrightarrow> x \<in> {8..<16}" using p2_example by blast
  have "maximal_free (is_free s) 3 2 a \<longleftrightarrow> a = 8 \<or> a = 12" for a
  proof
    assume "maximal_free (is_free s) 3 2 a"
    then have b: "4 dvd a" "\<forall>x\<in>{a..<a + 4}. x \<in> {8..<16}" using s(3) by (simp_all add: maximal_free_def)
    have "4 dvd a" "8 \<le> a" "a + 3 < 16" using b(1) bspec [OF b(2), of a] bspec [OF b(2), of "a + 3"] by auto
    then show "a = 8 \<or> a = 12" by presburger
  next
    assume "a = 8 \<or> a = 12"
    then have "4 dvd a" "{a..<a + 4} \<subseteq> {8..<16}" by auto
    then show "maximal_free (is_free s) 3 2 a" using s(3) by (auto simp: maximal_free_def)
  qed
  then have r: "blk n a \<in> set (reference_blocks s 2) \<longleftrightarrow> blk n a \<in> {blk 2 8, blk 2 12}" for n a
    using reference_blocks_ok(2) [OF p2_reach_inv [OF s(1)], of "blk n a" 2] s(2) by auto
  have "set (reference_blocks s 2) = {blk 2 8, blk 2 12}"
  proof (rule set_eqI)
    fix b :: p2ra_block
    obtain n a where "b = blk n a" by (cases b) simp
    then show "b \<in> set (reference_blocks s 2) \<longleftrightarrow> b \<in> {blk 2 8, blk 2 12}" using r by (simp only:)
  qed
  then show ?thesis using s(1,3) p2ra_free_lists_canonical [OF s(1), of 2] by auto
qed

theorem p2ra_alloc_free_roundtrip_witness:
  "\<exists>s a s1 s2. p2_reach s \<and> p2ra_allocate_range 40 1 s = Some (Inr a, s1) \<and> p2ra_free_range a 1 s1 = Some s2 \<and>
     p2_free_block_buckets s2 = p2_free_block_buckets s"
proof -
  obtain s where s: "p2_reach s" "p2_bucket_count s = 3" "\<forall>x. is_free s x \<longleftrightarrow> x \<in> {8..<16}" using p2_example by blast
  obtain a s1 where a: "p2ra_allocate_range 40 1 s = Some (Inr a, s1)"
    using allocate_succeeds [OF p2_reach_inv [OF s(1)], of 0 8 40] s(2,3) by auto
  from p2ra_alloc_free_roundtrip [OF s(1) _ a] show ?thesis using s(1) a by auto
qed

end
