(* ===== verification/Spec2Isabelle.thy ===== *)
theory Spec2Isabelle
  imports Futex Data_Pipe Process Pow2_Range_Ops
begin

text \<open>
  A verification library for the Magenta kernel: its timers, scheduler and wait queues, the synchronisation objects built on
  them, the objects user programs wait on and exchange data through, and the processes and handles that own these objects. Paths are relative to \<open>src/\<close>.

  \<^bold>\<open>Parts and theories.\<close>

  \<^item> \<open>Mx_Prelude\<close> holds the machine types, the status codes, the time conversions and the generic
    lemmas the components share.
  \<^item> \<open>Kernel_Timer\<close> models \<open>kernel/kernel/timer.c\<close>: the per-cpu timer queues, ordered by the
    wrap-around comparison of 32-bit times, and the one-shot hardware timer.
  \<^item> \<open>Kernel_Thread\<close> models \<open>kernel/kernel/thread.c\<close> and the cpu masks of \<open>kernel/kernel/mp.c\<close>.
    \<open>Kernel_Sched\<close> has the invariant of the scheduler and the steps of a reschedule;
    \<open>Kernel_Sched_Ops\<close> shows that every operation keeps it and what each of them does.
  \<^item> \<open>Kernel_Sync\<close> models \<open>event.c\<close>, \<open>mutex.c\<close>, \<open>semaphore.c\<close> and \<open>cond.c\<close> of \<open>kernel/kernel\<close>.
  \<^item> \<open>State_Tracker\<close>, \<open>Wait_Event\<close>, \<open>Wait_Set\<close> and \<open>Io_Port\<close> model the files of these names in
    \<open>kernel/lib/magenta\<close>: the signals of an object and its three kinds of observer. The locale
    \<open>state_observer\<close> is what a tracker asks of an observer; \<open>Observers\<close> ties the observers
    together in one world over the kernel state and interprets the locale on it, which gives that no notification is
    lost.
  \<^item> \<open>Msg_Pipe\<close> models \<open>msg_pipe.cpp\<close> and its dispatcher. Its step relation covers any order of reading, writing, closing and
    observing; its invariant is that the signals of each side are exact.
  \<^item> \<open>Vm_Object\<close> models \<open>kernel/kernel/vm/vm_object.cpp\<close> and shows that its page walks are reads and updates of a flat array of bytes.
  \<^item> \<open>Data_Pipe\<close> models \<open>data_pipe.cpp\<close> on top of memory objects and trackers, and shows that the ring buffer is a queue of bytes.
  \<^item> \<open>Futex\<close> models \<open>futex_context.cpp\<close> and \<open>futex_node.cpp\<close> with explicit pointers, and shows that the linked
    lists and the hash table are one queue of threads for each address.
  \<^item> \<open>Arena\<close> models \<open>kernel/lib/utils/arena.cpp\<close>, the allocator of handles, over a memory object.
  \<^item> \<open>Handle_Table\<close> models handles and dispatchers (\<open>magenta.cpp\<close>, \<open>handle.cpp\<close>, \<open>dispatcher.cpp\<close>), the handle table of a process
    (\<open>process_dispatcher.cpp\<close>) and the system calls on handles. \<open>Handle_Reach\<close> has the reachable systems, with any number of processes,
    and shows that handle values are sound names: they are found, they do not collide, they are not shared and they gain no rights.
  \<^item> \<open>Msg_Syscalls\<close> puts message pipes and handle tables together: the system calls that create pipes and write and read messages
    (\<open>kernel/lib/syscalls/syscalls_magenta.cpp\<close>), and how handles travel in messages.
  \<^item> \<open>Process\<close> models the state machines of \<open>process_dispatcher.cpp\<close> and \<open>user_thread.cpp\<close> and shows that a killed process dies in every
    fair run.
  \<^item> \<open>Pow2_Range\<close> models \<open>kernel/lib/pow2_range_allocator/pow2_range_allocator.c\<close>, the buddy system that hands out interrupt numbers, and shows that its
    free lists are determined by the set of free integers; \<open>Pow2_Range_Ops\<close> shows what its operations do.

  \<^bold>\<open>Conventions.\<close> A critical section of a lock is one definition, and locks themselves are left out where
  they only delimit it. An operation that blocks is split at its context switch into an \<open>_enter\<close> and a \<open>_return\<close> part. A failed
  assertion, a panic and a fault are the value None; assertions are those of a debug build. The outcome of an allocation and of a copy to or from user
  memory is an argument. Machine integers are words where they wrap; offsets and sizes of memory objects and pipes are
  natural numbers with the wrap-around written out, or excluded by the invariant. Calls from the handle table into a dispatcher, and from a
  process into the kernel's threads and address spaces, are recorded in order in a log of the state. An object whose last reference goes is destroyed in a
  step of its own, except where the destructor is part of the behaviour of the operation. Object ids come from a 64-bit counter that is taken not to wrap.

  \<^bold>\<open>Bounds.\<close> Loops are structural recursions or have a measure. The loops that follow pointers or wait for events
  (\<open>IOPort_Wait_enter\<close>, \<open>WakeThreads\<close>, \<open>unlink_walk\<close>) are partial functions, whose value None is not returning; that they return is
  part of the theorems about them. No fuel is used.

  \<^bold>\<open>Not modelled.\<close> Address spaces, regions and the physical page allocator, of which memory objects use only a count of
  free pages and data pipes a mapping function that is an argument; exception handling; the system calls on objects other than handles, messages,
  processes and threads; drivers, platform and architecture code, whose behaviour lies in hardware; the user-space
  libraries and programs.
\<close>

end
